(* ===== verification/Prelude.thy ===== *)
theory Prelude
  imports
    Main
    "HOL-Library.Word"
    "HOL-Library.Multiset"
    "HOL-Library.Char_ord"
    "HOL-Library.List_Lexorder"
    "HOL-Library.Product_Lexorder"
begin

text \<open>
  What every component shares: the Rust integer and byte types with their checked arithmetic,
  the \<open>?\<close> operator on results, commands that mutate a state and may fail, and the model of
  \<open>BTreeMap\<close> as a strictly ascending association list.
\<close>

named_theorems cmd_simps \<open>how the command combinators run\<close>
named_theorems steps_intro \<open>compositional rules for what a command may change\<close>
named_theorems bt_simps \<open>lookups and entries of ordered maps after an update\<close>


section \<open>Machine integers and bytes\<close>

type_synonym u64 = "64 word"
type_synonym u32 = "32 word"
type_synonym byte = "8 word"
type_synonym bytes = "byte list"

text \<open>Rust's \<open>u64::checked_add\<close>, and \<open>i64::checked_add\<close> on an \<^typ>\<open>int\<close> in the range of \<open>i64\<close>.\<close>

definition checked_add :: "'a::len word \<Rightarrow> 'a word \<Rightarrow> 'a word option" where
  "checked_add a b = (if unat a + unat b < 2 ^ LENGTH('a) then Some (a + b) else None)"

definition saturating_add :: "'a::len word \<Rightarrow> 'a word \<Rightarrow> 'a word" where
  "saturating_add a b = (case checked_add a b of Some c \<Rightarrow> c | None \<Rightarrow> - 1)"

definition checked_add_i64 :: "int \<Rightarrow> int \<Rightarrow> int option" where
  "checked_add_i64 a b = (if - (2 ^ 63) \<le> a + b \<and> a + b < 2 ^ 63 then Some (a + b) else None)"

lemma checked_add_SomeD: "checked_add a b = Some c \<Longrightarrow> unat c = unat a + unat b"
  by (auto simp: checked_add_def unat_word_ariths split: if_splits)

lemma checked_add_Some_iff:
  "checked_add a b = Some c \<longleftrightarrow> unat c = unat a + unat b"
  for a b c :: "'a::len word"
proof
  assume eq: "unat c = unat a + unat b"
  then have fits: "unat a + unat b < 2 ^ LENGTH('a)"
    by (metis unsigned_less)
  then have "unat (a + b) = unat c"
    by (simp add: eq unat_word_ariths)
  then have "a + b = c" by (simp add: unsigned_word_eqI)
  with fits show "checked_add a b = Some c" by (simp add: checked_add_def)
qed (rule checked_add_SomeD)

lemma checked_add_None_iff:
  "checked_add a b = None \<longleftrightarrow> 2 ^ LENGTH('a) \<le> unat a + unat b"
  for a b :: "'a::len word"
  by (simp add: checked_add_def not_less)

text \<open>An increment below a strictly greater word does not wrap.\<close>

lemma unat_Suc_less:
  fixes a b :: "'a::len word"
  assumes "a < b"
  shows "unat (a + 1) = Suc (unat a)"
proof -
  have "Suc (unat a) \<le> unat b" using assms by (simp add: word_less_nat_alt)
  also have "unat b < 2 ^ LENGTH('a)" by (rule unsigned_less)
  finally have "Suc (unat a) < 2 ^ LENGTH('a)" .
  moreover have "1 < LENGTH('a) \<or> LENGTH('a) = 1" using len_gt_0[where 'a='a] by linarith
  ultimately show ?thesis
    by (simp add: unat_word_ariths)
qed

lemma unat_of_nat_small:
  "n < 2 ^ LENGTH('a) \<Longrightarrow> unat (of_nat n :: 'a::len word) = n"
  by (simp add: unsigned_of_nat take_bit_eq_mod)


section \<open>Results: the question-mark operator\<close>

text \<open>
  \<^typ>\<open>'e + 'a\<close> is Rust's \<open>Result\<close>: \<^const>\<open>Inl\<close> carries the error. \<open>andthen m f\<close> is
  \<open>f(m?)\<close>, and \<open>checks cs\<close> is a sequence of statements \<open>c?;\<close>.
\<close>

definition andthen :: "'e + 'a \<Rightarrow> ('a \<Rightarrow> 'e + 'b) \<Rightarrow> 'e + 'b" where
  "andthen m f = (case m of Inl e \<Rightarrow> Inl e | Inr x \<Rightarrow> f x)"

primrec checks :: "('e + unit) list \<Rightarrow> 'e + unit" where
  "checks [] = Inr ()"
| "checks (c # cs) = andthen c (\<lambda>_. checks cs)"

primrec collect :: "('e + 'a) list \<Rightarrow> 'e + 'a list" where
  "collect [] = Inr []"
| "collect (c # cs) = andthen c (\<lambda>x. andthen (collect cs) (\<lambda>xs. Inr (x # xs)))"

primrec try_fold :: "('s \<Rightarrow> 'x \<Rightarrow> 'e + 's) \<Rightarrow> 's \<Rightarrow> 'x list \<Rightarrow> 'e + 's" where
  "try_fold f s [] = Inr s"
| "try_fold f s (x # xs) = andthen (f s x) (\<lambda>s'. try_fold f s' xs)"

definition ok_or :: "'e \<Rightarrow> 'a option \<Rightarrow> 'e + 'a" where
  "ok_or e x = (case x of None \<Rightarrow> Inl e | Some y \<Rightarrow> Inr y)"

definition map_err :: "('e \<Rightarrow> 'f) \<Rightarrow> 'e + 'a \<Rightarrow> 'f + 'a" where
  "map_err f m = (case m of Inl e \<Rightarrow> Inl (f e) | Inr x \<Rightarrow> Inr x)"

definition is_ok :: "'e + 'a \<Rightarrow> bool" where
  "is_ok m = (case m of Inl _ \<Rightarrow> False | Inr _ \<Rightarrow> True)"

lemma andthen_simps [simp]:
  "andthen (Inl e) f = Inl e"
  "andthen (Inr x) f = f x"
  by (simp_all add: andthen_def)

lemma andthen_Inr_iff: "andthen m f = Inr y \<longleftrightarrow> (\<exists>x. m = Inr x \<and> f x = Inr y)"
  by (cases m) auto

lemma andthen_Inl_iff:
  "andthen m f = Inl e \<longleftrightarrow> m = Inl e \<or> (\<exists>x. m = Inr x \<and> f x = Inl e)"
  by (cases m) auto

lemma ok_or_simps [simp]: "ok_or e None = Inl e" "ok_or e (Some x) = Inr x"
  by (simp_all add: ok_or_def)

lemma map_err_simps [simp]: "map_err f (Inl e) = Inl (f e)" "map_err f (Inr x) = Inr x"
  by (simp_all add: map_err_def)

lemma map_err_Inr_iff [simp]: "map_err f m = Inr x \<longleftrightarrow> m = Inr x"
  by (cases m) auto

lemma is_ok_simps [simp]: "is_ok (Inr x)" "\<not> is_ok (Inl e)"
  by (simp_all add: is_ok_def)

lemma checks_Inr_iff: "checks cs = Inr u \<longleftrightarrow> (\<forall>c \<in> set cs. c = Inr ())"
  by (induction cs) (auto simp: andthen_Inr_iff)

lemma checks_append: "checks (xs @ ys) = andthen (checks xs) (\<lambda>_. checks ys)"
proof (induction xs)
  case (Cons c cs)
  then show ?case by (cases c) auto
qed simp

lemma checks_Inl_mem: "checks cs = Inl e \<Longrightarrow> Inl e \<in> set cs"
  by (induction cs) (auto simp: andthen_Inl_iff)

lemma collect_Inr_iff: "collect ms = Inr xs \<longleftrightarrow> ms = map Inr xs"
  by (induction ms arbitrary: xs) (auto simp: andthen_Inr_iff Cons_eq_map_conv)


lemma try_fold_append: "try_fold f s (xs @ ys) = andthen (try_fold f s xs) (\<lambda>s'. try_fold f s' ys)"
proof (induction xs arbitrary: s)
  case (Cons x xs)
  then show ?case by (cases "f s x") auto
qed simp

lemma try_fold_invariant:
  assumes "try_fold f s xs = Inr s'" and "P s"
    and "\<And>s x s'. x \<in> set xs \<Longrightarrow> P s \<Longrightarrow> f s x = Inr s' \<Longrightarrow> P s'"
  shows "P s'"
  using assms
proof (induction xs arbitrary: s)
  case (Cons x xs)
  then obtain s1 where "f s x = Inr s1" "try_fold f s1 xs = Inr s'" by (auto simp: andthen_Inr_iff)
  with Cons show ?case by (metis list.set_intros)
qed simp

lemma try_fold_concat: "try_fold (try_fold f) s xss = try_fold f s (concat xss)"
proof (induction xss arbitrary: s)
  case (Cons xs xss)
  then show ?case by (simp add: try_fold_append)
qed simp


text \<open>
  The interface of a log that is folded with checks: a step that may refuse, a start state and an
  invariant the step keeps. A state folded so far and the rest of the log give what the whole log
  gives, and every state a fold reaches has the invariant.
\<close>

locale checked_fold =
  fixes step :: "'s \<Rightarrow> 'x \<Rightarrow> 'e + 's" and init :: 's and inv :: "'s \<Rightarrow> bool"
  assumes init_inv: "inv init"
    and step_inv: "inv s \<Longrightarrow> step s x = Inr s' \<Longrightarrow> inv s'"
begin

lemma steps_inv: "inv s \<Longrightarrow> try_fold step s xs = Inr s' \<Longrightarrow> inv s'"
  by (rule try_fold_invariant[where P = inv]) (auto intro: step_inv)

lemma fold_inv: "try_fold step init xs = Inr s \<Longrightarrow> inv s"
  using init_inv by (rule steps_inv)

lemma resume: "try_fold step init xs = Inr s \<Longrightarrow> try_fold step init (xs @ ys) = try_fold step s ys"
  by (simp add: try_fold_append)

lemma prefix_folds: "try_fold step init (xs @ ys) = Inr s \<Longrightarrow>
    \<exists>s0. try_fold step init xs = Inr s0 \<and> inv s0 \<and> try_fold step s0 ys = Inr s"
  using fold_inv by (auto simp: try_fold_append andthen_Inr_iff)

end


section \<open>Commands: state, result and failure\<close>

text \<open>
  A \<open>&mut self\<close> method that returns a \<open>Result\<close> is a function from the state to the result and
  the state it leaves behind. An error does not undo what was written before it.
\<close>

type_synonym ('s, 'e, 'a) cmd = "'s \<Rightarrow> ('e + 'a) \<times> 's"

definition c_return :: "'a \<Rightarrow> ('s, 'e, 'a) cmd" where
  "c_return x = (\<lambda>s. (Inr x, s))"

definition c_fail :: "'e \<Rightarrow> ('s, 'e, 'a) cmd" where
  "c_fail e = (\<lambda>s. (Inl e, s))"

definition c_lift :: "('s \<Rightarrow> 'e + 'a) \<Rightarrow> ('s, 'e, 'a) cmd" where
  "c_lift f = (\<lambda>s. (f s, s))"

definition c_modify :: "('s \<Rightarrow> 's) \<Rightarrow> ('s, 'e, unit) cmd" where
  "c_modify f = (\<lambda>s. (Inr (), f s))"

definition c_bind :: "('s, 'e, 'a) cmd \<Rightarrow> ('a \<Rightarrow> ('s, 'e, 'b) cmd) \<Rightarrow> ('s, 'e, 'b) cmd" where
  "c_bind m f = (\<lambda>s. case m s of (r, s') \<Rightarrow> (case r of Inl e \<Rightarrow> (Inl e, s') | Inr x \<Rightarrow> f x s'))"

definition c_get :: "('s \<Rightarrow> 'a) \<Rightarrow> ('a \<Rightarrow> ('s, 'e, 'b) cmd) \<Rightarrow> ('s, 'e, 'b) cmd" where
  "c_get g f = (\<lambda>s. f (g s) s)"

primrec c_each :: "('a \<Rightarrow> ('s, 'e, unit) cmd) \<Rightarrow> 'a list \<Rightarrow> ('s, 'e, unit) cmd" where
  "c_each f [] = c_return ()"
| "c_each f (x # xs) = c_bind (f x) (\<lambda>_. c_each f xs)"

primrec c_map :: "('a \<Rightarrow> ('s, 'e, 'b) cmd) \<Rightarrow> 'a list \<Rightarrow> ('s, 'e, 'b list) cmd" where
  "c_map f [] = c_return []"
| "c_map f (x # xs) = c_bind (f x) (\<lambda>y. c_bind (c_map f xs) (\<lambda>ys. c_return (y # ys)))"

lemma c_return_run [cmd_simps]: "c_return x s = (Inr x, s)"
  by (simp add: c_return_def)

lemma c_fail_run [cmd_simps]: "c_fail e s = (Inl e, s)"
  by (simp add: c_fail_def)

lemma c_lift_run [cmd_simps]: "c_lift f s = (f s, s)"
  by (simp add: c_lift_def)

lemma c_modify_run [cmd_simps]: "c_modify f s = (Inr (), f s)"
  by (simp add: c_modify_def)

lemma c_get_run [cmd_simps]: "c_get g f s = f (g s) s"
  by (simp add: c_get_def)

lemma c_bind_run [cmd_simps]:
  "c_bind m f s = (case m s of (Inl e, s') \<Rightarrow> (Inl e, s') | (Inr x, s') \<Rightarrow> f x s')"
  by (auto simp: c_bind_def split: prod.splits sum.splits)

lemma c_bind_Inr_iff:
  "c_bind m f s = (Inr y, s'') \<longleftrightarrow> (\<exists>x s'. m s = (Inr x, s') \<and> f x s' = (Inr y, s''))"
  by (auto simp: c_bind_def split: prod.splits sum.splits)

lemma c_bind_InrE:
  assumes "c_bind m f s = (Inr y, s'')"
  obtains x s' where "m s = (Inr x, s')" and "f x s' = (Inr y, s'')"
  using assms by (auto simp: c_bind_Inr_iff)

lemma c_bind_return [simp]: "c_bind (c_return x) f = f x"
  by (simp add: c_bind_def c_return_def)

lemma c_bind_fail [simp]: "c_bind (c_fail e) f = c_fail e"
  by (simp add: c_bind_def c_fail_def)

text \<open>
  \<open>steps R c\<close>: whatever state \<open>c\<close> starts in and however it ends, the state it leaves is related
  to the one it started in. With a reflexive and transitive \<open>R\<close> the property composes, so a frame
  condition or an invariant of a whole operation follows from that of its primitive writes.
\<close>

definition steps :: "('s \<Rightarrow> 's \<Rightarrow> bool) \<Rightarrow> ('s, 'e, 'a) cmd \<Rightarrow> bool" where
  "steps R c \<longleftrightarrow> (\<forall>s. R s (snd (c s)))"

definition preorder_rel :: "('s \<Rightarrow> 's \<Rightarrow> bool) \<Rightarrow> bool" where
  "preorder_rel R \<longleftrightarrow> (\<forall>s. R s s) \<and> (\<forall>s t u. R s t \<longrightarrow> R t u \<longrightarrow> R s u)"

lemma stepsD: "steps R c \<Longrightarrow> c s = (r, s') \<Longrightarrow> R s s'"
  by (metis snd_conv steps_def)

lemma stepsI: "(\<And>s r s'. c s = (r, s') \<Longrightarrow> R s s') \<Longrightarrow> steps R c"
  by (metis prod.collapse steps_def)

lemma steps_return [steps_intro]: "preorder_rel R \<Longrightarrow> steps R (c_return x)"
  by (simp add: steps_def preorder_rel_def cmd_simps)

lemma steps_fail [steps_intro]: "preorder_rel R \<Longrightarrow> steps R (c_fail e)"
  by (simp add: steps_def preorder_rel_def cmd_simps)

lemma steps_lift [steps_intro]: "preorder_rel R \<Longrightarrow> steps R (c_lift f)"
  by (simp add: steps_def preorder_rel_def cmd_simps)

lemma steps_modify [steps_intro]: "(\<And>s. R s (f s)) \<Longrightarrow> steps R (c_modify f)"
  by (simp add: steps_def cmd_simps)

lemma steps_bind [steps_intro]:
  assumes R: "preorder_rel R" and m: "steps R m" and f: "\<And>x. steps R (f x)"
  shows "steps R (c_bind m f)"
  unfolding steps_def
proof
  fix s
  obtain r s' where ms: "m s = (r, s')" by (cases "m s")
  with m have "R s s'" by (rule stepsD)
  moreover have "R s' (snd (f x s'))" for x using f by (simp add: steps_def)
  ultimately show "R s (snd (c_bind m f s))"
    using R by (auto simp: c_bind_def ms preorder_rel_def split: sum.splits)
qed

lemma steps_get [steps_intro]: "(\<And>x. steps R (f x)) \<Longrightarrow> steps R (c_get g f)"
  by (simp add: steps_def cmd_simps)

lemma steps_if [steps_intro]: "steps R c \<Longrightarrow> steps R d \<Longrightarrow> steps R (if b then c else d)"
  by simp

lemma steps_each [steps_intro]:
  "preorder_rel R \<Longrightarrow> (\<And>x. x \<in> set xs \<Longrightarrow> steps R (f x)) \<Longrightarrow> steps R (c_each f xs)"
  by (induction xs) (auto intro: steps_intro)

lemma steps_map [steps_intro]:
  "preorder_rel R \<Longrightarrow> (\<And>x. steps R (f x)) \<Longrightarrow> steps R (c_map f xs)"
  by (induction xs) (auto intro: steps_intro)

lemma steps_reply [steps_intro]:
  assumes R: "preorder_rel R" and m: "steps R m" and f: "\<And>r. steps R (f r)"
  shows "steps R (\<lambda>s. case m s of (r, s') \<Rightarrow> f r s')"
  unfolding steps_def
proof
  fix s
  obtain r s' where ms: "m s = (r, s')" by (cases "m s")
  with m have "R s s'" by (rule stepsD)
  moreover have "R s' (snd (f r s'))" using f by (simp add: steps_def)
  ultimately show "R s (snd (case m s of (r, s') \<Rightarrow> f r s'))"
    using R by (auto simp: ms preorder_rel_def)
qed

text \<open>\<open>ok_steps R c\<close>: the same for the runs of \<open>c\<close> that succeed.\<close>

definition ok_steps :: "('s \<Rightarrow> 's \<Rightarrow> bool) \<Rightarrow> ('s, 'e, 'a) cmd \<Rightarrow> bool" where
  "ok_steps R c \<longleftrightarrow> (\<forall>s x s'. c s = (Inr x, s') \<longrightarrow> R s s')"

lemma ok_stepsD: "ok_steps R c \<Longrightarrow> c s = (Inr x, s') \<Longrightarrow> R s s'"
  by (simp add: ok_steps_def)

lemma ok_stepsI: "(\<And>s x s'. c s = (Inr x, s') \<Longrightarrow> R s s') \<Longrightarrow> ok_steps R c"
  by (simp add: ok_steps_def)

lemma steps_ok [intro]: "steps R c \<Longrightarrow> ok_steps R c"
  by (metis ok_stepsI stepsD)

lemma ok_steps_fail [steps_intro]: "ok_steps R (c_fail e)"
  by (simp add: ok_steps_def cmd_simps)

lemma ok_steps_return [steps_intro]: "preorder_rel R \<Longrightarrow> ok_steps R (c_return x)"
  by (simp add: ok_steps_def cmd_simps preorder_rel_def)

lemma ok_steps_lift [steps_intro]: "preorder_rel R \<Longrightarrow> ok_steps R (c_lift f)"
  by (simp add: ok_steps_def cmd_simps preorder_rel_def)

lemma ok_steps_modify [steps_intro]: "(\<And>s. R s (f s)) \<Longrightarrow> ok_steps R (c_modify f)"
  by (auto simp: ok_steps_def cmd_simps)

lemma ok_steps_bind [steps_intro]:
  assumes R: "preorder_rel R" and m: "ok_steps R m" and f: "\<And>x. ok_steps R (f x)"
  shows "ok_steps R (c_bind m f)"
proof (rule ok_stepsI)
  fix s y s''
  assume "c_bind m f s = (Inr y, s'')"
  then obtain x s' where "m s = (Inr x, s')" "f x s' = (Inr y, s'')" by (rule c_bind_InrE)
  with m f have "R s s'" "R s' s''" by (auto dest: ok_stepsD)
  with R show "R s s''" unfolding preorder_rel_def by blast
qed

lemma ok_steps_get [steps_intro]: "(\<And>x. ok_steps R (f x)) \<Longrightarrow> ok_steps R (c_get g f)"
  by (simp add: ok_steps_def cmd_simps)

lemma ok_steps_each [steps_intro]:
  "preorder_rel R \<Longrightarrow> (\<And>x. x \<in> set xs \<Longrightarrow> ok_steps R (f x)) \<Longrightarrow> ok_steps R (c_each f xs)"
  by (induction xs) (auto intro: steps_intro)

lemma ok_steps_if [steps_intro]: "ok_steps R c \<Longrightarrow> ok_steps R d \<Longrightarrow> ok_steps R (if b then c else d)"
  by simp

lemma ok_steps_map [steps_intro]:
  "preorder_rel R \<Longrightarrow> (\<And>x. x \<in> set xs \<Longrightarrow> ok_steps R (f x)) \<Longrightarrow> ok_steps R (c_map f xs)"
  by (induction xs) (auto intro!: ok_steps_return ok_steps_bind)

text \<open>A command's value, where its continuation needs to know something of it.\<close>

definition returns :: "('a \<Rightarrow> bool) \<Rightarrow> ('s, 'e, 'a) cmd \<Rightarrow> bool" where
  "returns P c \<longleftrightarrow> (\<forall>s x s'. c s = (Inr x, s') \<longrightarrow> P x)"

lemma returns_return: "P x \<Longrightarrow> returns P (c_return x)"
  by (simp add: returns_def cmd_simps)

lemma returns_fail: "returns P (c_fail e)"
  by (simp add: returns_def cmd_simps)

lemma returns_bind: "returns Q m \<Longrightarrow> (\<And>x. Q x \<Longrightarrow> returns P (f x)) \<Longrightarrow> returns P (c_bind m f)"
  unfolding returns_def c_bind_Inr_iff by blast

lemma c_bind_assoc: "c_bind (c_bind m f) g = c_bind m (\<lambda>x. c_bind (f x) g)"
  by (rule ext) (auto simp: c_bind_def split: prod.splits sum.splits)

lemma returns_True: "returns (\<lambda>_. True) c"
  by (simp add: returns_def)

lemma steps_bind_returns:
  assumes "preorder_rel R" and "steps R m" and "returns P m" and "\<And>x. P x \<Longrightarrow> steps R (f x)"
  shows "steps R (c_bind m f)"
proof (rule stepsI)
  fix s r s'
  assume run: "c_bind m f s = (r, s')"
  obtain q t where m: "m s = (q, t)" by (cases "m s")
  with assms(2) have st: "R s t" by (rule stepsD)
  show "R s s'"
  proof (cases q)
    case (Inl e)
    with run m st show ?thesis by (simp add: cmd_simps)
  next
    case (Inr x)
    with m assms(3) have "P x" by (auto simp: returns_def)
    moreover have "f x t = (r, s')" using run m Inr by (simp add: cmd_simps)
    ultimately have "R t s'" using assms(4) stepsD by metis
    with st assms(1) show ?thesis unfolding preorder_rel_def by blast
  qed
qed

lemma ok_steps_bind_returns:
  assumes "preorder_rel R" and "ok_steps R m" and "returns P m" and "\<And>x. P x \<Longrightarrow> ok_steps R (f x)"
  shows "ok_steps R (c_bind m f)"
proof (rule ok_stepsI)
  fix s y s'
  assume "c_bind m f s = (Inr y, s')"
  then obtain x t where m: "m s = (Inr x, t)" and f: "f x t = (Inr y, s')" by (auto simp: c_bind_Inr_iff)
  have "P x" using assms(3) m by (auto simp: returns_def)
  then have "R t s'" using assms(4) f ok_stepsD by metis
  moreover have "R s t" using assms(2) m by (rule ok_stepsD)
  ultimately show "R s s'" using assms(1) unfolding preorder_rel_def by blast
qed

lemma preorder_rel_field: "preorder_rel (\<lambda>s t. g t = g s)"
  by (simp add: preorder_rel_def)

lemma preorder_rel_inv: "preorder_rel (\<lambda>s t. P s \<longrightarrow> P t)"
  by (simp add: preorder_rel_def)

lemma preorder_rel_conj: "preorder_rel R \<Longrightarrow> preorder_rel S \<Longrightarrow> preorder_rel (\<lambda>s t. R s t \<and> S s t)"
  unfolding preorder_rel_def by blast


section \<open>Ordered maps\<close>

text \<open>
  \<open>BTreeMap\<close> as the list of its entries in ascending key order. \<open>insert\<close> replaces the value of a
  key already there; iteration is the list itself.
\<close>

type_synonym ('k, 'v) btree = "('k \<times> 'v) list"

definition bt_insert :: "'k::linorder \<Rightarrow> 'v \<Rightarrow> ('k, 'v) btree \<Rightarrow> ('k, 'v) btree" where
  "bt_insert k v m = filter (\<lambda>e. fst e < k) m @ (k, v) # filter (\<lambda>e. k < fst e) m"

definition bt_remove :: "'k \<Rightarrow> ('k, 'v) btree \<Rightarrow> ('k, 'v) btree" where
  "bt_remove k m = filter (\<lambda>e. fst e \<noteq> k) m"

definition bt_retain :: "('k \<Rightarrow> bool) \<Rightarrow> ('k, 'v) btree \<Rightarrow> ('k, 'v) btree" where
  "bt_retain P m = filter (\<lambda>e. P (fst e)) m"

definition bt_get :: "('k, 'v) btree \<Rightarrow> 'k \<Rightarrow> 'v option" where
  "bt_get m k = map_of m k"

definition bt_wf :: "('k::linorder, 'v) btree \<Rightarrow> bool" where
  "bt_wf m \<longleftrightarrow> sorted_wrt (<) (map fst m)"

primrec bt_of :: "('k::linorder \<times> 'v) list \<Rightarrow> ('k, 'v) btree" where
  "bt_of [] = []"
| "bt_of (e # es) = bt_insert (fst e) (snd e) (bt_of es)"

lemma map_of_filter_key:
  "map_of (filter (\<lambda>e. P (fst e)) m) k = (if P k then map_of m k else None)"
  by (induction m) auto

lemmas map_of_filter_less = map_of_filter_key[of "\<lambda>x. x < k" for k]
lemmas map_of_filter_greater = map_of_filter_key[of "\<lambda>x. k < x" for k]

lemma bt_get_Nil [simp]: "bt_get [] k = None"
  by (simp add: bt_get_def)

lemma bt_get_insert [bt_simps]: "bt_get (bt_insert k v m) k' = (if k' = k then Some v else bt_get m k')"
  by (auto simp: bt_get_def bt_insert_def map_add_def map_of_filter_less map_of_filter_greater
      split: option.splits)

lemma bt_get_remove [bt_simps]: "bt_get (bt_remove k m) k' = (if k' = k then None else bt_get m k')"
  by (simp add: bt_get_def bt_remove_def map_of_filter_key[of "\<lambda>x. x \<noteq> k"])

lemma bt_get_retain [bt_simps]: "bt_get (bt_retain P m) k = (if P k then bt_get m k else None)"
  by (simp add: bt_get_def bt_retain_def map_of_filter_key)

lemma bt_wf_Nil [simp]: "bt_wf []"
  by (simp add: bt_wf_def)

lemma sorted_wrt_filter_map:
  "sorted_wrt (<) (map fst m) \<Longrightarrow> sorted_wrt (<) (map fst (filter P m))"
  by (induction m) auto

lemma bt_wf_filter [intro]: "bt_wf m \<Longrightarrow> bt_wf (filter P m)"
  by (simp add: bt_wf_def sorted_wrt_filter_map)

lemma bt_wf_insert [intro]: "bt_wf m \<Longrightarrow> bt_wf (bt_insert k v m)"
  by (auto simp: bt_wf_def bt_insert_def sorted_wrt_append sorted_wrt_filter_map
      intro: less_trans)

lemma bt_wf_remove [intro]: "bt_wf m \<Longrightarrow> bt_wf (bt_remove k m)"
  by (simp add: bt_remove_def bt_wf_filter)

lemma bt_wf_retain [intro]: "bt_wf m \<Longrightarrow> bt_wf (bt_retain P m)"
  by (simp add: bt_retain_def bt_wf_filter)

lemma bt_wf_distinct: "bt_wf m \<Longrightarrow> distinct (map fst m)"
  by (simp add: bt_wf_def strict_sorted_iff)

lemma bt_get_mem: "bt_wf m \<Longrightarrow> (k, v) \<in> set m \<longleftrightarrow> bt_get m k = Some v"
  by (simp add: bt_get_def bt_wf_distinct)

lemma bt_get_SomeD: "bt_get m k = Some v \<Longrightarrow> (k, v) \<in> set m"
  by (simp add: bt_get_def map_of_SomeD)

lemma bt_wf_snoc: "bt_wf m \<Longrightarrow> (\<And>e. e \<in> set m \<Longrightarrow> fst e < k) \<Longrightarrow> bt_insert k v m = m @ [(k, v)]"
  by (induction m) (auto simp: bt_insert_def bt_wf_def dest: less_not_sym)

lemma set_bt_insert: "bt_wf m \<Longrightarrow> set (bt_insert k v m) = insert (k, v) {e \<in> set m. fst e \<noteq> k}"
  by (auto simp: bt_insert_def)

lemma mset_bt_insert:
  assumes "bt_get m k = None"
  shows "mset (bt_insert k v m) = add_mset (k, v) (mset m)"
proof -
  have "k \<notin> fst ` set m" using assms by (simp add: bt_get_def map_of_eq_None_iff)
  then have "filter (\<lambda>e. k < fst e) m = filter (\<lambda>e. \<not> fst e < k) m"
    by (intro filter_cong) (auto simp: not_less le_less)
  then have "mset (filter (\<lambda>e. fst e < k) m) + mset (filter (\<lambda>e. k < fst e) m) = mset m"
    by (simp flip: multiset_partition)
  then show ?thesis by (simp add: bt_insert_def)
qed

lemma sum_list_bt_insert:
  fixes f :: "'k::linorder \<times> 'v \<Rightarrow> nat"
  assumes "bt_get m k = None"
  shows "sum_list (map f (bt_insert k v m)) = sum_list (map f m) + f (k, v)"
proof -
  have "mset (map f (bt_insert k v m)) = mset (f (k, v) # map f m)"
    using mset_bt_insert[OF assms] by simp
  then have "sum_list (map f (bt_insert k v m)) = sum_list (f (k, v) # map f m)"
    by (metis sum_mset_sum_list)
  then show ?thesis by simp
qed

lemma bt_wf_of [simp]: "bt_wf (bt_of es)"
  by (induction es) (auto intro: bt_wf_insert)

lemma bt_get_of: "bt_get (bt_of es) k = map_of es k"
  by (induction es) (auto simp: bt_simps)

lemma sorted_wrt_eq:
  fixes f :: "'a \<Rightarrow> 'b::order"
  assumes "set xs = set ys"
    and "sorted_wrt (\<lambda>a b. f a < f b) xs" "sorted_wrt (\<lambda>a b. f a < f b) ys"
  shows "xs = ys"
  using assms
proof (induction xs arbitrary: ys)
  case (Cons x xs)
  then obtain y zs where ys: "ys = y # zs" by (cases ys) auto
  have "x = y"
  proof (rule ccontr)
    assume "x \<noteq> y"
    with Cons.prems ys have "x \<in> set zs" "y \<in> set xs" by auto
    with Cons.prems ys have "f x < f y" "f y < f x" by auto
    then show False by (simp add: less_not_sym)
  qed
  moreover have "set xs = set zs"
  proof -
    have "x \<notin> set xs" "y \<notin> set zs" using Cons.prems ys by auto
    with Cons.prems(1) ys \<open>x = y\<close> show ?thesis by (metis insert_ident list.simps(15))
  qed
  ultimately show ?case using Cons ys by simp
qed simp

lemma distinct_map_sort_key [simp]: "distinct (map f (sort_key g xs)) \<longleftrightarrow> distinct (map f xs)"
  by (metis mset_eq_imp_distinct_iff mset_map mset_sort)

lemma sort_key_unique:
  assumes "mset ys = mset xs" and "sorted_wrt (<) (map f ys)"
  shows "ys = sort_key f xs"
proof (rule sorted_wrt_eq[where f=f])
  show "set ys = set (sort_key f xs)" using assms(1) by (metis set_mset_mset set_sort)
  have "distinct (map f (sort_key f xs))"
    using assms by (metis distinct_map_sort_key mset_eq_imp_distinct_iff mset_map strict_sorted_iff)
  then have "sorted_wrt (<) (map f (sort_key f xs))" by (simp add: strict_sorted_iff)
  then show "sorted_wrt (\<lambda>a b. f a < f b) (sort_key f xs)" by (simp add: sorted_wrt_map)
  show "sorted_wrt (\<lambda>a b. f a < f b) ys" using assms(2) by (simp add: sorted_wrt_map)
qed

lemma takeWhile_sorted:
  assumes "sorted_wrt (\<lambda>a b. f a < f b) xs" and "\<And>a b. f a < f b \<Longrightarrow> Q b \<Longrightarrow> Q a"
  shows "takeWhile Q xs = filter Q xs"
  using assms
proof (induction xs)
  case (Cons x xs)
  then have "\<not> Q x \<Longrightarrow> filter Q xs = []" by (force simp: filter_empty_conv)
  with Cons show ?case by auto
qed simp

lemma takeWhile_take: "takeWhile P (take n xs) = take n (takeWhile P xs)"
proof (induction xs arbitrary: n)
  case (Cons x xs)
  then show ?case by (cases n) auto
qed simp

lemma bt_eqI:
  assumes wf: "bt_wf m" "bt_wf n" and get: "\<And>k. bt_get m k = bt_get n k"
  shows "m = n"
proof -
  have sets: "set m = set n"
    using wf get by (auto simp: bt_get_mem)
  have "sorted_wrt (\<lambda>a b. fst a < fst b) m" "sorted_wrt (\<lambda>a b. fst a < fst b) n"
    using wf by (simp_all add: bt_wf_def sorted_wrt_map)
  with sets show ?thesis
    using sorted_wrt_eq[of m n] by blast
qed


section \<open>Strings\<close>

text \<open>
  A Rust string is the list of its bytes, one \<^typ>\<open>char\<close> each; comparison is lexicographic on
  bytes, as \<open>Ord for str\<close>. \<open>as_bytes\<close> reads it as numbers. \<open>dec\<close> is the decimal form that
  \<open>format!\<close> prints, \<open>hex\<close> the two lower-case digits per byte of \<open>{:02x}\<close>.
\<close>

definition as_bytes :: "string \<Rightarrow> bytes" where
  "as_bytes s = map of_char s"

definition starts_with :: "string \<Rightarrow> string \<Rightarrow> bool" where
  "starts_with s p = (take (length p) s = p)"

definition digit :: "nat \<Rightarrow> char" where
  "digit n = char_of (if n < 10 then 48 + n else 87 + n)"

fun dec :: "nat \<Rightarrow> string" where
  "dec n = (if n < 10 then [digit n] else dec (n div 10) @ [digit (n mod 10)])"

declare dec.simps [simp del]

text \<open>A number padded with zeros to a minimum width.\<close>

definition pad :: "nat \<Rightarrow> nat \<Rightarrow> string" where
  "pad w n = replicate (w - length (dec n)) CHR ''0'' @ dec n"

definition hex :: "bytes \<Rightarrow> string" where
  "hex bs = concat (map (\<lambda>b. [digit (unat b div 16), digit (unat b mod 16)]) bs)"

lemma unat_of_char: "unat (of_char c :: byte) = of_char c"
proof -
  have "(of_char c :: nat) mod 256 = of_char c" by (rule of_char_mod_256)
  then have "unat (of_nat (of_char c) :: byte) = of_char c"
    by (simp add: unsigned_of_nat take_bit_eq_mod)
  then show ?thesis by (simp only: of_nat_of_char)
qed

lemma inj_of_char_byte: "inj (of_char :: char \<Rightarrow> byte)"
  by (rule injI) (metis of_char_eqI unat_of_char)

lemma inj_as_bytes: "inj as_bytes"
  unfolding as_bytes_def by (rule injI) (simp add: inj_map_eq_map[OF inj_of_char_byte])

lemma as_bytes_simps [simp]:
  "as_bytes [] = []"
  "as_bytes (c # s) = of_char c # as_bytes s"
  "as_bytes (s @ t) = as_bytes s @ as_bytes t"
  "length (as_bytes s) = length s"
  by (simp_all add: as_bytes_def)

lemma as_bytes_eq_iff [simp]: "as_bytes s = as_bytes t \<longleftrightarrow> s = t"
  using inj_as_bytes by (simp add: inj_eq)

lemma of_char_digit: "n < 36 \<Longrightarrow> of_char (digit n) = (if n < 10 then 48 + n else 87 + n)"
  by (simp add: digit_def)

lemma digit_inj:
  assumes "m < 36" "n < 36"
  shows "digit m = digit n \<longleftrightarrow> m = n"
proof
  assume "digit m = digit n"
  then have "(of_char (digit m) :: nat) = of_char (digit n)" by simp
  with assms show "m = n" by (auto simp: of_char_digit split: if_splits)
qed simp

lemma dec_neq_Nil [simp]: "dec n \<noteq> []"
  by (simp add: dec.simps[of n])

lemma dec_length_1: "length (dec n) = Suc 0 \<longleftrightarrow> n < 10"
  by (simp add: dec.simps[of n])

lemma dec_inj_aux: "dec m = dec n \<Longrightarrow> m = n"
proof (induction m arbitrary: n rule: dec.induct)
  case (1 m)
  show ?case
  proof (cases "m < 10 \<or> n < 10")
    case True
    have "m < 10" "n < 10"
      using True arg_cong[OF 1(2), of length] by (simp_all add: dec_length_1[symmetric])
    with 1(2) show ?thesis by (simp add: dec.simps[of m] dec.simps[of n] digit_inj)
  next
    case False
    with 1(2) have "dec (m div 10) = dec (n div 10)" "digit (m mod 10) = digit (n mod 10)"
      by (simp_all add: dec.simps[of m] dec.simps[of n])
    with False 1(1) have "m div 10 = n div 10" "m mod 10 = n mod 10" by (simp_all add: digit_inj)
    then show ?thesis by (metis div_mult_mod_eq)
  qed
qed

lemma dec_inj [simp]: "dec m = dec n \<longleftrightarrow> m = n"
  using dec_inj_aux by blast

lemma append_sep_eq:
  "c \<notin> set x \<Longrightarrow> c \<notin> set y \<Longrightarrow> x @ c # r = y @ c # s \<longleftrightarrow> x = y \<and> r = s"
proof (induction x arbitrary: y)
  case Nil
  then show ?case by (cases y) auto
next
  case (Cons a x)
  then show ?case by (cases y) auto
qed

lemma dec_chars: "c \<in> set (dec n) \<Longrightarrow> 48 \<le> (of_char c :: nat) \<and> (of_char c :: nat) \<le> 57"
proof (induction n rule: dec.induct)
  case (1 n)
  have "of_char (digit m) = 48 + m" if "m < 10" for m
    using that of_char_digit[of m] by simp
  from this[of n] this[of "n mod 10"] 1 show ?case
    by (cases "n < 10") (auto simp: dec.simps[of n])
qed

lemma dec_no_char: "(of_char c :: nat) \<notin> {48..57} \<Longrightarrow> c \<notin> set (dec n)"
  using dec_chars by fastforce

lemma dec_no_colon: "CHR '':'' \<notin> set (dec n)"
  by (rule dec_no_char) simp

lemma hex_simps [simp]:
  "hex [] = []"
  "hex (b # bs) = digit (unat b div 16) # digit (unat b mod 16) # hex bs"
  by (simp_all add: hex_def)

lemma byte_div_mod: "unat (b :: byte) div 16 < 16" "unat (b :: byte) mod 16 < 16"
proof -
  have "unat b < 2 ^ 8" using unsigned_less[of b] by simp
  then show "unat b div 16 < 16" "unat b mod 16 < 16" by simp_all
qed

lemma hex_inj [simp]: "hex as = hex bs \<longleftrightarrow> as = bs"
proof
  show "hex as = hex bs \<Longrightarrow> as = bs"
  proof (induction as arbitrary: bs)
    case Nil
    then show ?case by (cases bs) auto
  next
    case (Cons a as)
    then obtain b bs' where bs: "bs = b # bs'" by (cases bs) auto
    have "digit (unat a div 16) = digit (unat b div 16)" "digit (unat a mod 16) = digit (unat b mod 16)"
      using Cons.prems bs by simp_all
    then have "unat a div 16 = unat b div 16" "unat a mod 16 = unat b mod 16"
      using byte_div_mod[of a] byte_div_mod[of b] by (simp_all add: digit_inj)
    then have "unat a = unat b" by (metis div_mult_mod_eq)
    then have "a = b" by (rule unsigned_word_eqI)
    with Cons bs show ?case by simp
  qed
qed simp

lemma length_hex [simp]: "length (hex bs) = 2 * length bs"
  by (induction bs) auto

lemma starts_with_Nil [simp]: "starts_with s []"
  by (simp add: starts_with_def)

lemma starts_with_iff: "starts_with s p \<longleftrightarrow> (\<exists>t. s = p @ t)"
proof
  show "starts_with s p \<Longrightarrow> \<exists>t. s = p @ t"
    unfolding starts_with_def by (metis append_take_drop_id)
qed (auto simp: starts_with_def)


text \<open>Reading a decimal number back.\<close>

definition is_ascii_digit :: "char \<Rightarrow> bool" where
  "is_ascii_digit c = (48 \<le> (of_char c :: nat) \<and> (of_char c :: nat) \<le> 57)"

definition parse_dec :: "string \<Rightarrow> nat" where
  "parse_dec s = foldl (\<lambda>a c. 10 * a + ((of_char c :: nat) - 48)) 0 s"

lemma parse_dec_snoc: "parse_dec (s @ [c]) = 10 * parse_dec s + ((of_char c :: nat) - 48)"
  by (simp add: parse_dec_def)

lemma parse_dec_dec [simp]: "parse_dec (dec n) = n"
proof (induction n rule: dec.induct)
  case (1 n)
  show ?case
  proof (cases "n < 10")
    case True
    then show ?thesis by (simp add: dec.simps[of n] parse_dec_def of_char_digit)
  next
    case False
    then have "parse_dec (dec n) = 10 * (n div 10) + n mod 10"
      using 1 by (simp add: dec.simps[of n] parse_dec_snoc of_char_digit)
    then show ?thesis by simp
  qed
qed

lemma parse_dec_pad [simp]: "parse_dec (pad w n) = n"
proof -
  have "foldl (\<lambda>a c. 10 * a + ((of_char c :: nat) - 48)) 0 (replicate k CHR ''0'') = 0" for k
    by (induction k) (simp_all add: replicate_app_Cons_same[symmetric] del: replicate_Suc, simp)
  then have "parse_dec (replicate k CHR ''0'' @ s) = parse_dec s" for k s by (simp add: parse_dec_def)
  then show ?thesis by (simp add: pad_def)
qed

lemma pad_inj [simp]: "pad w m = pad w n \<longleftrightarrow> m = n"
  by (metis parse_dec_pad)

lemma dec_digits: "list_all is_ascii_digit (dec n)"
  using dec_chars by (auto simp: list_all_iff is_ascii_digit_def)

lemma pad_digits: "list_all is_ascii_digit (pad w n)"
  using dec_digits[of n] by (auto simp: pad_def is_ascii_digit_def list_all_iff)

lemma length_dec: "0 < k \<Longrightarrow> n < 10 ^ k \<Longrightarrow> length (dec n) \<le> k"
proof (induction n arbitrary: k rule: dec.induct)
  case (1 n)
  show ?case
  proof (cases "n < 10")
    case True
    with 1 show ?thesis by (simp add: dec.simps[of n])
  next
    case False
    then obtain j where k: "k = Suc j" "0 < j" using 1(2,3) by (cases k; cases "k - 1") auto
    with 1(3) have "n div 10 < 10 ^ j" by (simp add: less_mult_imp_div_less mult.commute)
    with 1(1)[OF False k(2)] show ?thesis by (simp add: dec.simps[of n] k False)
  qed
qed

lemma length_pad: "0 < w \<Longrightarrow> n < 10 ^ w \<Longrightarrow> length (pad w n) = w"
  using length_dec[of w n] by (simp add: pad_def)

end
