(* ===== verification/Envelope.thy ===== *)
theory Envelope
  imports Prelude
begin

text \<open>
  The event envelope of \<open>eventlog-core\<close> (\<open>crates/eventlog-core/src/lib.rs\<close>): identities, new and
  recorded events, command metadata, effect evidence, the error type, and the checks every provider
  runs before it touches storage. Third-party functions (SHA-256, the JSON text of
  \<open>serde_json\<close>, UUIDs, the clock) are the fields of the record \<open>host\<close>, an argument of what uses them.
\<close>


section \<open>JSON values and host functions\<close>

text \<open>
  \<open>serde_json::Value\<close>. Objects are \<open>BTreeMap\<close>s (the crate's default), so entries are ascending in
  their key. A float is kept as its shortest text.
\<close>

datatype json_number = PosInt u64 | NegInt int | Float string

datatype json =
    JNull
  | JBool bool
  | JNumber json_number
  | JString string
  | JArray "json list"
  | JObject "(string \<times> json) list"

fun is_object :: "json \<Rightarrow> bool" where
  "is_object (JObject _) = True"
| "is_object _ = False"

fun json_get :: "json \<Rightarrow> string \<Rightarrow> json option" where
  "json_get (JObject m) k = bt_get m k"
| "json_get _ _ = None"

definition json_object :: "(string \<times> json) list \<Rightarrow> json" where
  "json_object es = JObject (bt_of es)"

type_synonym OffsetDateTime = int
type_synonym Uuid = string

record host =
  sha256 :: "bytes \<Rightarrow> bytes"
  json_text :: "json \<Rightarrow> string"
  time_json :: "OffsetDateTime \<Rightarrow> json"
  uuid_at :: "nat \<Rightarrow> Uuid"
  uuid_parse :: "string \<Rightarrow> Uuid option"
  now_at :: "nat \<Rightarrow> OffsetDateTime"


section \<open>Constants, identities and errors\<close>

definition MAX_FIELD_LEN :: nat where "MAX_FIELD_LEN = 512"
definition MAX_EVENTS_PER_APPEND :: nat where "MAX_EVENTS_PER_APPEND = 1024"
definition DEFAULT_READ_LIMIT :: nat where "DEFAULT_READ_LIMIT = 100"
definition MAX_READ_LIMIT :: nat where "MAX_READ_LIMIT = 1000"
definition MAX_CAUSATION_DEPTH :: u32 where "MAX_CAUSATION_DEPTH = 16"

type_synonym TenantId = string

record StreamId =
  sid_tenant :: TenantId
  sid_type :: string
  sid_id :: string

record BlobMigrationReport =
  upgraded :: bool
  trusted_legacy_rows :: u64

datatype EventLogError =
    Invalid string
  | GuardRefused string
  | Overloaded
  | Closed
  | Deadline string
  | UnknownCommit
  | BlobMigrationCommitUnknown
  | BlobMigrationCompleted BlobMigrationReport EventLogError
  | Conflict u64 u64
  | IdempotencyMismatch string
  | CausationDepthExceeded u32 u32
  | NotFound
  | Backend string
  | Forked string "string list"
  | Unsupported string

type_synonym 'a res = "EventLogError + 'a"

definition is_ascii_graphic :: "char \<Rightarrow> bool" where
  "is_ascii_graphic c = (33 \<le> (of_char c :: nat) \<and> (of_char c :: nat) \<le> 126)"

definition validate_field :: "string \<Rightarrow> string \<Rightarrow> unit res" where
  "validate_field what value =
     (if value = [] then Inl (Invalid (what @ '' is required''))
      else if length value > MAX_FIELD_LEN then Inl (Invalid (what @ '' is too long''))
      else if \<not> list_all (\<lambda>b. is_ascii_graphic b \<or> b = CHR '' '') value
        then Inl (Invalid (what @ '' carries bytes that cannot be stored and logged verbatim''))
      else Inr ())"

definition validate_identity :: "string \<Rightarrow> string \<Rightarrow> unit res" where
  "validate_identity what value =
     andthen (validate_field what value) (\<lambda>_.
       if CHR ''@'' \<in> set value \<or> CHR '' '' \<in> set value
       then Inl (Invalid (what @ '' must be an opaque id: an address or display name in an append-only log outlives every request to erase it''))
       else Inr ())"

definition TenantId_new :: "string \<Rightarrow> TenantId res" where
  "TenantId_new value = andthen (validate_field ''tenant'' value) (\<lambda>_. Inr value)"

definition StreamId_new :: "TenantId \<Rightarrow> string \<Rightarrow> string \<Rightarrow> StreamId res" where
  "StreamId_new tenant stream_type stream_id =
     andthen (validate_field ''stream type'' stream_type) (\<lambda>_.
     andthen (validate_field ''stream id'' stream_id) (\<lambda>_.
       Inr \<lparr>sid_tenant = tenant, sid_type = stream_type, sid_id = stream_id\<rparr>))"

definition bounded_limit :: "nat \<Rightarrow> nat" where
  "bounded_limit limit = max 1 (min limit MAX_READ_LIMIT)"


section \<open>Expectations and capabilities\<close>

type_synonym HeadSetDigest = bytes

datatype Expected = ExpAny | NoStream | Exact u64 | Merge HeadSetDigest

text \<open>\<open>Vec::dedup\<close> drops an element equal to the one kept before it.\<close>

fun dedup :: "'a list \<Rightarrow> 'a list" where
  "dedup [] = []"
| "dedup [x] = [x]"
| "dedup (x # y # zs) = (if x = y then dedup (x # zs) else x # dedup (y # zs))"

definition head_set_preimage :: "string list \<Rightarrow> string" where
  "head_set_preimage heads = concat (map (\<lambda>h. h @ [CHR 0x0A]) (dedup (sort heads)))"

definition HeadSetDigest_of :: "host \<Rightarrow> string list \<Rightarrow> HeadSetDigest" where
  "HeadSetDigest_of h heads = sha256 h (as_bytes (head_set_preimage heads))"

definition HeadSetDigest_to_hex :: "HeadSetDigest \<Rightarrow> string" where
  "HeadSetDigest_to_hex d = hex d"

record Capabilities =
  durable_positions :: bool
  claims :: bool
  forks :: bool

definition LINEAR :: Capabilities where
  "LINEAR = \<lparr>durable_positions = True, claims = True, forks = False\<rparr>"

definition BRANCHABLE :: Capabilities where
  "BRANCHABLE = \<lparr>durable_positions = False, claims = False, forks = True\<rparr>"


section \<open>Events, claims and command metadata\<close>

record NewEvent =
  ne_name :: string
  ne_schema_version :: u32
  ne_data :: json

definition NewEvent_validate :: "NewEvent \<Rightarrow> unit res" where
  "NewEvent_validate e =
     andthen (validate_field ''event name'' (ne_name e)) (\<lambda>_.
       if \<not> is_object (ne_data e) then Inl (Invalid ''an event body must be a JSON object'')
       else Inr ())"

definition NewEvent_new :: "string \<Rightarrow> u32 \<Rightarrow> json \<Rightarrow> NewEvent res" where
  "NewEvent_new name schema_version data =
     (let value = \<lparr>ne_name = name, ne_schema_version = schema_version, ne_data = data\<rparr>
      in andthen (NewEvent_validate value) (\<lambda>_. Inr value))"

record Claim =
  claim_scope :: string
  claim_key :: string
  claim_digest :: string

definition Claim_validate :: "Claim \<Rightarrow> unit res" where
  "Claim_validate c = checks
     [validate_field ''claim scope'' (claim_scope c),
      validate_field ''claim key'' (claim_key c),
      validate_field ''claim digest'' (claim_digest c)]"

definition Claim_new :: "string \<Rightarrow> string \<Rightarrow> string \<Rightarrow> Claim res" where
  "Claim_new scope key digest =
     (let value = \<lparr>claim_scope = scope, claim_key = key, claim_digest = digest\<rparr>
      in andthen (Claim_validate value) (\<lambda>_. Inr value))"

record ClaimedCommand =
  cc_stream :: StreamId
  cc_first_version :: u64
  cc_last_version :: u64

record CommandMeta =
  idempotency_key :: string
  request_hash :: string
  cm_subject :: string
  cm_actor :: string
  cm_request_id :: string
  cm_trace_id :: string
  cm_causation_id :: "string option"
  cm_causation_depth :: u32
  cm_occurred_at :: OffsetDateTime
  cm_claim :: "Claim option"

definition CommandMeta_validate :: "CommandMeta \<Rightarrow> unit res" where
  "CommandMeta_validate m = checks
     [validate_field ''idempotency key'' (idempotency_key m),
      validate_field ''request hash'' (request_hash m),
      validate_identity ''subject'' (cm_subject m),
      validate_identity ''actor'' (cm_actor m),
      validate_field ''request id'' (cm_request_id m),
      validate_field ''trace id'' (cm_trace_id m),
      case cm_causation_id m of Some c \<Rightarrow> validate_field ''causation id'' c | None \<Rightarrow> Inr (),
      case cm_claim m of Some c \<Rightarrow> Claim_validate c | None \<Rightarrow> Inr (),
      if cm_causation_depth m > MAX_CAUSATION_DEPTH
        then Inl (CausationDepthExceeded (cm_causation_depth m) MAX_CAUSATION_DEPTH)
        else Inr ()]"

record RecordedEvent =
  global_seq :: u64
  tenant :: TenantId
  stream_type :: string
  stream_id :: string
  version :: u64
  event_id :: string
  name :: string
  schema_version :: u32
  occurred_at :: OffsetDateTime
  recorded_at :: OffsetDateTime
  subject :: string
  actor :: string
  request_id :: string
  trace_id :: string
  causation_id :: "string option"
  causation_depth :: u32
  redacted_at :: "OffsetDateTime option"
  data :: json
  digest :: "string option"
  parents :: "string list"

definition caused_by :: "CommandMeta \<Rightarrow> RecordedEvent \<Rightarrow> CommandMeta" where
  "caused_by m cause = m\<lparr>idempotency_key := event_id cause,
     cm_causation_id := Some (event_id cause),
     cm_causation_depth := saturating_add (causation_depth cause) 1\<rparr>"

definition is_redacted :: "RecordedEvent \<Rightarrow> bool" where
  "is_redacted e = (redacted_at e \<noteq> None)"

definition event_stream :: "RecordedEvent \<Rightarrow> StreamId res" where
  "event_stream e = StreamId_new (tenant e) (stream_type e) (stream_id e)"

definition redaction_tombstone :: "string \<Rightarrow> json" where
  "redaction_tombstone reason =
     json_object [(''redacted'', JBool True), (''reason'', JString reason)]"

definition validate_append :: "NewEvent list \<Rightarrow> CommandMeta \<Rightarrow> unit res" where
  "validate_append events meta =
     (if events = [] then Inl (Invalid ''a command that decided nothing has nothing to append'')
      else if length events > MAX_EVENTS_PER_APPEND
        then Inl (Invalid (''a command may produce at most '' @ dec MAX_EVENTS_PER_APPEND @ '' events''))
      else andthen (checks (map NewEvent_validate events)) (\<lambda>_. CommandMeta_validate meta))"

text \<open>
  \<open>request_hash\<close> of a value that serialises to the bytes \<open>body\<close>; a value that does not is the
  error the serialiser gave.
\<close>

definition request_hash_of :: "host \<Rightarrow> string + bytes \<Rightarrow> string res" where
  "request_hash_of h body = (case body of
     Inl error \<Rightarrow> Inl (Invalid (''command is not serialisable: '' @ error))
   | Inr bytes \<Rightarrow> Inr (hex (sha256 h bytes)))"


section \<open>Results and pages\<close>

record AppendResult =
  first_version :: u64
  last_version :: u64
  ar_events :: "RecordedEvent list"
  deduplicated :: bool

datatype Read = ReadStream StreamId u64 nat | ReadBlob TenantId string

record StreamSlice =
  ss_events :: "RecordedEvent list"
  next_version :: u64
  end_of_stream :: bool

datatype ReadResult = StreamResult StreamSlice | BlobResult "bytes option"

record ProjectionPage =
  pp_rows :: "(string \<times> json) list"
  next_cursor :: "string option"

record FeedPage =
  fp_events :: "RecordedEvent list"
  next_position :: u64
  has_more :: bool

record Snapshot =
  snap_version :: u64
  state_schema_version :: u32
  snap_state :: json
  snap_recorded_at :: OffsetDateTime


section \<open>Effect evidence\<close>

datatype EffectStage = Attempted | Succeeded | Failed string | Refused string | Incomplete

definition closes_coverage_interval :: "EffectStage \<Rightarrow> bool" where
  "closes_coverage_interval s = (s \<noteq> Attempted)"

record EffectEvidence =
  attempt_id :: string
  operation :: string
  authority_ref :: string
  grant_ref :: "string option"
  retry_of :: "string option"
  downstream_audit_ref :: "string option"
  stage :: EffectStage

definition validate_opt_identity :: "string \<times> string option \<Rightarrow> unit res" where
  "validate_opt_identity p = (case snd p of Some v \<Rightarrow> validate_identity (fst p) v | None \<Rightarrow> Inr ())"

definition EffectEvidence_validate :: "EffectEvidence \<Rightarrow> unit res" where
  "EffectEvidence_validate e = checks
     ([validate_identity ''effect attempt id'' (attempt_id e),
       validate_identity ''effect operation'' (operation e),
       validate_identity ''effect authority reference'' (authority_ref e)]
      @ map validate_opt_identity
          [(''effect grant reference'', grant_ref e),
           (''effect retry reference'', retry_of e),
           (''downstream audit reference'', downstream_audit_ref e)]
      @ [case stage e of
           Failed code \<Rightarrow> validate_identity ''effect outcome code'' code
         | Refused code \<Rightarrow> validate_identity ''effect outcome code'' code
         | _ \<Rightarrow> Inr ()])"

record EffectBoundaryCoverage =
  boundary :: string
  records_attempt :: bool
  records_terminal :: bool
  records_incomplete :: bool

primrec inventory_loop :: "string set \<Rightarrow> EffectBoundaryCoverage list \<Rightarrow> unit res" where
  "inventory_loop names [] = Inr ()"
| "inventory_loop names (b # bs) =
     andthen (validate_identity ''effect boundary'' (boundary b)) (\<lambda>_.
       if boundary b \<in> names
         then Inl (Invalid (''effect boundary '' @ boundary b @ '' is declared more than once''))
       else if \<not> records_attempt b
         then Inl (Invalid (''effect boundary '' @ boundary b @ '' has no attempted evidence''))
       else if \<not> records_terminal b \<and> \<not> records_incomplete b
         then Inl (Invalid (''effect boundary '' @ boundary b @ '' has no terminal or incomplete evidence''))
       else inventory_loop (insert (boundary b) names) bs)"

definition validate_effect_boundary_inventory :: "EffectBoundaryCoverage list \<Rightarrow> unit res" where
  "validate_effect_boundary_inventory bs =
     (if bs = [] then Inl (Invalid ''effect boundary inventory is empty'')
      else inventory_loop {} bs)"


section \<open>What the checks accept\<close>

text \<open>The accepted values, described without the order or the messages of the checks.\<close>

definition field_ok :: "string \<Rightarrow> bool" where
  "field_ok v \<longleftrightarrow> length v \<in> {1..512} \<and> (\<forall>c \<in> set v. (of_char c :: nat) \<in> {32..126})"

definition identity_ok :: "string \<Rightarrow> bool" where
  "identity_ok v \<longleftrightarrow> field_ok v \<and> set v \<inter> {CHR '' '', CHR ''@''} = {}"

definition claim_ok :: "Claim \<Rightarrow> bool" where
  "claim_ok c \<longleftrightarrow> field_ok (claim_scope c) \<and> field_ok (claim_key c) \<and> field_ok (claim_digest c)"

definition meta_ok :: "CommandMeta \<Rightarrow> bool" where
  "meta_ok m \<longleftrightarrow>
     field_ok (idempotency_key m) \<and> field_ok (request_hash m) \<and>
     identity_ok (cm_subject m) \<and> identity_ok (cm_actor m) \<and>
     field_ok (cm_request_id m) \<and> field_ok (cm_trace_id m) \<and>
     pred_option field_ok (cm_causation_id m) \<and> pred_option claim_ok (cm_claim m) \<and>
     unat (cm_causation_depth m) \<le> 16"

lemma printable_iff: "is_ascii_graphic c \<or> c = CHR '' '' \<longleftrightarrow> (of_char c :: nat) \<in> {32..126}"
proof -
  have "c = CHR '' '' \<longleftrightarrow> (of_char c :: nat) = 32"
    using of_char_eq_iff[of c "CHR '' ''", where 'a=nat] by simp
  then show ?thesis by (auto simp: is_ascii_graphic_def)
qed

lemma validate_field_iff: "validate_field what v = Inr u \<longleftrightarrow> field_ok v"
proof -
  have "list_all (\<lambda>b. is_ascii_graphic b \<or> b = CHR '' '') v \<longleftrightarrow>
      (\<forall>c \<in> set v. (of_char c :: nat) \<in> {32..126})"
    unfolding list_all_iff printable_iff ..
  then show ?thesis
    by (cases v) (auto simp: validate_field_def field_ok_def MAX_FIELD_LEN_def)
qed

lemma validate_field_total:
  "validate_field what v = Inr () \<or> (\<exists>m. validate_field what v = Inl (Invalid m))"
  by (simp add: validate_field_def)

lemma validate_identity_iff: "validate_identity what v = Inr u \<longleftrightarrow> identity_ok v"
  by (auto simp: validate_identity_def andthen_Inr_iff validate_field_iff identity_ok_def
      split: if_splits)

lemma Claim_validate_iff: "Claim_validate c = Inr u \<longleftrightarrow> claim_ok c"
  by (simp add: Claim_validate_def checks_Inr_iff validate_field_iff claim_ok_def del: checks.simps)

lemma NewEvent_validate_iff:
  "NewEvent_validate e = Inr u \<longleftrightarrow> field_ok (ne_name e) \<and> is_object (ne_data e)"
  by (auto simp: NewEvent_validate_def andthen_Inr_iff validate_field_iff)

lemma CommandMeta_validate_iff: "CommandMeta_validate m = Inr u \<longleftrightarrow> meta_ok m"
proof -
  have "cm_causation_depth m \<le> MAX_CAUSATION_DEPTH \<longleftrightarrow> unat (cm_causation_depth m) \<le> 16"
    by (simp add: MAX_CAUSATION_DEPTH_def word_le_nat_alt)
  then show ?thesis
    by (auto simp: CommandMeta_validate_def checks_Inr_iff validate_field_iff validate_identity_iff
        Claim_validate_iff meta_ok_def not_less simp del: checks.simps split: option.splits)
qed

lemmas validate_iffs =
  validate_field_iff validate_identity_iff Claim_validate_iff NewEvent_validate_iff
  CommandMeta_validate_iff

lemma StreamId_new_iff:
  "StreamId_new t ty i = Inr s \<longleftrightarrow>
     field_ok ty \<and> field_ok i \<and> s = \<lparr>sid_tenant = t, sid_type = ty, sid_id = i\<rparr>"
  by (auto simp: StreamId_new_def andthen_Inr_iff validate_field_iff)

text \<open>
  C36. An append request passes the checks every provider runs first exactly when it holds between
  1 and 1024 events, every event has a printable name of 1 to 512 bytes and an object as its body,
  and its metadata holds printable keys, opaque subject and actor (no address, no display name), a
  well-formed claim if any, and a causation depth of at most 16.
\<close>

theorem validate_append_accepts:
  "validate_append events meta = Inr () \<longleftrightarrow>
     length events \<in> {1..1024} \<and>
     list_all (\<lambda>e. field_ok (ne_name e) \<and> is_object (ne_data e)) events \<and> meta_ok meta"
  by (cases events)
    (auto simp: validate_append_def MAX_EVENTS_PER_APPEND_def andthen_Inr_iff checks_Inr_iff
      validate_iffs list_all_iff simp del: checks.simps)


section \<open>Effect evidence and its inventory\<close>

definition stage_ok :: "EffectStage \<Rightarrow> bool" where
  "stage_ok s \<longleftrightarrow> (case s of Failed c \<Rightarrow> identity_ok c | Refused c \<Rightarrow> identity_ok c | _ \<Rightarrow> True)"

definition boundary_ok :: "EffectBoundaryCoverage \<Rightarrow> bool" where
  "boundary_ok b \<longleftrightarrow> identity_ok (boundary b) \<and> records_attempt b \<and>
     (records_terminal b \<or> records_incomplete b)"

lemma validate_opt_identity_iff: "validate_opt_identity p = Inr u \<longleftrightarrow> pred_option identity_ok (snd p)"
  by (auto simp: validate_opt_identity_def validate_identity_iff split: option.splits)

lemma EffectEvidence_validate_iff:
  "EffectEvidence_validate e = Inr () \<longleftrightarrow>
     list_all identity_ok [attempt_id e, operation e, authority_ref e] \<and>
     list_all (pred_option identity_ok) [grant_ref e, retry_of e, downstream_audit_ref e] \<and>
     stage_ok (stage e)"
  by (auto simp: EffectEvidence_validate_def checks_Inr_iff validate_identity_iff
      validate_opt_identity_iff stage_ok_def simp del: checks.simps split: EffectStage.splits)

lemma inventory_loop_iff:
  "inventory_loop names bs = Inr () \<longleftrightarrow>
     list_all boundary_ok bs \<and> distinct (map boundary bs) \<and> names \<inter> boundary ` set bs = {}"
  by (induction bs arbitrary: names)
    (auto simp: andthen_Inr_iff validate_identity_iff boundary_ok_def)

text \<open>
  C37. An effect-boundary inventory is accepted exactly when it is not empty, names no boundary
  twice, and every boundary has an opaque name, records the attempt, and records either a terminal
  outcome or an explicit incomplete one: no accepted inventory can omit an attempt or an outcome.
\<close>

theorem effect_inventory_accepts:
  "validate_effect_boundary_inventory bs = Inr () \<longleftrightarrow>
     bs \<noteq> [] \<and> distinct (map boundary bs) \<and> list_all boundary_ok bs"
  by (auto simp: validate_effect_boundary_inventory_def inventory_loop_iff)


section \<open>Head sets\<close>

lemma set_dedup [simp]: "set (dedup xs) = set xs"
  by (induction xs rule: dedup.induct) auto

lemma hd_dedup: "xs \<noteq> [] \<Longrightarrow> hd (dedup xs) = hd xs"
  by (induction xs rule: dedup.induct) auto

lemma strict_sorted_dedup: "sorted xs \<Longrightarrow> sorted_wrt (<) (dedup xs)"
  for xs :: "'a::linorder list"
  by (induction xs rule: dedup.induct) (auto simp: less_le)

lemma dedup_sort_eq_iff: "dedup (sort xs) = dedup (sort ys) \<longleftrightarrow> set xs = set ys"
  for xs ys :: "'a::linorder list"
proof
  assume "set xs = set ys"
  then show "dedup (sort xs) = dedup (sort ys)"
    using strict_sorted_dedup[of "sort xs"] strict_sorted_dedup[of "sort ys"]
    by (simp add: strict_sorted_equal)
next
  assume "dedup (sort xs) = dedup (sort ys)"
  then have "set (dedup (sort xs)) = set (dedup (sort ys))" by simp
  then show "set xs = set ys" by simp
qed

text \<open>Newline-terminated records split in one way only.\<close>

lemma terminated_inj:
  assumes "\<forall>x \<in> set xs. c \<notin> set x" and "\<forall>y \<in> set ys. c \<notin> set y"
    and "concat (map (\<lambda>x. x @ [c]) xs) = concat (map (\<lambda>x. x @ [c]) ys)"
  shows "xs = ys"
  using assms
proof (induction xs arbitrary: ys)
  case Nil
  then show ?case by (cases ys) auto
next
  case (Cons x xs)
  then obtain y zs where ys: "ys = y # zs" by (cases ys) auto
  have eq: "x @ c # concat (map (\<lambda>x. x @ [c]) xs) = y @ c # concat (map (\<lambda>x. x @ [c]) zs)"
    using Cons.prems(3) ys by simp
  moreover have "c \<notin> set x" "c \<notin> set y" using Cons.prems ys by auto
  ultimately have "x = y" and rest: "concat (map (\<lambda>x. x @ [c]) xs) = concat (map (\<lambda>x. x @ [c]) zs)"
    by (simp_all add: append_sep_eq)
  from rest have "xs = zs"
    by (rule Cons.IH[rotated 2]) (use Cons.prems(1,2) ys in auto)
  with \<open>x = y\<close> ys show ?case by simp
qed

text \<open>
  C38. The digest in \<open>Expected::Merge\<close> names the set of heads. Writers that saw the same heads
  compute the same digest whatever order or repetition they read them in, and a writer that missed a
  head computes a different one, given that SHA-256 does not collide on the two head lists and that a
  head (a hexadecimal digest) holds no newline.
\<close>

theorem head_set_digest_names_set:
  assumes "\<forall>x \<in> set xs \<union> set ys. CHR 0x0A \<notin> set x"
    and "sha256 h (as_bytes (head_set_preimage xs)) = sha256 h (as_bytes (head_set_preimage ys)) \<Longrightarrow>
      head_set_preimage xs = head_set_preimage ys"
  shows "HeadSetDigest_of h xs = HeadSetDigest_of h ys \<longleftrightarrow> set xs = set ys"
proof
  assume "HeadSetDigest_of h xs = HeadSetDigest_of h ys"
  then have "head_set_preimage xs = head_set_preimage ys"
    using assms(2) by (simp add: HeadSetDigest_of_def)
  then have "dedup (sort xs) = dedup (sort ys)"
    unfolding head_set_preimage_def by (rule terminated_inj[rotated 2]) (use assms(1) in auto)
  then show "set xs = set ys" by (simp add: dedup_sort_eq_iff)
next
  assume "set xs = set ys"
  then have "dedup (sort xs) = dedup (sort ys)" by (simp add: dedup_sort_eq_iff)
  then show "HeadSetDigest_of h xs = HeadSetDigest_of h ys"
    by (simp add: HeadSetDigest_of_def head_set_preimage_def)
qed

text \<open>A concrete host: a digest of 32 bytes, a length-delimited printer and counting ids and times.\<close>

fun sample_json_text :: "json \<Rightarrow> string" where
  "sample_json_text (JString s) = dec (length s) @ '':'' @ s"
| "sample_json_text (JArray xs) = ''['' @ concat (map sample_json_text xs) @ '']''"
| "sample_json_text (JObject m) =
     ''{'' @ concat (map (\<lambda>(k, v). dec (length k) @ '':'' @ k @ sample_json_text v) m) @ ''}''"
| "sample_json_text (JNumber (PosInt n)) = dec (unat n)"
| "sample_json_text _ = ''?''"

definition sample_sha :: "bytes \<Rightarrow> bytes" where
  "sample_sha b = take 32 (b @ replicate 32 0)"

definition sample_uuid :: "nat \<Rightarrow> Uuid" where
  "sample_uuid n = ''00000000-0000-4000-8000-'' @ pad 12 (n mod 1000)"

definition sample_host :: host where
  "sample_host = \<lparr>sha256 = sample_sha, json_text = sample_json_text, time_json = (\<lambda>t. JNumber (NegInt t)),
     uuid_at = sample_uuid, uuid_parse = Some, now_at = int\<rparr>"

lemma sample_ids: "inj_on (uuid_at sample_host) {..<n}" if "n \<le> 1000"
proof (rule inj_onI)
  fix i j
  assume ij: "i \<in> {..<n}" "j \<in> {..<n}" "uuid_at sample_host i = uuid_at sample_host j"
  then have "pad 12 (i mod 1000) = pad 12 (j mod 1000)" by (simp add: sample_host_def sample_uuid_def)
  then have "i mod 1000 = j mod 1000" by simp
  then show "i = j" using ij that by simp
qed

lemma sample_heads: "head_set_preimage [''b'', ''a''] = head_set_preimage [''a'', ''b'', ''a'']"
  by code_simp

theorem head_set_digest_names_set_witness:
  "HeadSetDigest_of sample_host [''b'', ''a''] = HeadSetDigest_of sample_host [''a'', ''b'', ''a'']"
  using head_set_digest_names_set[of "[''b'', ''a'']" "[''a'', ''b'', ''a'']" sample_host] sample_heads
  by auto

end
