(* ===== verification/Admission.thy ===== *)
theory Admission
  imports Envelope
begin

text \<open>
  Admission coordinates and reservations (\<open>crates/eventlog-core/src/admission.rs\<close>). A permit is the
  identity of its allocation. The coordinate of a scope is the length-delimited string under which
  its durable counter is kept; a batch of reservations is ordered by coordinate.
\<close>

type_synonym AdmissionPermit = nat

definition same_authority :: "AdmissionPermit \<Rightarrow> AdmissionPermit \<Rightarrow> bool" where
  "same_authority a b = (a = b)"

datatype AdmissionScope = TenantScope TenantId string | DeploymentScope string

definition encode_part :: "string \<Rightarrow> string" where
  "encode_part value = dec (length value) @ '':'' @ value"

fun coordinate :: "AdmissionScope \<Rightarrow> string res" where
  "coordinate (TenantScope t key) =
     andthen (validate_field ''admission key'' key) (\<lambda>_. Inr (''t'' @ encode_part t @ encode_part key))"
| "coordinate (DeploymentScope key) =
     andthen (validate_field ''admission key'' key) (\<lambda>_. Inr (''d'' @ encode_part key))"

fun belongs_to :: "AdmissionScope \<Rightarrow> TenantId \<Rightarrow> bool" where
  "belongs_to (TenantScope scoped _) t = (scoped = t)"
| "belongs_to (DeploymentScope _) t = True"

record Reservation =
  scope :: AdmissionScope
  delta :: int
  ceiling :: int

primrec coordinates :: "TenantId \<Rightarrow> Reservation list \<Rightarrow> (string \<times> Reservation) list res" where
  "coordinates t [] = Inr []"
| "coordinates t (r # rs) =
     (if \<not> belongs_to (scope r) t \<or> ceiling r < 0
      then Inl (Invalid ''invalid or cross-tenant admission scope'')
      else andthen (coordinate (scope r)) (\<lambda>c.
           andthen (coordinates t rs) (\<lambda>out. Inr ((c, r) # out))))"

fun adjacent_equal :: "'a list \<Rightarrow> bool" where
  "adjacent_equal (x # y # zs) = (x = y \<or> adjacent_equal (y # zs))"
| "adjacent_equal _ = False"

definition ordered_reservations ::
  "Reservation list \<Rightarrow> TenantId \<Rightarrow> (string \<times> Reservation) list res" where
  "ordered_reservations reservations t =
     (if reservations = [] \<or> length reservations > 64
      then Inl (Invalid ''admission requires 1..64 scopes'')
      else andthen (coordinates t reservations) (\<lambda>ordered.
        let ordered = sort_key fst ordered in
        if adjacent_equal (map fst ordered) then Inl (Invalid ''duplicate admission scope'')
        else Inr ordered))"


section \<open>Coordinates\<close>

lemma encode_part_prefix_inj:
  "encode_part v @ r = encode_part w @ s \<longleftrightarrow> v = w \<and> r = s"
proof
  assume "encode_part v @ r = encode_part w @ s"
  then have "dec (length v) @ CHR '':'' # (v @ r) = dec (length w) @ CHR '':'' # (w @ s)"
    by (simp add: encode_part_def)
  then have "length v = length w" "v @ r = w @ s"
    by (simp_all add: append_sep_eq dec_no_colon)
  then show "v = w \<and> r = s" by simp
qed simp

lemma encode_part_inj: "encode_part v = encode_part w \<longleftrightarrow> v = w"
  using encode_part_prefix_inj[of v "[]" w "[]"] by simp

text \<open>
  C27. Two admission scopes never share a durable counter: the length-delimited coordinate is
  injective over both kinds of scope, whatever separators, digits or prefixes the tenant and key hold.
\<close>

theorem coordinate_injective:
  assumes "coordinate a = Inr c" and "coordinate b = Inr c"
  shows "a = b"
  using assms
  by (cases a; cases b)
    (auto simp: andthen_Inr_iff encode_part_inj encode_part_prefix_inj)

theorem coordinate_injective_witness:
  "TenantScope (''a'' @ '':1'') ''b'' = TenantScope ''a:1'' ''b''"
  by (rule coordinate_injective[where c = "''t3:a:11:b''"]) code_simp+


section \<open>Reservation batches\<close>

definition reservation_ok :: "TenantId \<Rightarrow> Reservation \<Rightarrow> bool" where
  "reservation_ok t r \<longleftrightarrow> belongs_to (scope r) t \<and> 0 \<le> ceiling r \<and> is_ok (coordinate (scope r))"

definition coordinate_of :: "AdmissionScope \<Rightarrow> string" where
  "coordinate_of s = (case coordinate s of Inr c \<Rightarrow> c | Inl _ \<Rightarrow> [])"

lemma coordinate_of_eq: "is_ok (coordinate s) \<longleftrightarrow> coordinate s = Inr (coordinate_of s)"
  by (auto simp: coordinate_of_def split: sum.splits)

lemma coordinates_iff:
  "coordinates t rs = Inr out \<longleftrightarrow>
     list_all (reservation_ok t) rs \<and> out = map (\<lambda>r. (coordinate_of (scope r), r)) rs"
proof (induction rs arbitrary: out)
  case (Cons r rs)
  show ?case
    by (cases "coordinate (scope r)")
      (auto simp: andthen_Inr_iff Cons.IH reservation_ok_def coordinate_of_def)
qed auto

lemma coordinate_of_inj:
  "is_ok (coordinate a) \<Longrightarrow> is_ok (coordinate b) \<Longrightarrow> coordinate_of a = coordinate_of b \<longleftrightarrow> a = b"
  by (cases a; cases b)
    (auto simp: coordinate_of_def andthen_def encode_part_inj encode_part_prefix_inj
      split: sum.splits)

lemma adjacent_equal_sorted: "sorted xs \<Longrightarrow> adjacent_equal xs \<longleftrightarrow> \<not> distinct xs"
  by (induction xs rule: adjacent_equal.induct) (auto simp: order_antisym)

lemma distinct_coordinates:
  assumes "list_all (reservation_ok t) rs"
  shows "distinct (map (\<lambda>r. coordinate_of (scope r)) rs) \<longleftrightarrow> distinct (map scope rs)"
  using assms
  by (induction rs) (auto simp: reservation_ok_def coordinate_of_inj list_all_iff image_iff)

lemma tagged_sort_iff:
  assumes "length rs \<in> {1..64} \<and> list_all (reservation_ok t) rs \<and> distinct (map scope rs)"
  shows "out = sort_key fst (map (\<lambda>r. (coordinate_of (scope r), r)) rs) \<longleftrightarrow>
     sorted_wrt (<) (map fst out) \<and> mset (map snd out) = mset rs \<and>
     list_all (\<lambda>(c, r). coordinate (scope r) = Inr c) out"
  (is "?L \<longleftrightarrow> ?R")
proof
  let ?tag = "\<lambda>r. (coordinate_of (scope r), r)"
  have dist: "distinct (map fst (map ?tag rs))"
    using assms distinct_coordinates[of t rs] by (simp add: comp_def)
  assume ?L
  then have "sorted (map fst out)" "distinct (map fst out)" "mset out = mset (map ?tag rs)"
    using dist by simp_all
  moreover from this have "mset (map snd out) = mset rs"
    by (metis (no_types, lifting) comp_apply list.map_comp list.map_ident_strong mset_map snd_conv)
  moreover have "list_all (\<lambda>(c, r). coordinate (scope r) = Inr c) out"
    using assms \<open>?L\<close> by (auto simp: list_all_iff reservation_ok_def coordinate_of_eq)
  ultimately show ?R by (simp add: strict_sorted_iff)
next
  let ?tag = "\<lambda>r. (coordinate_of (scope r), r)"
  assume R: ?R
  then have "list_all (\<lambda>(c, r). coordinate (scope r) = Inr c) out" by simp
  then have "out = map ?tag (map snd out)"
    by (induction out) (auto simp: coordinate_of_def)
  then have "mset out = mset (map ?tag rs)"
    using R by (metis mset_map)
  with R show ?L by (intro sort_key_unique) auto
qed

lemma ordered_reservations_Inr:
  "ordered_reservations rs t = Inr out \<longleftrightarrow>
     length rs \<in> {1..64} \<and> list_all (reservation_ok t) rs \<and> distinct (map scope rs) \<and>
     sorted_wrt (<) (map fst out) \<and> mset (map snd out) = mset rs \<and>
     list_all (\<lambda>(c, r). coordinate (scope r) = Inr c) out"
  (is "?L \<longleftrightarrow> ?R")
proof -
  let ?tag = "map (\<lambda>r. (coordinate_of (scope r), r))"
  let ?ok = "length rs \<in> {1..64} \<and> list_all (reservation_ok t) rs \<and> distinct (map scope rs)"
  have ord: "?L \<longleftrightarrow> ?ok \<and> out = sort_key fst (?tag rs)"
  proof -
    have "rs \<noteq> [] \<and> \<not> length rs > 64 \<longleftrightarrow> length rs \<in> {1..64}" by (cases rs) auto
    then show ?thesis
      using distinct_coordinates[of t rs]
      by (auto simp: ordered_reservations_def andthen_Inr_iff coordinates_iff
          adjacent_equal_sorted comp_def Let_def simp del: coordinates.simps)
  qed
  have "?ok \<Longrightarrow> out = sort_key fst (?tag rs) \<longleftrightarrow> sorted_wrt (<) (map fst out) \<and>
      mset (map snd out) = mset rs \<and> list_all (\<lambda>(c, r). coordinate (scope r) = Inr c) out"
    by (rule tagged_sort_iff)
  with ord show ?thesis by blast
qed

text \<open>
  C28. A reservation batch is accepted exactly when it names 1 to 64 scopes, no scope twice, each a
  deployment scope or one of the append's own tenant, with a usable key and a ceiling that is not
  negative. What is returned is then the same reservations, each with its own coordinate, in strictly
  ascending coordinate order, so every transaction takes its counters in one order.
\<close>

theorem ordered_reservations_accepts:
  "ordered_reservations rs t = Inr out \<longleftrightarrow>
     length rs \<in> {1..64} \<and> list_all (reservation_ok t) rs \<and> distinct (map scope rs) \<and>
     sorted_wrt (<) (map fst out) \<and> mset (map snd out) = mset rs \<and>
     list_all (\<lambda>(c, r). coordinate (scope r) = Inr c) out"
  by (rule ordered_reservations_Inr)

end
