(* ===== verification/AppendGroups.thy ===== *)
theory AppendGroups
  imports Envelope
begin

text \<open>
  Atomic append groups and their fingerprints (\<open>crates/eventlog-core/src/atomic_group.rs\<close> and
  \<open>atomic_blob.rs\<close>). A fingerprint is the SHA-256 of a JSON document that holds the whole request.
\<close>

record StreamAppend =
  sa_stream :: StreamId
  sa_expected :: Expected
  sa_events :: "NewEvent list"

record AppendGroup =
  ag_tenant :: TenantId
  ag_appends :: "StreamAppend list"
  ag_meta :: CommandMeta

record AppendGroupResult =
  agr_appends :: "AppendResult list"
  agr_deduplicated :: bool

record GroupRange =
  gr_stream :: StreamId
  gr_first :: u64
  gr_last :: u64

definition UNAVAILABLE :: string where
  "UNAVAILABLE = ''guarded blob-bearing append groups are unavailable''"


section \<open>The documents that are hashed\<close>

text \<open>The serialised form of a stream id, a new event, an expectation and an option.\<close>

definition stream_json :: "StreamId \<Rightarrow> json" where
  "stream_json s = json_object
     [(''tenant'', JString (sid_tenant s)), (''stream_type'', JString (sid_type s)),
      (''stream_id'', JString (sid_id s))]"

definition new_event_json :: "NewEvent \<Rightarrow> json" where
  "new_event_json e = json_object
     [(''name'', JString (ne_name e)), (''schema_version'', JNumber (PosInt (ucast (ne_schema_version e)))),
      (''data'', ne_data e)]"

fun expected_json :: "Expected \<Rightarrow> json" where
  "expected_json ExpAny = JArray [JString ''any'']"
| "expected_json NoStream = JArray [JString ''no-stream'']"
| "expected_json (Exact v) = JArray [JString ''exact'', JNumber (PosInt v)]"
| "expected_json (Merge heads) = JArray [JString ''merge'', JString (HeadSetDigest_to_hex heads)]"

definition opt_string_json :: "string option \<Rightarrow> json" where
  "opt_string_json x = (case x of None \<Rightarrow> JNull | Some s \<Rightarrow> JString s)"

definition entry_json :: "StreamAppend \<Rightarrow> json" where
  "entry_json a = json_object
     [(''stream'', stream_json (sa_stream a)), (''expected'', expected_json (sa_expected a)),
      (''events'', JArray (map new_event_json (sa_events a)))]"

definition meta_json :: "host \<Rightarrow> CommandMeta \<Rightarrow> json" where
  "meta_json h m = json_object
     [(''key'', JString (idempotency_key m)), (''digest'', JString (request_hash m)),
      (''subject'', JString (cm_subject m)), (''actor'', JString (cm_actor m)),
      (''request_id'', JString (cm_request_id m)), (''trace_id'', JString (cm_trace_id m)),
      (''causation_id'', opt_string_json (cm_causation_id m)),
      (''causation_depth'', JNumber (PosInt (ucast (cm_causation_depth m)))),
      (''occurred_at'', time_json h (cm_occurred_at m))]"

definition group_json :: "host \<Rightarrow> AppendGroup \<Rightarrow> json" where
  "group_json h g = json_object
     [(''format'', JString ''eventlog-append-group/1''), (''tenant'', JString (ag_tenant g)),
      (''entries'', JArray (map entry_json (ag_appends g))), (''meta'', meta_json h (ag_meta g))]"

definition check_entry :: "AppendGroup \<Rightarrow> StreamAppend \<Rightarrow> unit res" where
  "check_entry g a =
     (if sid_tenant (sa_stream a) \<noteq> ag_tenant g then Inl (Invalid ''append group crosses tenants'')
      else validate_append (sa_events a) (ag_meta g))"

definition group_fingerprint :: "host \<Rightarrow> AppendGroup \<Rightarrow> string res" where
  "group_fingerprint h g =
     andthen (CommandMeta_validate (ag_meta g)) (\<lambda>_.
       if ag_appends g = [] then Inl (Invalid ''an append group must contain entries'')
       else if cm_claim (ag_meta g) \<noteq> None then Inl (Invalid ''stream claims cannot name an append group'')
       else andthen (checks (map (check_entry g) (ag_appends g))) (\<lambda>_.
            request_hash_of h (Inr (as_bytes (json_text h (group_json h g))))))"


section \<open>Groups that carry content\<close>

record BlobWrite =
  bw_digest :: string
  bw_bytes :: bytes

record BlobAppendGroup =
  bag_group :: AppendGroup
  bag_blobs :: "BlobWrite list"

primrec order_writes ::
  "(string, bytes) btree \<Rightarrow> BlobWrite list \<Rightarrow> (string, bytes) btree res" where
  "order_writes m [] = Inr m"
| "order_writes m (b # bs) =
     andthen (validate_field ''blob digest'' (bw_digest b)) (\<lambda>_.
       if bt_get m (bw_digest b) \<noteq> None then Inl (Invalid ''duplicate blob digest in atomic group'')
       else order_writes (bt_insert (bw_digest b) (bw_bytes b) m) bs)"

definition blob_json :: "host \<Rightarrow> string \<times> bytes \<Rightarrow> json res" where
  "blob_json h e =
     (if length (snd e) \<ge> 2 ^ 64 then Inl (Invalid ''blob length exceeds u64'')
      else Inr (json_object
        [(''digest'', JString (fst e)), (''byte_count'', JNumber (PosInt (of_nat (length (snd e))))),
         (''content_sha256'', JString (hex (sha256 h (snd e))))]))"

definition blob_group_json :: "string \<Rightarrow> json list \<Rightarrow> json" where
  "blob_group_json group_fp blobs = json_object
     [(''format'', JString ''eventlog-blob-append-group/1''), (''group_fingerprint'', JString group_fp),
      (''blobs'', JArray blobs)]"

definition fingerprint_and_hashes ::
  "host \<Rightarrow> BlobAppendGroup \<Rightarrow> (string \<times> (string, string) btree) res" where
  "fingerprint_and_hashes h r =
     andthen (group_fingerprint h (bag_group r)) (\<lambda>group_fp.
       if bag_blobs r = [] then Inl (Invalid ''an atomic blob group must contain blobs'')
       else andthen (order_writes [] (bag_blobs r)) (\<lambda>ordered.
            andthen (collect (map (blob_json h) ordered)) (\<lambda>blobs.
            andthen (request_hash_of h (Inr (as_bytes (json_text h (blob_group_json group_fp blobs))))) (\<lambda>fp.
              Inr (fp, bt_of (map (\<lambda>(d, b). (d, hex (sha256 h b))) ordered))))))"

definition blob_group_fingerprint :: "host \<Rightarrow> BlobAppendGroup \<Rightarrow> string res" where
  "blob_group_fingerprint h r = andthen (fingerprint_and_hashes h r) (\<lambda>p. Inr (fst p))"


section \<open>The documents determine the request\<close>

lemma json_object_eqD: "json_object es = json_object es' \<Longrightarrow> map_of es k = map_of es' k"
  by (metis bt_get_of json.inject(5) json_object_def)

lemma ucast_u32_inj [simp]: "(ucast a :: u64) = ucast b \<longleftrightarrow> a = b" for a b :: u32
proof -
  have "unat (ucast x :: u64) = unat x" for x :: u32
  proof -
    have "unat x < 2 ^ 32" using unsigned_less[of x] by simp
    then show ?thesis by (simp add: unsigned_ucast_eq take_bit_eq_mod)
  qed
  then show ?thesis by (metis unsigned_word_eqI)
qed

lemma stream_json_inj [simp]: "stream_json s = stream_json t \<longleftrightarrow> s = t"
proof
  assume "stream_json s = stream_json t"
  note eq = json_object_eqD[OF this[unfolded stream_json_def]]
  show "s = t"
    using eq[of "''tenant''"] eq[of "''stream_type''"] eq[of "''stream_id''"]
    by (intro StreamId.equality) auto
qed simp

lemma new_event_json_inj [simp]: "new_event_json d = new_event_json e \<longleftrightarrow> d = e"
proof
  assume "new_event_json d = new_event_json e"
  note eq = json_object_eqD[OF this[unfolded new_event_json_def]]
  show "d = e"
    using eq[of "''name''"] eq[of "''schema_version''"] eq[of "''data''"]
    by (intro NewEvent.equality) auto
qed simp

lemma expected_json_inj [simp]: "expected_json a = expected_json b \<longleftrightarrow> a = b"
  by (cases a; cases b) (auto simp: HeadSetDigest_to_hex_def)

lemma opt_string_json_inj [simp]: "opt_string_json x = opt_string_json y \<longleftrightarrow> x = y"
  by (auto simp: opt_string_json_def split: option.splits)

lemma entry_json_inj [simp]: "entry_json a = entry_json b \<longleftrightarrow> a = b"
proof
  assume "entry_json a = entry_json b"
  note eq = json_object_eqD[OF this[unfolded entry_json_def]]
  have "map new_event_json (sa_events a) = map new_event_json (sa_events b)"
    using eq[of "''events''"] by simp
  then have "sa_events a = sa_events b"
    by (simp add: inj_map_eq_map inj_def)
  then show "a = b"
    using eq[of "''stream''"] eq[of "''expected''"] by (intro StreamAppend.equality) auto
qed simp

lemma meta_json_inj:
  assumes time: "inj (time_json h)" and claims: "cm_claim m = cm_claim n"
    and "meta_json h m = meta_json h n"
  shows "m = n"
proof -
  note eq = json_object_eqD[OF assms(3)[unfolded meta_json_def]]
  have "cm_occurred_at m = cm_occurred_at n"
    using eq[of "''occurred_at''"] injD[OF time] by simp
  then show ?thesis
    using claims eq[of "''key''"] eq[of "''digest''"] eq[of "''subject''"] eq[of "''actor''"]
      eq[of "''request_id''"] eq[of "''trace_id''"] eq[of "''causation_id''"]
      eq[of "''causation_depth''"]
    by (intro CommandMeta.equality) simp_all
qed

lemma group_json_inj:
  assumes "inj (time_json h)" and "cm_claim (ag_meta g) = cm_claim (ag_meta g')"
    and "group_json h g = group_json h g'"
  shows "g = g'"
proof -
  note eq = json_object_eqD[OF assms(3)[unfolded group_json_def]]
  have "map entry_json (ag_appends g) = map entry_json (ag_appends g')"
    using eq[of "''entries''"] by simp
  then have "ag_appends g = ag_appends g'"
    by (simp add: inj_map_eq_map inj_def)
  moreover have "ag_meta g = ag_meta g'"
    using eq[of "''meta''"] by (intro meta_json_inj[OF assms(1,2)]) simp
  ultimately show ?thesis
    using eq[of "''tenant''"] by (intro AppendGroup.equality) auto
qed

lemma group_fingerprint_Inr:
  "group_fingerprint h g = Inr f \<longleftrightarrow>
     meta_ok (ag_meta g) \<and> ag_appends g \<noteq> [] \<and> cm_claim (ag_meta g) = None \<and>
     checks (map (check_entry g) (ag_appends g)) = Inr () \<and>
     f = hex (sha256 h (as_bytes (json_text h (group_json h g))))"
  by (auto simp: group_fingerprint_def andthen_Inr_iff validate_iffs request_hash_of_def
      simp del: checks.simps)

text \<open>
  C26. A group fingerprint identifies the whole request: two accepted groups with the same fingerprint
  are the same tenant, the same ordered entries (streams, expectations and full event bodies) and
  the same command metadata, whatever request hash the callers claimed, given that SHA-256 and the
  JSON printer do not map these two requests to one value and that timestamps print injectively.
\<close>

theorem group_fingerprint_identifies:
  assumes "group_fingerprint h g = Inr f" and "group_fingerprint h g' = Inr f"
    and "inj (time_json h)"
    and "json_text h (group_json h g) = json_text h (group_json h g') \<Longrightarrow>
      group_json h g = group_json h g'"
    and "sha256 h (as_bytes (json_text h (group_json h g))) =
        sha256 h (as_bytes (json_text h (group_json h g'))) \<Longrightarrow>
      as_bytes (json_text h (group_json h g)) = as_bytes (json_text h (group_json h g'))"
  shows "g = g'"
proof -
  have "group_json h g = group_json h g'"
    using assms(1,2,4,5) by (simp add: group_fingerprint_Inr)
  moreover have "cm_claim (ag_meta g) = cm_claim (ag_meta g')"
    using assms(1,2) by (simp add: group_fingerprint_Inr)
  ultimately show ?thesis using assms(3) by (intro group_json_inj)
qed

definition sample_meta :: CommandMeta where
  "sample_meta = \<lparr>idempotency_key = ''k1'', request_hash = ''h1'', cm_subject = ''u1'', cm_actor = ''a1'',
     cm_request_id = ''r1'', cm_trace_id = ''t1'', cm_causation_id = None, cm_causation_depth = 0,
     cm_occurred_at = 7, cm_claim = None\<rparr>"

definition sample_stream :: StreamId where
  "sample_stream = \<lparr>sid_tenant = ''acme'', sid_type = ''order'', sid_id = ''1''\<rparr>"

definition sample_event :: NewEvent where
  "sample_event = \<lparr>ne_name = ''placed'', ne_schema_version = 1, ne_data = JObject [(''n'', JNumber (PosInt 3))]\<rparr>"

definition sample_group :: AppendGroup where
  "sample_group = \<lparr>ag_tenant = ''acme'',
     ag_appends = [\<lparr>sa_stream = sample_stream, sa_expected = NoStream, sa_events = [sample_event]\<rparr>],
     ag_meta = sample_meta\<rparr>"

lemma sample_group_checked:
  "CommandMeta_validate (ag_meta sample_group) = Inr ()"
  "checks (map (check_entry sample_group) (ag_appends sample_group)) = Inr ()"
  by code_simp+

theorem group_fingerprint_identifies_witness:
  "sample_group = sample_group\<lparr>ag_tenant := ''ac'' @ ''me''\<rparr>"
proof (rule group_fingerprint_identifies[where h = sample_host])
  have same: "sample_group\<lparr>ag_tenant := ''ac'' @ ''me''\<rparr> = sample_group"
    by (simp add: sample_group_def)
  show "group_fingerprint sample_host sample_group = Inr (hex (sha256 sample_host
      (as_bytes (json_text sample_host (group_json sample_host sample_group)))))"
    using sample_group_checked by (simp add: group_fingerprint_Inr validate_iffs, simp add: sample_group_def sample_meta_def)
  then show "group_fingerprint sample_host (sample_group\<lparr>ag_tenant := ''ac'' @ ''me''\<rparr>) = Inr (hex (sha256 sample_host
      (as_bytes (json_text sample_host (group_json sample_host sample_group)))))"
    by (simp only: same)
  show "inj (time_json sample_host)" by (simp add: sample_host_def inj_def)
qed (simp_all add: sample_host_def sample_group_def)

end
