(* ===== verification/Blobs.thy ===== *)
theory Blobs
  imports Envelope
begin

text \<open>
  Blob integrity (\<open>crates/eventlog-core/src/blob_integrity.rs\<close>) and the memory of content one handle
  has already verified (\<open>verified_content.rs\<close>). The memory is shared by threads: each critical section
  is one \<open>action\<close>, and a check runs other threads' actions in the two gaps where it holds no lock.
\<close>

datatype LegacyBlobMigration = RefusePopulated | TrustObservedBytes

definition blob_integrity_sha256 :: "host \<Rightarrow> bytes \<Rightarrow> string" where
  "blob_integrity_sha256 h b = hex (sha256 h b)"

definition bad_blob :: EventLogError where
  "bad_blob = Backend ''stored blob integrity metadata is invalid''"

definition validate_legacy_blob_count :: "bytes \<Rightarrow> int \<Rightarrow> unit res" where
  "validate_legacy_blob_count b byte_count =
     (if byte_count < 0 then Inl bad_blob
      else if nat byte_count \<noteq> length b then Inl bad_blob
      else Inr ())"

definition is_hash_char :: "char \<Rightarrow> bool" where
  "is_hash_char c = ((48 \<le> (of_char c :: nat) \<and> (of_char c :: nat) \<le> 57) \<or>
     (97 \<le> (of_char c :: nat) \<and> (of_char c :: nat) \<le> 102))"

definition validate_stored_blob :: "host \<Rightarrow> bytes \<Rightarrow> int \<Rightarrow> string option \<Rightarrow> int \<Rightarrow> bytes res" where
  "validate_stored_blob h b byte_count integrity integrity_v1 =
     andthen (validate_legacy_blob_count b byte_count) (\<lambda>_.
     andthen (ok_or bad_blob integrity) (\<lambda>hash.
       if integrity_v1 \<noteq> 1 \<or> length hash \<noteq> 64 \<or> \<not> list_all is_hash_char hash \<or>
          blob_integrity_sha256 h b \<noteq> hash
       then Inl bad_blob else Inr b))"


section \<open>The memory of verified content\<close>

definition VERIFIED_CONTENT_BUDGET :: nat where
  "VERIFIED_CONTENT_BUDGET = 32 * 2 ^ 20"

record VerifiedContent =
  by_hash :: "(string, bytes) btree"
  held :: nat
  hashed :: u64
  generation :: u64
  lock_poisoned :: bool

definition vc_default :: VerifiedContent where
  "vc_default = \<lparr>by_hash = [], held = 0, hashed = 0, generation = 0, lock_poisoned = False\<rparr>"

definition vc_insert :: "VerifiedContent \<Rightarrow> string \<Rightarrow> bytes \<Rightarrow> VerifiedContent" where
  "vc_insert s hash b =
     (if length b > VERIFIED_CONTENT_BUDGET \<or> bt_get (by_hash s) hash \<noteq> None then s
      else let s = (if held s + length b > VERIFIED_CONTENT_BUDGET
                    then s\<lparr>by_hash := [], held := 0\<rparr> else s)
           in s\<lparr>held := held s + length b, by_hash := bt_insert hash b (by_hash s)\<rparr>)"

record Lookup =
  remembered :: "bytes option"
  lk_generation :: u64

definition lookup_hit :: "Lookup \<Rightarrow> bytes \<Rightarrow> bool" where
  "lookup_hit l b = (remembered l = Some b)"

definition poisoned :: EventLogError where
  "poisoned = Backend ''the store lock was poisoned by a panic''"

definition look_up :: "VerifiedContent \<Rightarrow> string option \<Rightarrow> Lookup res" where
  "look_up s hash =
     (if lock_poisoned s then Inl poisoned
      else Inr \<lparr>remembered = Option.bind hash (bt_get (by_hash s)), lk_generation = generation s\<rparr>)"

definition count_full_check :: "(VerifiedContent, EventLogError, unit) cmd" where
  "count_full_check s =
     (if lock_poisoned s then (Inl poisoned, s) else (Inr (), s\<lparr>hashed := hashed s + 1\<rparr>))"

definition settle :: "VerifiedContent \<Rightarrow> Lookup \<Rightarrow> string \<Rightarrow> bytes \<Rightarrow> VerifiedContent" where
  "settle s l hash b =
     (if \<not> lock_poisoned s \<and> generation s = lk_generation l then vc_insert s hash b else s)"

definition remember :: "VerifiedContent \<Rightarrow> string \<Rightarrow> bytes \<Rightarrow> VerifiedContent" where
  "remember s hash b = (if lock_poisoned s then s else vc_insert s hash b)"

definition forget :: "VerifiedContent \<Rightarrow> VerifiedContent" where
  "forget s = (if lock_poisoned s then s
     else s\<lparr>by_hash := [], held := 0, generation := generation s + 1\<rparr>)"

text \<open>What another thread may do to the memory while this one holds no lock.\<close>

datatype action = Remember string bytes | Forget | CountFullCheck | Settle Lookup string bytes

fun act :: "action \<Rightarrow> VerifiedContent \<Rightarrow> VerifiedContent" where
  "act (Remember hash b) s = remember s hash b"
| "act Forget s = forget s"
| "act CountFullCheck s = snd (count_full_check s)"
| "act (Settle l hash b) s = settle s l hash b"

text \<open>
  The two checks. \<open>w1\<close> and \<open>w2\<close> are what other threads do between the lookup and the count, and
  between the count and the settling.
\<close>

definition check_stored ::
  "host \<Rightarrow> action list \<Rightarrow> action list \<Rightarrow> bytes \<Rightarrow> int \<Rightarrow> string option \<Rightarrow> int \<Rightarrow>
   (VerifiedContent, EventLogError, bytes) cmd" where
  "check_stored h w1 w2 b byte_count integrity integrity_v1 s =
     (case look_up s integrity of Inl e \<Rightarrow> (Inl e, s) | Inr l \<Rightarrow>
        if integrity_v1 = 1 \<and> lookup_hit l b
        then (andthen (validate_legacy_blob_count b byte_count) (\<lambda>_. Inr b), s)
        else (case count_full_check (fold act w1 s) of
            (Inl e, s') \<Rightarrow> (Inl e, s')
          | (Inr _, s') \<Rightarrow> (let s'' = fold act w2 s' in
              case validate_stored_blob h b byte_count integrity integrity_v1 of
                Inl e \<Rightarrow> (Inl e, s'')
              | Inr b \<Rightarrow> (Inr b, (case integrity of Some hash \<Rightarrow> settle s'' l hash b | None \<Rightarrow> s'')))))"

definition check_recorded ::
  "action list \<Rightarrow> action list \<Rightarrow> bytes \<Rightarrow> string \<Rightarrow> (bytes \<Rightarrow> bool) \<Rightarrow>
   (VerifiedContent, EventLogError, bool) cmd" where
  "check_recorded w1 w2 b hash full s =
     (case look_up s (Some hash) of Inl e \<Rightarrow> (Inl e, s) | Inr l \<Rightarrow>
        if lookup_hit l b then (Inr True, s)
        else (case count_full_check (fold act w1 s) of
            (Inl e, s') \<Rightarrow> (Inl e, s')
          | (Inr _, s') \<Rightarrow> (let s'' = fold act w2 s'; matched = full b in
              (Inr matched, if matched then settle s'' l hash b else s''))))"

definition vc_held :: "VerifiedContent \<Rightarrow> nat" where
  "vc_held s = (if lock_poisoned s then 0 else held s)"

definition vc_entries :: "VerifiedContent \<Rightarrow> nat" where
  "vc_entries s = (if lock_poisoned s then 0 else length (by_hash s))"

definition vc_hashed :: "VerifiedContent \<Rightarrow> u64" where
  "vc_hashed s = (if lock_poisoned s then 0 else hashed s)"


section \<open>The invariant of the memory\<close>

text \<open>
  Every remembered pair is true (the hash is that of the bytes), \<open>held\<close> is the sum of the lengths,
  and it stays in the budget. Other threads only remember pairs they hashed themselves or checked
  in full.
\<close>

definition vc_inv :: "host \<Rightarrow> VerifiedContent \<Rightarrow> bool" where
  "vc_inv h s \<longleftrightarrow> bt_wf (by_hash s) \<and>
     (\<forall>(hash, b) \<in> set (by_hash s). hash = blob_integrity_sha256 h b) \<and>
     held s = sum_list (map (length \<circ> snd) (by_hash s)) \<and> held s \<le> VERIFIED_CONTENT_BUDGET"

fun action_ok :: "host \<Rightarrow> action \<Rightarrow> bool" where
  "action_ok h (Remember hash b) = (hash = blob_integrity_sha256 h b)"
| "action_ok h (Settle l hash b) = (hash = blob_integrity_sha256 h b)"
| "action_ok h _ = True"

lemma vc_inv_default: "vc_inv h vc_default"
  by (simp add: vc_inv_def vc_default_def)

lemma vc_inv_insert:
  assumes "vc_inv h s" and "hash = blob_integrity_sha256 h b"
  shows "vc_inv h (vc_insert s hash b)"
  using assms
  by (auto simp: vc_insert_def vc_inv_def Let_def sum_list_bt_insert set_bt_insert bt_wf_insert)

lemma vc_inv_act: "vc_inv h s \<Longrightarrow> action_ok h a \<Longrightarrow> vc_inv h (act a s)"
  by (cases a)
    (auto simp: remember_def forget_def count_full_check_def settle_def vc_inv_insert
      intro: vc_inv_insert, auto simp: vc_inv_def)

lemma vc_inv_acts: "vc_inv h s \<Longrightarrow> list_all (action_ok h) as \<Longrightarrow> vc_inv h (fold act as s)"
  by (induction as arbitrary: s) (auto intro: vc_inv_act)

text \<open>
  C24. However threads interleave, the memory of verified content never holds more than its budget of
  32 MiB, its running total is the exact sum of what it holds, and every pair in it is a hash with
  bytes of that hash.
\<close>

theorem verified_content_bounded:
  assumes "list_all (action_ok h) as"
  shows "vc_inv h (fold act as vc_default)"
  using assms vc_inv_default by (rule vc_inv_acts[rotated])

theorem verified_content_bounded_witness:
  "vc_inv sample_host (fold act
     [Remember (blob_integrity_sha256 sample_host [1, 2]) [1, 2], Forget, CountFullCheck] vc_default)"
  by (rule verified_content_bounded) simp


section \<open>What the checks answer\<close>

lemma is_hash_char_digit: "n < 16 \<Longrightarrow> is_hash_char (digit n)"
  using of_char_digit[of n] by (auto simp: is_hash_char_def)

lemma hex_hash_chars: "list_all is_hash_char (hex bs)"
  by (induction bs) (simp_all add: is_hash_char_digit byte_div_mod)

lemma lock_poisoned_act [simp]: "lock_poisoned (act a s) = lock_poisoned s"
  by (cases a)
    (simp_all add: remember_def forget_def count_full_check_def settle_def vc_insert_def Let_def)

lemma lock_poisoned_acts [simp]: "lock_poisoned (fold act as s) = lock_poisoned s"
  by (induction as arbitrary: s) auto

lemma look_up_hit_true:
  assumes "vc_inv h s" and "look_up s i = Inr l" and "lookup_hit l b"
  shows "i = Some (blob_integrity_sha256 h b)"
proof -
  obtain hash where i: "i = Some hash" and "bt_get (by_hash s) hash = Some b"
    using assms(2,3) by (auto simp: look_up_def lookup_hit_def split: if_splits option.splits
        bind_splits)
  then have "(hash, b) \<in> set (by_hash s)" by (simp add: bt_get_SomeD)
  with assms(1) i show ?thesis by (auto simp: vc_inv_def)
qed

lemma count_full_check_run:
  "\<not> lock_poisoned s \<Longrightarrow> count_full_check s = (Inr (), act CountFullCheck s)"
  by (simp add: count_full_check_def)

lemma look_up_ok: "\<not> lock_poisoned s \<Longrightarrow> \<exists>l. look_up s i = Inr l"
  by (simp add: look_up_def)

lemmas check_runs = look_up_ok count_full_check_run

lemma check_recorded_answer:
  assumes "vc_inv h s" and "\<not> lock_poisoned s"
    and full: "\<And>b. full b \<longleftrightarrow> blob_integrity_sha256 h b = hash"
  shows "fst (check_recorded w1 w2 b hash full s) = Inr (blob_integrity_sha256 h b = hash)"
proof -
  obtain l where l: "look_up s (Some hash) = Inr l" using assms(2) look_up_ok by blast
  show ?thesis
  proof (cases "lookup_hit l b")
    case True
    then have "hash = blob_integrity_sha256 h b" using look_up_hit_true[OF assms(1) l] by simp
    with True l show ?thesis by (simp add: check_recorded_def)
  next
    case False
    with l full show ?thesis
      using assms(2) by (simp add: check_recorded_def count_full_check_run Let_def del: act.simps)
  qed
qed

lemma check_recorded_inv:
  assumes "vc_inv h s" and "list_all (action_ok h) w1" and "list_all (action_ok h) w2"
    and "full b \<Longrightarrow> hash = blob_integrity_sha256 h b"
  shows "vc_inv h (snd (check_recorded w1 w2 b hash full s))"
proof -
  have 1: "vc_inv h (fold act w1 s)" using assms vc_inv_acts by blast
  then have 2: "vc_inv h (snd (count_full_check (fold act w1 s)))"
    using vc_inv_act[of h _ CountFullCheck] by simp
  then have "vc_inv h (fold act w2 (snd (count_full_check (fold act w1 s))))"
    using assms vc_inv_acts by blast
  then show ?thesis
    using assms 1 2 vc_inv_act[of h _ "Settle _ hash b"]
    by (auto simp: check_recorded_def Let_def split: sum.splits prod.splits)
qed

text \<open>
  C23. Remembering never changes an answer: checking a stored row through the memory, with any other
  threads' actions interleaved, returns exactly what the full validation of that row returns, value
  or error. Skipping the hash needs the remembered bytes to be equal in full.
\<close>

theorem check_stored_same_answer:
  assumes "vc_inv h s" and "\<not> lock_poisoned s" and "\<forall>x. length (sha256 h x) = 32"
  shows "fst (check_stored h w1 w2 b byte_count integrity integrity_v1 s) =
    validate_stored_blob h b byte_count integrity integrity_v1"
proof -
  obtain l where l: "look_up s integrity = Inr l" using assms(2) look_up_ok by blast
  show ?thesis
  proof (cases "integrity_v1 = 1 \<and> lookup_hit l b")
    case True
    then have "integrity = Some (blob_integrity_sha256 h b)"
      using look_up_hit_true[OF assms(1) l] by simp
    with True l show ?thesis
      using assms(3) hex_hash_chars
      by (auto simp: check_stored_def validate_stored_blob_def blob_integrity_sha256_def)
  next
    case False
    with l show ?thesis
      using assms(2) by (auto simp: check_stored_def count_full_check_run Let_def
          simp del: act.simps split: sum.splits)
  qed
qed

definition sample_memory :: VerifiedContent where
  "sample_memory = act (Remember (blob_integrity_sha256 sample_host [1, 2]) [1, 2]) vc_default"

theorem check_stored_same_answer_witness:
  "fst (check_stored sample_host [Forget] [] [1, 2] 2
     (Some (blob_integrity_sha256 sample_host [1, 2])) 1 sample_memory) =
   validate_stored_blob sample_host [1, 2] 2 (Some (blob_integrity_sha256 sample_host [1, 2])) 1"
proof (rule check_stored_same_answer)
  show "vc_inv sample_host sample_memory"
    unfolding sample_memory_def by (rule vc_inv_act[OF vc_inv_default]) simp
  show "\<forall>x. length (sha256 sample_host x) = 32"
    by (simp add: sample_host_def sample_sha_def min_def)
qed (simp add: sample_memory_def vc_default_def del: act.simps)

lemma generation_acts:
  assumes "\<not> lock_poisoned s"
  shows "generation (fold act as s) = generation s + of_nat (length (filter (\<lambda>a. a = Forget) as))"
  using assms
proof (induction as arbitrary: s)
  case (Cons a as)
  then show ?case
    by (cases a) (simp_all add: remember_def forget_def count_full_check_def settle_def
        vc_insert_def Let_def algebra_simps)
qed simp

text \<open>
  C25. A read that raced a deletion or an erasure cannot put the erased bytes back: if at least one
  forget (and fewer than \<open>2^64\<close>, where the generation would wrap) ran between a check's lookup and its
  settling, the settling changes nothing.
\<close>

theorem raced_check_remembers_nothing:
  assumes "look_up s integrity = Inr l"
    and "0 < length (filter (\<lambda>a. a = Forget) as)" and "length (filter (\<lambda>a. a = Forget) as) < 2 ^ 64"
  shows "settle (fold act as s) l hash b = fold act as s"
proof -
  have np: "\<not> lock_poisoned s" and gen: "lk_generation l = generation s"
    using assms(1) by (auto simp: look_up_def split: if_splits)
  obtain n where n: "length (filter (\<lambda>a. a = Forget) as) = n" by simp
  have "unat (of_nat n :: u64) = n"
    by (rule unat_of_nat_small) (use assms(3) n in simp)
  with assms(2) n have "(of_nat n :: u64) \<noteq> 0" by auto
  then have "generation (fold act as s) \<noteq> lk_generation l"
    by (simp add: generation_acts[OF np] gen n)
  then show ?thesis by (simp add: settle_def)
qed

theorem raced_check_remembers_nothing_witness:
  "settle (fold act [CountFullCheck, Forget] sample_memory) \<lparr>remembered = None, lk_generation = 0\<rparr> ''aa'' [7]
     = fold act [CountFullCheck, Forget] sample_memory"
proof (rule raced_check_remembers_nothing[of _ None])
  show "look_up sample_memory None = Inr \<lparr>remembered = None, lk_generation = 0\<rparr>"
    by (simp add: look_up_def sample_memory_def remember_def vc_insert_def vc_default_def
        VERIFIED_CONTENT_BUDGET_def)
qed simp_all

end
