(* ===== verification/FileState.thy ===== *)
theory FileState
  imports AppendGroups Blobs
begin

text \<open>
  The folded state of the file store (\<open>crates/eventlog-file/src/state.rs\<close>): the operations one
  transaction writes, the event map with its per-stream index, and the fold that rebuilds the state
  from the committed transactions.
\<close>

section \<open>Operations and state\<close>

record Blob =
  blob_id :: string
  blob_hash :: string

datatype Op =
    OpWatermark u64
  | OpCounter "TenantId option" string int
  | OpEvent RecordedEvent
  | OpCommand StreamId string string u64 u64
  | OpClaim TenantId string string string GroupRange
  | OpGroup TenantId string string "GroupRange list" "string list"
  | OpIdentity TenantId string
  | OpGeneration StreamId string
  | OpProjection string "string list"
  | OpDirtyView TenantId string bool
  | OpRow TenantId string string "json option"
  | OpClearRows TenantId string
  | OpCursor TenantId string u64
  | OpBlob TenantId string "Blob option"

text \<open>
  One committed transaction is a JSON value. It decodes as a list of operations, or does not, with
  the decoder's message.
\<close>

datatype transaction = TxOps "Op list" | TxOther string

record Events =
  by_position :: "(u64, RecordedEvent) btree"
  by_stream :: "(string, (u64, u64) btree) btree"

record State =
  st_events :: Events
  st_commands :: "(string, string \<times> GroupRange) btree"
  st_claims :: "(string, string \<times> GroupRange) btree"
  st_groups :: "(string, string \<times> GroupRange list \<times> string list) btree"
  st_identities :: "(string, string) btree"
  st_generations :: "(string, string) btree"
  st_projections :: "(string, string list) btree"
  st_dirty_views :: "(string \<times> string) set"
  st_rows :: "(string \<times> string \<times> string, json) btree"
  st_cursors :: "(string \<times> string, u64) btree"
  st_blobs :: "(string \<times> string, Blob) btree"
  st_next_position :: u64
  st_counters :: "(string, int) btree"

definition State_default :: State where
  "State_default = \<lparr>st_events = \<lparr>by_position = [], by_stream = []\<rparr>, st_commands = [], st_claims = [],
     st_groups = [], st_identities = [], st_generations = [], st_projections = [],
     st_dirty_views = {}, st_rows = [], st_cursors = [], st_blobs = [], st_next_position = 0,
     st_counters = []\<rparr>"


section \<open>Keys\<close>

definition key :: "host \<Rightarrow> string list \<Rightarrow> string" where
  "key h parts = json_text h (JArray (map JString parts))"

definition stream_key :: "host \<Rightarrow> StreamId \<Rightarrow> string" where
  "stream_key h s = key h [sid_tenant s, sid_type s, sid_id s]"


section \<open>The event map and its index\<close>

definition Events_insert :: "Events \<Rightarrow> string \<Rightarrow> RecordedEvent \<Rightarrow> Events" where
  "Events_insert ev stream e = ev\<lparr>
     by_stream := bt_insert stream
       (bt_insert (version e) (global_seq e)
         (case bt_get (by_stream ev) stream of None \<Rightarrow> [] | Some index \<Rightarrow> index)) (by_stream ev),
     by_position := bt_insert (global_seq e) e (by_position ev)\<rparr>"

definition Events_head :: "Events \<Rightarrow> string \<Rightarrow> u64" where
  "Events_head ev stream = (case bt_get (by_stream ev) stream of
     None \<Rightarrow> 0 | Some index \<Rightarrow> if index = [] then 0 else fst (last index))"

datatype bound = Included u64 | Excluded u64 | Unbounded

fun above :: "bound \<Rightarrow> u64 \<Rightarrow> bool" where
  "above (Included a) v = (a \<le> v)"
| "above (Excluded a) v = (a < v)"
| "above Unbounded v = True"

fun below :: "bound \<Rightarrow> u64 \<Rightarrow> bool" where
  "below (Included a) v = (v \<le> a)"
| "below (Excluded a) v = (v < a)"
| "below Unbounded v = True"

definition of_stream :: "host \<Rightarrow> Events \<Rightarrow> StreamId \<Rightarrow> bound \<Rightarrow> bound \<Rightarrow> RecordedEvent list" where
  "of_stream h ev stream lo hi = (case bt_get (by_stream ev) (stream_key h stream) of
     None \<Rightarrow> []
   | Some index \<Rightarrow> List.map_filter (\<lambda>(_, position). bt_get (by_position ev) position)
       (takeWhile (\<lambda>(v, _). above lo v \<and> below hi v) (filter (\<lambda>(v, _). above lo v) index)))"

definition Events_values :: "Events \<Rightarrow> RecordedEvent list" where
  "Events_values ev = map snd (by_position ev)"


section \<open>Applying operations\<close>

definition State_head :: "host \<Rightarrow> State \<Rightarrow> StreamId \<Rightarrow> u64" where
  "State_head h s stream = Events_head (st_events s) (stream_key h stream)"

definition apply_event :: "host \<Rightarrow> State \<Rightarrow> RecordedEvent \<Rightarrow> State res" where
  "apply_event h s e =
     (if global_seq e \<le> st_next_position s then Inl (Backend ''invalid recorded event order'')
      else andthen (event_stream e) (\<lambda>sid. let stream = stream_key h sid in
        if version e \<noteq> Events_head (st_events s) stream + 1
        then Inl (Backend ''invalid recorded event order'')
        else Inr (s\<lparr>st_next_position := global_seq e,
                    st_events := Events_insert (st_events s) stream e\<rparr>)))"

fun State_apply :: "host \<Rightarrow> State \<Rightarrow> Op \<Rightarrow> State res" where
  "State_apply h s (OpDirtyView t n dirty) = Inr (s\<lparr>st_dirty_views :=
     (if dirty then insert (t, n) (st_dirty_views s) else st_dirty_views s - {(t, n)})\<rparr>)"
| "State_apply h s (OpWatermark position) =
     Inr (s\<lparr>st_next_position := max (st_next_position s) position\<rparr>)"
| "State_apply h s (OpCounter _ c v) = Inr (s\<lparr>st_counters := bt_insert c v (st_counters s)\<rparr>)"
| "State_apply h s (OpEvent e) = apply_event h s e"
| "State_apply h s (OpCommand stream k d v1 v2) =
     Inr (s\<lparr>st_commands := bt_insert (key h [stream_key h stream, k])
       (d, \<lparr>gr_stream = stream, gr_first = v1, gr_last = v2\<rparr>) (st_commands s)\<rparr>)"
| "State_apply h s (OpClaim t sc k d r) =
     Inr (s\<lparr>st_claims := bt_insert (key h [t, sc, k]) (d, r) (st_claims s)\<rparr>)"
| "State_apply h s (OpGroup t k d ranges blobs) =
     Inr (s\<lparr>st_groups := bt_insert (key h [t, k]) (d, ranges, blobs) (st_groups s)\<rparr>)"
| "State_apply h s (OpIdentity t i) = Inr (s\<lparr>st_identities := bt_insert t i (st_identities s)\<rparr>)"
| "State_apply h s (OpGeneration stream i) =
     Inr (s\<lparr>st_generations := bt_insert (stream_key h stream) i (st_generations s)\<rparr>)"
| "State_apply h s (OpProjection n indexed) =
     (if (case bt_get (st_projections s) n of Some old \<Rightarrow> old \<noteq> indexed | None \<Rightarrow> False)
      then Inl (Backend ''projection registration shape changed'')
      else Inr (s\<lparr>st_projections := bt_insert n indexed (st_projections s)\<rparr>))"
| "State_apply h s (OpRow t n k body) = Inr (s\<lparr>st_rows := (case body of
       Some b \<Rightarrow> bt_insert (t, n, k) b (st_rows s) | None \<Rightarrow> bt_remove (t, n, k) (st_rows s))\<rparr>)"
| "State_apply h s (OpClearRows t n) =
     Inr (s\<lparr>st_rows := bt_retain (\<lambda>(t', n', _). t' \<noteq> t \<or> n' \<noteq> n) (st_rows s)\<rparr>)"
| "State_apply h s (OpCursor t n position) =
     Inr (s\<lparr>st_cursors := bt_insert (t, n) position (st_cursors s)\<rparr>)"
| "State_apply h s (OpBlob t d object) = Inr (s\<lparr>st_blobs := (case object of
       Some b \<Rightarrow> bt_insert (t, d) b (st_blobs s) | None \<Rightarrow> bt_remove (t, d) (st_blobs s))\<rparr>)"

fun bound_by :: "Op \<Rightarrow> (TenantId \<times> string) list" where
  "bound_by (OpBlob t d (Some _)) = [(t, d)]"
| "bound_by _ = []"

definition State_fold :: "host \<Rightarrow> State \<Rightarrow> transaction \<Rightarrow> (State \<times> (TenantId \<times> string) list) res" where
  "State_fold h s tx = (case tx of
     TxOther error \<Rightarrow> Inl (Backend error)
   | TxOps ops \<Rightarrow> andthen (try_fold (State_apply h) s ops) (\<lambda>s'. Inr (s', concat (map bound_by ops))))"

definition replay :: "host \<Rightarrow> transaction list \<Rightarrow> State res" where
  "replay h txs = try_fold (\<lambda>s tx. andthen (State_fold h s tx) (\<lambda>r. Inr (fst r))) State_default txs"

fun op_tenant :: "Op \<Rightarrow> TenantId option" where
  "op_tenant (OpCounter t _ _) = t"
| "op_tenant (OpEvent e) = Some (tenant e)"
| "op_tenant (OpCommand stream _ _ _ _) = Some (sid_tenant stream)"
| "op_tenant (OpGeneration stream _) = Some (sid_tenant stream)"
| "op_tenant (OpProjection _ _) = None"
| "op_tenant (OpWatermark _) = None"
| "op_tenant (OpDirtyView t _ _) = Some t"
| "op_tenant (OpClaim t _ _ _ _) = Some t"
| "op_tenant (OpGroup t _ _ _ _) = Some t"
| "op_tenant (OpIdentity t _) = Some t"
| "op_tenant (OpRow t _ _ _) = Some t"
| "op_tenant (OpClearRows t _) = Some t"
| "op_tenant (OpCursor t _ _) = Some t"
| "op_tenant (OpBlob t _ _) = Some t"


section \<open>The log behind the maps\<close>

text \<open>
  The event map abstracts to the list of its events in position order. The index of a stream is
  then the versions and positions of that stream's events, and the versions are 1, 2, 3 and so on.
\<close>

definition event_key :: "host \<Rightarrow> RecordedEvent \<Rightarrow> string" where
  "event_key h e = key h [tenant e, stream_type e, stream_id e]"

definition stream_log :: "host \<Rightarrow> string \<Rightarrow> RecordedEvent list \<Rightarrow> RecordedEvent list" where
  "stream_log h k es = filter (\<lambda>e. event_key h e = k) es"

definition index_of :: "Events \<Rightarrow> string \<Rightarrow> (u64, u64) btree" where
  "index_of ev k = (case bt_get (by_stream ev) k of None \<Rightarrow> [] | Some index \<Rightarrow> index)"

definition gapless :: "u64 list \<Rightarrow> bool" where
  "gapless vs \<longleftrightarrow> map unat vs = [1..<Suc (length vs)]"

definition entry_of :: "RecordedEvent \<Rightarrow> u64 \<times> u64" where
  "entry_of e = (version e, global_seq e)"

definition events_inv :: "host \<Rightarrow> Events \<Rightarrow> u64 \<Rightarrow> bool" where
  "events_inv h ev n \<longleftrightarrow>
     bt_wf (by_position ev) \<and> bt_wf (by_stream ev) \<and>
     (\<forall>(p, e) \<in> set (by_position ev). global_seq e = p \<and> p \<le> n) \<and>
     length (by_position ev) \<le> unat n \<and>
     (\<forall>k. index_of ev k = map entry_of (stream_log h k (Events_values ev))) \<and>
     (\<forall>k. gapless (map version (stream_log h k (Events_values ev))))"

lemma fst_entry_of [simp]: "fst \<circ> entry_of = version"
  by (rule ext) (simp add: entry_of_def)

lemma stream_log_append: "stream_log h k (xs @ ys) = stream_log h k xs @ stream_log h k ys"
  by (simp add: stream_log_def)

lemma stream_log_single: "stream_log h k [e] = (if event_key h e = k then [e] else [])"
  by (simp add: stream_log_def)

lemma length_stream_log: "length (stream_log h k es) \<le> length es"
  by (simp add: stream_log_def)

lemma gapless_Nil [simp]: "gapless []"
  by (simp add: gapless_def)

lemma gapless_snoc: "gapless (vs @ [v]) \<longleftrightarrow> gapless vs \<and> unat v = Suc (length vs)"
  by (auto simp: gapless_def)

lemma gapless_last: "gapless vs \<Longrightarrow> vs \<noteq> [] \<Longrightarrow> unat (last vs) = length vs"
  by (cases vs rule: rev_cases) (auto simp: gapless_snoc)

lemma gapless_mem: "gapless vs \<Longrightarrow> v \<in> set vs \<Longrightarrow> 1 \<le> unat v \<and> unat v \<le> length vs"
  by (induction vs rule: rev_induct) (auto simp: gapless_snoc)

lemma gapless_sorted: "gapless vs \<Longrightarrow> sorted_wrt (<) vs"
proof (induction vs rule: rev_induct)
  case (snoc v vs)
  then show ?case
    using gapless_mem[of vs]
    by (auto simp: gapless_snoc sorted_wrt_append word_less_nat_alt less_Suc_eq_le)
qed simp

lemma events_inv_empty: "events_inv h \<lparr>by_position = [], by_stream = []\<rparr> n"
  by (simp add: events_inv_def index_of_def Events_values_def stream_log_def)

lemma events_inv_mono: "events_inv h ev n \<Longrightarrow> n \<le> m \<Longrightarrow> events_inv h ev m"
  unfolding events_inv_def by (force simp: word_le_nat_alt)

lemma Events_head_index: "Events_head ev k = (if index_of ev k = [] then 0 else fst (last (index_of ev k)))"
  by (simp add: Events_head_def index_of_def split: option.splits)

lemma head_length:
  assumes "events_inv h ev n"
  shows "unat (Events_head ev k) = length (stream_log h k (Events_values ev))"
proof -
  let ?xs = "stream_log h k (Events_values ev)"
  have index: "index_of ev k = map entry_of ?xs" and gap: "gapless (map version ?xs)"
    using assms by (simp_all add: events_inv_def)
  show ?thesis
  proof (cases "?xs = []")
    case False
    then show ?thesis
      using gapless_last[OF gap] by (simp add: Events_head_index index last_map entry_of_def)
  qed (simp add: Events_head_index index)
qed

text \<open>The stream head stays below any position a new event may take, so adding one never wraps.\<close>

lemma head_below_position:
  assumes "events_inv h ev n" and "n < p"
  shows "Events_head ev k < p"
proof -
  have "unat (Events_head ev k) \<le> length (Events_values ev)"
    using head_length[OF assms(1)] length_stream_log by metis
  also have "\<dots> \<le> unat n" using assms(1) by (simp add: events_inv_def Events_values_def)
  finally show ?thesis using assms(2) by (simp add: word_less_nat_alt)
qed

lemma index_of_insert:
  "index_of (Events_insert ev k e) k' =
     (if k' = k then bt_insert (version e) (global_seq e) (index_of ev k) else index_of ev k')"
  by (simp add: index_of_def Events_insert_def bt_simps)

lemma insert_position:
  assumes "events_inv h ev n" and "n < global_seq e"
  shows "by_position (Events_insert ev k e) = by_position ev @ [(global_seq e, e)]"
  using assms unfolding Events_insert_def events_inv_def
  by (simp, intro bt_wf_snoc) (auto dest: le_less_trans)

lemma values_insert:
  "events_inv h ev n \<Longrightarrow> n < global_seq e \<Longrightarrow>
     Events_values (Events_insert ev k e) = Events_values ev @ [e]"
  by (simp add: Events_values_def insert_position)

lemma insert_index:
  assumes inv: "events_inv h ev n" and "unat (version e) = Suc (length (stream_log h k (Events_values ev)))"
  shows "bt_insert (version e) (global_seq e) (index_of ev k) = index_of ev k @ [entry_of e]"
proof -
  let ?xs = "stream_log h k (Events_values ev)"
  have index: "index_of ev k = map entry_of ?xs" and gap: "gapless (map version ?xs)"
    using inv by (simp_all add: events_inv_def)
  have "bt_wf (index_of ev k)"
    using gapless_sorted[OF gap] by (simp add: index bt_wf_def)
  moreover have "fst i < version e" if "i \<in> set (index_of ev k)" for i
    using that gapless_mem[OF gap] assms(2)
    by (force simp: index entry_of_def word_less_nat_alt)
  ultimately show ?thesis by (simp add: bt_wf_snoc entry_of_def)
qed

lemma events_inv_insert:
  assumes inv: "events_inv h ev n" and pos: "n < global_seq e"
    and ver: "version e = Events_head ev (event_key h e) + 1"
  shows "events_inv h (Events_insert ev (event_key h e) e) (global_seq e)"
proof -
  let ?k = "event_key h e" and ?ev = "Events_insert ev (event_key h e) e"
  have next_version: "unat (version e) = Suc (length (stream_log h ?k (Events_values ev)))"
    unfolding ver using unat_Suc_less[OF head_below_position[OF inv pos]] head_length[OF inv] by simp
  have vals: "Events_values ?ev = Events_values ev @ [e]"
    using inv pos by (rule values_insert)
  have positions: "by_position ?ev = by_position ev @ [(global_seq e, e)]"
    using inv pos by (rule insert_position)
  have "bt_wf (by_position ?ev)" "bt_wf (by_stream ?ev)"
    using inv by (auto simp: Events_insert_def events_inv_def)
  moreover have "\<forall>(p, d) \<in> set (by_position ?ev). global_seq d = p \<and> p \<le> global_seq e"
    using inv pos by (auto simp: positions events_inv_def)
  moreover have "length (by_position ?ev) \<le> unat (global_seq e)"
    using inv pos by (simp add: positions events_inv_def word_less_nat_alt)
  moreover have "index_of ?ev k = map entry_of (stream_log h k (Events_values ?ev))" for k
    using inv insert_index[OF inv next_version]
    by (simp add: index_of_insert vals stream_log_append stream_log_single events_inv_def)
  moreover have "gapless (map version (stream_log h k (Events_values ?ev)))" for k
    using inv next_version
    by (simp add: vals stream_log_append stream_log_single gapless_snoc events_inv_def)
  ultimately show ?thesis by (simp add: events_inv_def)
qed


section \<open>The state invariant and its preservation\<close>

definition state_inv :: "host \<Rightarrow> State \<Rightarrow> bool" where
  "state_inv h s \<longleftrightarrow> events_inv h (st_events s) (st_next_position s) \<and>
     bt_wf (st_commands s) \<and> bt_wf (st_claims s) \<and> bt_wf (st_groups s) \<and>
     bt_wf (st_identities s) \<and> bt_wf (st_generations s) \<and> bt_wf (st_projections s) \<and>
     bt_wf (st_rows s) \<and> bt_wf (st_cursors s) \<and> bt_wf (st_blobs s) \<and> bt_wf (st_counters s)"

lemma event_stream_Inr:
  "event_stream e = Inr sid \<longleftrightarrow> field_ok (stream_type e) \<and> field_ok (stream_id e) \<and>
     sid = \<lparr>sid_tenant = tenant e, sid_type = stream_type e, sid_id = stream_id e\<rparr>"
  by (simp add: event_stream_def StreamId_new_iff)

lemma apply_event_Inr:
  "apply_event h s e = Inr s' \<longleftrightarrow>
     st_next_position s < global_seq e \<and> field_ok (stream_type e) \<and> field_ok (stream_id e) \<and>
     version e = Events_head (st_events s) (event_key h e) + 1 \<and>
     s' = s\<lparr>st_next_position := global_seq e,
           st_events := Events_insert (st_events s) (event_key h e) e\<rparr>"
  by (auto simp: apply_event_def andthen_Inr_iff event_stream_Inr event_key_def stream_key_def
      Let_def split: if_splits)

lemma state_inv_default: "state_inv h State_default"
  by (simp add: state_inv_def State_default_def events_inv_empty)

lemma state_inv_apply:
  assumes inv: "state_inv h s" and step: "State_apply h s op = Inr s'"
  shows "state_inv h s'"
proof (cases op)
  case (OpEvent e)
  with step have "apply_event h s e = Inr s'" by simp
  with inv show ?thesis
    by (auto simp: apply_event_Inr state_inv_def intro: events_inv_insert)
next
  case (OpWatermark p)
  then show ?thesis
    using inv step by (auto simp: state_inv_def intro: events_inv_mono)
qed (use inv step in \<open>auto simp: state_inv_def split: if_splits option.splits\<close>)

interpretation fs: checked_fold "State_apply h" State_default "state_inv h" for h
  by unfold_locales (auto intro: state_inv_default state_inv_apply)

lemma replay_TxOps: "replay h (map TxOps opss) = try_fold (State_apply h) State_default (concat opss)"
proof -
  have "(\<lambda>s tx. andthen (State_fold h s tx) (\<lambda>r. Inr (fst r))) = (\<lambda>s tx. case tx of
      TxOther e \<Rightarrow> Inl (Backend e) | TxOps ops \<Rightarrow> try_fold (State_apply h) s ops)"
    by (intro ext) (auto simp: State_fold_def andthen_def split: transaction.splits sum.splits)
  then have "replay h (map TxOps opss) = try_fold (try_fold (State_apply h)) State_default opss"
    unfolding replay_def by (induction opss rule: rev_induct) (simp_all add: try_fold_append)
  then show ?thesis by (simp add: try_fold_concat)
qed

lemma replay_decodes: "replay h txs = Inr s \<Longrightarrow> \<exists>opss. txs = map TxOps opss"
proof -
  have "try_fold (\<lambda>s tx. andthen (State_fold h s tx) (\<lambda>r. Inr (fst r))) s0 txs = Inr s \<Longrightarrow>
      \<exists>opss. txs = map TxOps opss" for s0
  proof (induction txs arbitrary: s0)
    case (Cons tx txs)
    from Cons.prems obtain r where step: "State_fold h s0 tx = Inr r"
      and "try_fold (\<lambda>s tx. andthen (State_fold h s tx) (\<lambda>r. Inr (fst r))) (fst r) txs = Inr s"
      by (auto simp: andthen_Inr_iff)
    from Cons.IH[OF this(2)] obtain opss where "txs = map TxOps opss" by blast
    moreover from step obtain ops where "tx = TxOps ops" by (cases tx) (auto simp: State_fold_def)
    ultimately have "tx # txs = map TxOps (ops # opss)" by simp
    then show ?case by (rule exI)
  qed simp
  then show "replay h txs = Inr s \<Longrightarrow> ?thesis" unfolding replay_def by blast
qed

lemma replay_fold:
  "replay h txs = Inr s \<longleftrightarrow> (\<exists>opss. txs = map TxOps opss \<and>
     try_fold (State_apply h) State_default (concat opss) = Inr s)"
  using replay_decodes replay_TxOps by metis

lemma replay_inv: "replay h txs = Inr s \<Longrightarrow> state_inv h s"
  using fs.fold_inv by (auto simp: replay_fold)


section \<open>Reading a stream through the index\<close>

definition in_range :: "bound \<Rightarrow> bound \<Rightarrow> RecordedEvent \<Rightarrow> bool" where
  "in_range lo hi e \<longleftrightarrow> above lo (version e) \<and> below hi (version e)"

lemma below_antimono: "v < w \<Longrightarrow> below hi w \<Longrightarrow> below hi v"
  by (cases hi) auto

lemma map_filter_all: "(\<And>x. x \<in> set xs \<Longrightarrow> f (g x) = Some x) \<Longrightarrow> List.map_filter f (map g xs) = xs"
  by (induction xs) (simp_all add: List.map_filter_simps)

lemma stream_log_mem:
  assumes "events_inv h ev n" and "e \<in> set (stream_log h k (Events_values ev))"
  shows "bt_get (by_position ev) (global_seq e) = Some e"
proof -
  have "(global_seq e, e) \<in> set (by_position ev)"
    using assms by (fastforce simp: stream_log_def Events_values_def events_inv_def)
  then show ?thesis using assms(1) by (simp add: events_inv_def bt_get_mem)
qed

lemma of_stream_log:
  assumes inv: "events_inv h ev n"
  shows "of_stream h ev stream lo hi =
    filter (in_range lo hi) (stream_log h (stream_key h stream) (Events_values ev))"
proof -
  let ?k = "stream_key h stream"
  let ?xs = "stream_log h ?k (Events_values ev)"
  have index: "index_of ev ?k = map entry_of ?xs" and gap: "gapless (map version ?xs)"
    using inv by (simp_all add: events_inv_def)
  let ?lo = "filter (\<lambda>e. above lo (version e)) ?xs"
  have "sorted_wrt (\<lambda>a b. version a < version b) ?xs"
    using gapless_sorted[OF gap] by (simp add: sorted_wrt_map)
  then have "sorted_wrt (\<lambda>a b. version a < version b) ?lo" by (rule sorted_wrt_filter)
  then have "takeWhile (\<lambda>e. below hi (version e)) ?lo = filter (\<lambda>e. below hi (version e)) ?lo"
    by (rule takeWhile_sorted) (rule below_antimono)
  moreover have "takeWhile (in_range lo hi) ?lo = takeWhile (\<lambda>e. below hi (version e)) ?lo"
    by (rule takeWhile_cong) (auto simp: in_range_def)
  ultimately have take: "takeWhile (in_range lo hi) ?lo = filter (in_range lo hi) ?xs"
    by (simp add: in_range_def[abs_def])
  have "of_stream h ev stream lo hi = List.map_filter (\<lambda>(_, p). bt_get (by_position ev) p)
      (takeWhile (\<lambda>(v, _). above lo v \<and> below hi v) (filter (\<lambda>(v, _). above lo v) (index_of ev ?k)))"
    by (auto simp: of_stream_def index_of_def List.map_filter_simps split: option.splits)
  also have "\<dots> = List.map_filter (\<lambda>(_, p). bt_get (by_position ev) p)
      (map entry_of (takeWhile (in_range lo hi) ?lo))"
    by (simp add: index filter_map takeWhile_map comp_def entry_of_def in_range_def[abs_def])
  also have "\<dots> = filter (in_range lo hi) ?xs"
    unfolding take by (rule map_filter_all) (auto simp: entry_of_def intro: stream_log_mem[OF inv])
  finally show ?thesis .
qed


section \<open>What a replayed history gives its readers\<close>

text \<open>
  \<open>serde_json\<close> prints different string arrays differently: what the store relies on when it uses
  printed arrays as map keys.
\<close>

definition keys_injective :: "host \<Rightarrow> bool" where
  "keys_injective h \<longleftrightarrow> (\<forall>xs ys. key h xs = key h ys \<longrightarrow> xs = ys)"

lemma keys_injectiveD: "keys_injective h \<Longrightarrow> key h xs = key h ys \<longleftrightarrow> xs = ys"
  unfolding keys_injective_def by blast

definition in_stream :: "StreamId \<Rightarrow> RecordedEvent \<Rightarrow> bool" where
  "in_stream sid e \<longleftrightarrow> tenant e = sid_tenant sid \<and> stream_type e = sid_type sid \<and> stream_id e = sid_id sid"

lemma event_key_iff: "keys_injective h \<Longrightarrow> event_key h e = stream_key h sid \<longleftrightarrow> in_stream sid e"
  by (auto simp: event_key_def stream_key_def keys_injectiveD in_stream_def)

lemma stream_log_in_stream:
  "keys_injective h \<Longrightarrow> stream_log h (stream_key h sid) es = filter (in_stream sid) es"
  by (simp add: stream_log_def event_key_iff)

lemma positions_sorted: "events_inv h ev n \<Longrightarrow> sorted_wrt (<) (map global_seq (Events_values ev))"
proof -
  assume inv: "events_inv h ev n"
  then have "map global_seq (Events_values ev) = map fst (by_position ev)"
    by (auto simp: events_inv_def Events_values_def)
  with inv show ?thesis by (simp add: events_inv_def bt_wf_def)
qed

text \<open>
  C19. Every history that replays gives gapless streams: the events of a stream, read in full through
  the index, carry the versions 1, 2, and so on up to the head, and all events of the store are held
  in strictly rising global positions, none above the position the next event must exceed.
\<close>

theorem replay_streams_gapless:
  assumes "replay h txs = Inr s"
  shows "map (unat \<circ> version) (of_stream h (st_events s) stream Unbounded Unbounded) =
      [1..<Suc (unat (State_head h s stream))] \<and>
    sorted_wrt (<) (map global_seq (Events_values (st_events s))) \<and>
    list_all (\<lambda>e. global_seq e \<le> st_next_position s) (Events_values (st_events s))"
proof -
  have inv: "events_inv h (st_events s) (st_next_position s)"
    using replay_inv[OF assms] by (simp add: state_inv_def)
  let ?xs = "stream_log h (stream_key h stream) (Events_values (st_events s))"
  have "of_stream h (st_events s) stream Unbounded Unbounded = ?xs"
    using of_stream_log[OF inv] by (simp add: in_range_def[abs_def])
  moreover have "map unat (map version ?xs) = [1..<Suc (length ?xs)]"
    using inv by (simp add: events_inv_def gapless_def)
  moreover have "unat (State_head h s stream) = length ?xs"
    using head_length[OF inv] by (simp add: State_head_def)
  moreover have "list_all (\<lambda>e. global_seq e \<le> st_next_position s) (Events_values (st_events s))"
    using inv by (auto simp: events_inv_def Events_values_def list_all_iff)
  ultimately show ?thesis using positions_sorted[OF inv] by simp
qed

text \<open>
  C20. A stream read through the index returns exactly what a scan of the whole store would: the
  events of that tenant, type and id whose version lies in the range, in order, and nothing else.
\<close>

theorem of_stream_is_scan:
  assumes "replay h txs = Inr s" and "keys_injective h"
  shows "of_stream h (st_events s) sid lo hi =
    filter (\<lambda>e. in_stream sid e \<and> in_range lo hi e) (Events_values (st_events s))"
proof -
  have "events_inv h (st_events s) (st_next_position s)"
    using replay_inv[OF assms(1)] by (simp add: state_inv_def)
  from of_stream_log[OF this] show ?thesis
    by (simp add: stream_log_in_stream[OF assms(2)] conj_commute)
qed

text \<open>
  C35. The increment in the version check never wraps: in a replayed state, whenever an event's
  position is above the last one, the stream's head is below \<open>2^64 - 1\<close>, so head plus one is the next
  version and not zero.
\<close>

theorem next_version_never_wraps:
  assumes "replay h txs = Inr s" and "st_next_position s < p"
  shows "unat (Events_head (st_events s) k + 1) = Suc (unat (Events_head (st_events s) k))"
proof -
  have "events_inv h (st_events s) (st_next_position s)"
    using replay_inv[OF assms(1)] by (simp add: state_inv_def)
  from unat_Suc_less[OF head_below_position[OF this assms(2)]] show ?thesis .
qed


subsection \<open>A concrete history\<close>

definition sample_recorded :: "TenantId \<Rightarrow> string \<Rightarrow> u64 \<Rightarrow> u64 \<Rightarrow> RecordedEvent" where
  "sample_recorded t i v p = \<lparr>global_seq = p, tenant = t, stream_type = ''order'', stream_id = i,
     version = v, event_id = dec (unat p), name = ''placed'', schema_version = 1, occurred_at = 7,
     recorded_at = 8, subject = ''u1'', actor = ''a1'', request_id = ''r1'', trace_id = ''t1'',
     causation_id = None, causation_depth = 0, redacted_at = None, data = JObject [], digest = None,
     parents = []\<rparr>"

definition sample_history :: "Op list list" where
  "sample_history =
     [[OpEvent (sample_recorded ''acme'' ''1'' 1 1), OpEvent (sample_recorded ''zeta'' ''1'' 1 2), OpWatermark 2],
      [OpEvent (sample_recorded ''acme'' ''1'' 2 3), OpBlob ''acme'' ''d'' (Some \<lparr>blob_id = ''x'', blob_hash = ''y''\<rparr>),
       OpRow ''acme'' ''tally'' ''k'' (Some JNull), OpRow ''zeta'' ''tally'' ''k'' (Some JNull), OpWatermark 3]]"

definition sample_state :: State where
  "sample_state = (case replay sample_host (map TxOps sample_history) of Inr s \<Rightarrow> s | Inl _ \<Rightarrow> State_default)"

lemma sample_replays: "is_ok (replay sample_host (map TxOps sample_history))"
  by code_simp

lemma sample_replay: "replay sample_host (map TxOps sample_history) = Inr sample_state"
  using sample_replays by (auto simp: sample_state_def split: sum.splits)

lemma sample_text_tail:
  "concat (map (\<lambda>s. sample_json_text (JString s)) xs) @ '']'' =
   concat (map (\<lambda>s. sample_json_text (JString s)) ys) @ '']'' \<Longrightarrow> xs = ys"
proof (induction xs arbitrary: ys)
  case Nil
  then show ?case
    using dec_no_char[of "CHR '']''"] by (cases ys) (auto simp: Cons_eq_append_conv)
next
  case (Cons x xs)
  show ?case
  proof (cases ys)
    case Nil
    with Cons.prems show ?thesis
      using dec_no_char[of "CHR '']''"] by (auto simp: append_eq_Cons_conv)
  next
    case (Cons y zs)
    let ?t = "\<lambda>xs. concat (map (\<lambda>s. sample_json_text (JString s)) xs) @ '']''"
    have "dec (length x) @ CHR '':'' # (x @ ?t xs) = dec (length y) @ CHR '':'' # (y @ ?t zs)"
      using Cons.prems Cons by simp
    then have parts: "dec (length x) = dec (length y) \<and> x @ ?t xs = y @ ?t zs"
      by (rule append_sep_eq[OF dec_no_colon dec_no_colon, THEN iffD1])
    then have "length x = length y" by simp
    with parts have "x = y" and "?t xs = ?t zs"
      by (blast dest: append_eq_append_conv[THEN iffD1, rotated])+
    with Cons.IH Cons show ?thesis by simp
  qed
qed

lemma sample_keys_injective: "keys_injective sample_host"
  unfolding keys_injective_def
  using sample_text_tail by (auto simp: key_def sample_host_def comp_def)

theorem replay_streams_gapless_witness:
  "map (unat \<circ> version) (of_stream sample_host (st_events sample_state) sample_stream Unbounded Unbounded) =
     [1..<Suc (unat (State_head sample_host sample_state sample_stream))]"
  using replay_streams_gapless[OF sample_replay] by blast

theorem of_stream_is_scan_witness:
  "of_stream sample_host (st_events sample_state) sample_stream (Excluded 1) Unbounded =
     filter (\<lambda>e. in_stream sample_stream e \<and> in_range (Excluded 1) Unbounded e)
       (Events_values (st_events sample_state))"
  by (rule of_stream_is_scan[OF sample_replay sample_keys_injective])

lemma sample_next_position: "st_next_position sample_state < 4"
  by code_simp

theorem next_version_never_wraps_witness:
  "unat (Events_head (st_events sample_state) (stream_key sample_host sample_stream) + 1) =
     Suc (unat (Events_head (st_events sample_state) (stream_key sample_host sample_stream)))"
  by (rule next_version_never_wraps[OF sample_replay sample_next_position])

end
