(* ===== verification/Privacy.thy ===== *)
theory Privacy
  imports FileState
begin

text \<open>
  The history rewrites behind \<open>redact\<close> and \<open>forget_tenant\<close> of the file store
  (\<open>crates/eventlog-file/src/lib.rs\<close>). Neither changes the folded state in place: both rewrite the
  committed operations and replay them, so what they erase is what the rewritten history no longer
  says. The section proves that the rewritten history always replays, and to what.
\<close>

section \<open>The rewrites\<close>

text \<open>Rewrite every transaction in turn; one that does not decode stops the loop where it is.\<close>

primrec rewrite_log :: "(Op list \<Rightarrow> Op list) \<Rightarrow> transaction list \<Rightarrow> unit res \<times> transaction list" where
  "rewrite_log f [] = (Inr (), [])"
| "rewrite_log f (tx # txs) = (case tx of
     TxOther error \<Rightarrow> (Inl (Backend error), tx # txs)
   | TxOps ops \<Rightarrow> (case rewrite_log f txs of (r, txs') \<Rightarrow> (r, TxOps (f ops) # txs')))"

definition forget_ops :: "TenantId \<Rightarrow> Op list \<Rightarrow> Op list" where
  "forget_ops t ops = filter (\<lambda>op. op_tenant op \<noteq> Some t) ops"

fun replace_event :: "RecordedEvent \<Rightarrow> Op \<Rightarrow> Op" where
  "replace_event e (OpEvent old) = OpEvent (if event_id old = event_id e then e else old)"
| "replace_event e op = op"

fun derived_of :: "TenantId \<Rightarrow> Op \<Rightarrow> bool" where
  "derived_of t (OpRow u _ _ _) = (u = t)"
| "derived_of t (OpCursor u _ _) = (u = t)"
| "derived_of t _ = False"

definition redact_ops :: "TenantId \<Rightarrow> RecordedEvent \<Rightarrow> Op list \<Rightarrow> Op list" where
  "redact_ops t e ops = filter (\<lambda>op. \<not> derived_of t op) (map (replace_event e) ops)"

lemma rewrite_log_TxOps: "rewrite_log f (map TxOps opss) = (Inr (), map TxOps (map f opss))"
  by (induction opss) auto

lemma concat_forget: "concat (map (forget_ops t) opss) = forget_ops t (concat opss)"
  by (induction opss) (auto simp: forget_ops_def)

lemma concat_redact: "concat (map (redact_ops t e) opss) = redact_ops t e (concat opss)"
  by (induction opss) (auto simp: redact_ops_def)


section \<open>Forgetting a tenant\<close>

text \<open>
  \<open>restricted P m m'\<close>: the map \<open>m'\<close> answers what \<open>m\<close> answers for the keys that satisfy \<open>P\<close>, and nothing
  for the others.
\<close>

definition restricted :: "('k \<Rightarrow> bool) \<Rightarrow> ('k, 'v) btree \<Rightarrow> ('k, 'v) btree \<Rightarrow> bool" where
  "restricted P m m' \<longleftrightarrow> (\<forall>k. bt_get m' k = (if P k then bt_get m k else None))"

lemma restricted_insert [simp]:
  "restricted P m m' \<Longrightarrow> P k \<Longrightarrow> restricted P (bt_insert k v m) (bt_insert k v m')"
  by (simp add: restricted_def bt_simps)

lemma restricted_drop [simp]:
  "restricted P m m' \<Longrightarrow> \<not> P k \<Longrightarrow> restricted P (bt_insert k v m) m'"
  by (auto simp: restricted_def bt_simps)

lemma restricted_remove [simp]: "restricted P m m' \<Longrightarrow> restricted P (bt_remove k m) (bt_remove k m')"
  by (simp add: restricted_def bt_simps)

lemma restricted_drop_remove [simp]:
  "restricted P m m' \<Longrightarrow> \<not> P k \<Longrightarrow> restricted P (bt_remove k m) m'"
  by (auto simp: restricted_def bt_simps)

lemma restricted_retain [simp]: "restricted P m m' \<Longrightarrow> restricted P (bt_retain Q m) (bt_retain Q m')"
  by (simp add: restricted_def bt_simps)

lemma restricted_clear [simp]:
  "restricted (\<lambda>k. fst k \<noteq> t) m m' \<Longrightarrow>
     restricted (\<lambda>k. fst k \<noteq> t) (bt_retain (\<lambda>(t', n', _). t' = t \<longrightarrow> n' \<noteq> n) m) m'"
  by (auto simp: restricted_def bt_simps split: prod.splits)

lemma restricted_Nil [simp]: "restricted P [] []"
  by (simp add: restricted_def)

definition without :: "TenantId \<Rightarrow> (TenantId \<times> string) set \<Rightarrow> (TenantId \<times> string) set \<Rightarrow> bool" where
  "without t d d' \<longleftrightarrow> d' = {v \<in> d. fst v \<noteq> t}"

lemma without_simps [simp]:
  "without t {} {}"
  "without t d d' \<Longrightarrow> fst v \<noteq> t \<Longrightarrow> without t (insert v d) (insert v d')"
  "without t d d' \<Longrightarrow> without t (d - {v}) (d' - {v})"
  "without t d d' \<Longrightarrow> fst v = t \<Longrightarrow> without t (insert v d) d'"
  "without t d d' \<Longrightarrow> fst v = t \<Longrightarrow> without t (d - {v}) d'"
  by (auto simp: without_def)

text \<open>The keys under which something of a tenant is kept.\<close>

definition command_of :: "host \<Rightarrow> TenantId \<Rightarrow> string \<Rightarrow> bool" where
  "command_of h t k \<longleftrightarrow> (\<exists>sid i. sid_tenant sid = t \<and> k = key h [stream_key h sid, i])"

definition claim_of :: "host \<Rightarrow> TenantId \<Rightarrow> string \<Rightarrow> bool" where
  "claim_of h t k \<longleftrightarrow> (\<exists>sc i. k = key h [t, sc, i])"

definition group_of :: "host \<Rightarrow> TenantId \<Rightarrow> string \<Rightarrow> bool" where
  "group_of h t k \<longleftrightarrow> (\<exists>i. k = key h [t, i])"

definition stream_of :: "host \<Rightarrow> TenantId \<Rightarrow> string \<Rightarrow> bool" where
  "stream_of h t k \<longleftrightarrow> (\<exists>sid. sid_tenant sid = t \<and> k = stream_key h sid)"

lemma owned_keys:
  assumes "keys_injective h"
  shows "command_of h t (key h [stream_key h sid, i]) \<longleftrightarrow> sid_tenant sid = t"
    "claim_of h t (key h [u, sc, i]) \<longleftrightarrow> u = t"
    "group_of h t (key h [u, i]) \<longleftrightarrow> u = t"
    "stream_of h t (stream_key h sid) \<longleftrightarrow> sid_tenant sid = t"
  using assms
  by (auto simp: command_of_def claim_of_def group_of_def stream_of_def stream_key_def keys_injectiveD)

text \<open>
  \<open>erased h t owner s s'\<close>: the state \<open>s'\<close> is \<open>s\<close> without anything of tenant \<open>t\<close>. \<open>owner\<close> says which
  tenant, if any, a counter's coordinate belongs to.
\<close>

definition erased_books :: "host \<Rightarrow> TenantId \<Rightarrow> (string \<Rightarrow> TenantId option) \<Rightarrow> State \<Rightarrow> State \<Rightarrow> bool" where
  "erased_books h t owner s s' \<longleftrightarrow>
     restricted (\<lambda>k. \<not> command_of h t k) (st_commands s) (st_commands s') \<and>
     restricted (\<lambda>k. \<not> claim_of h t k) (st_claims s) (st_claims s') \<and>
     restricted (\<lambda>k. \<not> group_of h t k) (st_groups s) (st_groups s') \<and>
     restricted (\<lambda>k. k \<noteq> t) (st_identities s) (st_identities s') \<and>
     restricted (\<lambda>k. \<not> stream_of h t k) (st_generations s) (st_generations s') \<and>
     restricted (\<lambda>k. fst k \<noteq> t) (st_rows s) (st_rows s') \<and>
     restricted (\<lambda>k. fst k \<noteq> t) (st_cursors s) (st_cursors s') \<and>
     restricted (\<lambda>k. fst k \<noteq> t) (st_blobs s) (st_blobs s') \<and>
     restricted (\<lambda>c. owner c \<noteq> Some t) (st_counters s) (st_counters s') \<and>
     st_projections s' = st_projections s \<and>
     without t (st_dirty_views s) (st_dirty_views s')"

definition erased :: "host \<Rightarrow> TenantId \<Rightarrow> (string \<Rightarrow> TenantId option) \<Rightarrow> State \<Rightarrow> State \<Rightarrow> bool" where
  "erased h t owner s s' \<longleftrightarrow>
     Events_values (st_events s') = filter (\<lambda>e. tenant e \<noteq> t) (Events_values (st_events s)) \<and>
     erased_books h t owner s s'"

definition forgotten :: "host \<Rightarrow> TenantId \<Rightarrow> (string \<Rightarrow> TenantId option) \<Rightarrow> State \<Rightarrow> State \<Rightarrow> bool" where
  "forgotten h t owner s s' \<longleftrightarrow> state_inv h s \<and> state_inv h s' \<and>
     st_next_position s' \<le> st_next_position s \<and> erased h t owner s s'"

fun labelled :: "(string \<Rightarrow> TenantId option) \<Rightarrow> Op \<Rightarrow> bool" where
  "labelled owner (OpCounter t c _) = (t = owner c)"
| "labelled owner _ = True"

lemma forgotten_default: "forgotten h t owner State_default State_default"
  by (simp add: forgotten_def erased_def erased_books_def state_inv_default,
      simp add: State_default_def Events_values_def)

lemma erased_books_events [simp]:
  "erased_books h t owner (s\<lparr>st_next_position := n, st_events := ev\<rparr>) s' = erased_books h t owner s s'"
  "erased_books h t owner s (s'\<lparr>st_next_position := n, st_events := ev\<rparr>) = erased_books h t owner s s'"
  by (simp_all add: erased_books_def)

lemma stream_log_other_tenant:
  assumes "keys_injective h" and "tenant e \<noteq> t"
  shows "stream_log h (event_key h e) (filter (\<lambda>d. tenant d \<noteq> t) vs) = stream_log h (event_key h e) vs"
  using assms by (auto simp: stream_log_def event_key_def keys_injectiveD intro!: filter_cong)

lemma forgotten_head:
  assumes "keys_injective h" and "forgotten h t owner s s'" and "tenant e \<noteq> t"
  shows "Events_head (st_events s') (event_key h e) = Events_head (st_events s) (event_key h e)"
proof -
  have "events_inv h (st_events s) (st_next_position s)" "events_inv h (st_events s') (st_next_position s')"
    "Events_values (st_events s') = filter (\<lambda>e. tenant e \<noteq> t) (Events_values (st_events s))"
    using assms(2) by (simp_all add: forgotten_def state_inv_def erased_def)
  then have "unat (Events_head (st_events s') (event_key h e)) =
      unat (Events_head (st_events s) (event_key h e))"
    using stream_log_other_tenant[OF assms(1,3)] by (simp add: head_length)
  then show ?thesis by (rule unsigned_word_eqI)
qed

lemma state_inv_event: "state_inv h s \<Longrightarrow> apply_event h s e = Inr s' \<Longrightarrow> state_inv h s'"
  using state_inv_apply[of h s "OpEvent e" s'] by simp

lemma values_event:
  assumes "state_inv h s" and "apply_event h s e = Inr s'"
  shows "Events_values (st_events s') = Events_values (st_events s) @ [e]"
  using assms values_insert[of h "st_events s" "st_next_position s" e]
  by (auto simp: apply_event_Inr state_inv_def)

lemma forgotten_keep_event:
  assumes inj: "keys_injective h" and rel: "forgotten h t owner s s'" and other: "tenant e \<noteq> t"
    and step: "apply_event h s e = Inr s1"
  shows "\<exists>s1'. apply_event h s' e = Inr s1' \<and> forgotten h t owner s1 s1'"
proof -
  let ?s1' = "s'\<lparr>st_next_position := global_seq e,
    st_events := Events_insert (st_events s') (event_key h e) e\<rparr>"
  have pos: "st_next_position s < global_seq e" and s1: "s1 = s\<lparr>st_next_position := global_seq e,
      st_events := Events_insert (st_events s) (event_key h e) e\<rparr>"
    using step by (simp_all add: apply_event_Inr)
  have pos': "st_next_position s' < global_seq e"
    using rel pos unfolding forgotten_def by (meson le_less_trans)
  have step': "apply_event h s' e = Inr ?s1'"
    using step pos' forgotten_head[OF inj rel other] by (simp add: apply_event_Inr)
  moreover have inv: "state_inv h s" "state_inv h s'" using rel by (simp_all add: forgotten_def)
  moreover note state_inv_event[OF inv(1) step] state_inv_event[OF inv(2) step']
    values_event[OF inv(1) step] values_event[OF inv(2) step']
  ultimately show ?thesis
    using rel other by (simp add: s1 forgotten_def erased_def)
qed

lemma forgotten_drop_event:
  assumes rel: "forgotten h t owner s s'" and "tenant e = t" and step: "apply_event h s e = Inr s1"
  shows "forgotten h t owner s1 s'"
proof -
  have pos: "st_next_position s < global_seq e" and s1: "s1 = s\<lparr>st_next_position := global_seq e,
      st_events := Events_insert (st_events s) (event_key h e) e\<rparr>"
    using step by (simp_all add: apply_event_Inr)
  have pos': "st_next_position s' \<le> global_seq e"
    using rel pos unfolding forgotten_def by (meson le_less_trans less_imp_le)
  have inv: "state_inv h s" using rel by (simp add: forgotten_def)
  show ?thesis
    using values_event[OF inv step] state_inv_event[OF inv step] rel assms(2) pos'
    by (simp add: s1 forgotten_def erased_def)
qed


fun moves_position :: "Op \<Rightarrow> bool" where
  "moves_position (OpEvent _) = True"
| "moves_position (OpWatermark _) = True"
| "moves_position _ = False"

lemma erased_books_keep:
  assumes inj: "keys_injective h" and rel: "erased_books h t owner s s'"
    and op: "op_tenant op \<noteq> Some t" "labelled owner op" "\<not> moves_position op"
    and step: "State_apply h s op = Inr s1"
  shows "\<exists>s1'. State_apply h s' op = Inr s1' \<and> erased_books h t owner s1 s1' \<and>
    st_events s1' = st_events s' \<and> st_events s1 = st_events s \<and>
    st_next_position s1' = st_next_position s' \<and> st_next_position s1 = st_next_position s"
proof (cases op)
  case (OpProjection n ix)
  then show ?thesis using rel step by (auto simp: erased_books_def)
next
  case (OpDirtyView u n d)
  with step have s1: "s1 = s\<lparr>st_dirty_views :=
      (if d then insert (u, n) (st_dirty_views s) else st_dirty_views s - {(u, n)})\<rparr>" by simp
  show ?thesis
    using rel op(1) OpDirtyView by (simp add: s1 erased_books_def)
next
  case (OpRow u n k b)
  then show ?thesis using rel step op by (cases b) (auto simp: erased_books_def)
next
  case (OpBlob u n b)
  then show ?thesis using rel step op by (cases b) (auto simp: erased_books_def)
next
  case (OpClearRows u n)
  then show ?thesis using rel step op by (clarsimp simp: erased_books_def)
next
  case (OpCounter u n v)
  then show ?thesis using rel step op by (clarsimp simp: erased_books_def)
qed (use rel op step in \<open>clarsimp simp: erased_books_def owned_keys[OF inj]\<close>)+

lemma erased_books_drop:
  assumes inj: "keys_injective h" and rel: "erased_books h t owner s s'"
    and op: "op_tenant op = Some t" "labelled owner op" "\<not> moves_position op"
    and step: "State_apply h s op = Inr s1"
  shows "erased_books h t owner s1 s' \<and> st_events s1 = st_events s \<and>
    st_next_position s1 = st_next_position s"
  using rel op step
  by (cases op)
    (auto simp: erased_books_def owned_keys[OF inj] split: option.splits if_splits)

lemma forgotten_watermark:
  assumes "forgotten h t owner s s'"
  shows "forgotten h t owner (s\<lparr>st_next_position := max (st_next_position s) p\<rparr>)
    (s'\<lparr>st_next_position := max (st_next_position s') p\<rparr>)"
proof -
  have "state_inv h (s\<lparr>st_next_position := max (st_next_position s) p\<rparr>)" if "state_inv h s" for s
    using that state_inv_apply[of h s "OpWatermark p"] by simp
  moreover have "max (st_next_position s') p \<le> max (st_next_position s) p"
    using assms by (intro max.mono) (simp_all add: forgotten_def)
  moreover have "erased h t owner (s\<lparr>st_next_position := max (st_next_position s) p\<rparr>)
    (s'\<lparr>st_next_position := max (st_next_position s') p\<rparr>)"
    using assms by (simp add: forgotten_def erased_def erased_books_def)
  ultimately show ?thesis using assms by (simp add: forgotten_def)
qed

lemma forgotten_other:
  assumes inj: "keys_injective h" and rel: "forgotten h t owner s s'" and lab: "labelled owner op"
    and op: "\<not> moves_position op" and step: "State_apply h s op = Inr s1"
  shows "\<exists>s1'. try_fold (State_apply h) s' (forget_ops t [op]) = Inr s1' \<and> forgotten h t owner s1 s1'"
proof -
  have books: "erased_books h t owner s s'" and inv: "state_inv h s" "state_inv h s'"
    using rel by (simp_all add: forgotten_def erased_def)
  have inv1: "state_inv h s1" using inv(1) step by (rule state_inv_apply)
  show ?thesis
  proof (cases "op_tenant op = Some t")
    case True
    from erased_books_drop[OF inj books True lab op step] rel inv1 True show ?thesis
      by (simp add: forget_ops_def forgotten_def erased_def)
  next
    case False
    then obtain s1' where s1': "State_apply h s' op = Inr s1'" "erased_books h t owner s1 s1'"
      "st_events s1' = st_events s'" "st_events s1 = st_events s"
      "st_next_position s1' = st_next_position s'" "st_next_position s1 = st_next_position s"
      using erased_books_keep[OF inj books False lab op step] by blast
    from s1' state_inv_apply[OF inv(2) s1'(1)] rel inv1 False show ?thesis
      by (simp add: forget_ops_def forgotten_def erased_def)
  qed
qed

lemma forgotten_step:
  assumes inj: "keys_injective h" and rel: "forgotten h t owner s s'" and lab: "labelled owner op"
    and step: "State_apply h s op = Inr s1"
  shows "\<exists>s1'. try_fold (State_apply h) s' (forget_ops t [op]) = Inr s1' \<and> forgotten h t owner s1 s1'"
proof (cases op)
  case (OpEvent e)
  with step have "apply_event h s e = Inr s1" by simp
  with OpEvent forgotten_keep_event[OF inj rel] forgotten_drop_event[OF rel] show ?thesis
    by (cases "tenant e = t") (fastforce simp: forget_ops_def)+
next
  case (OpWatermark p)
  with step forgotten_watermark[OF rel, of p] show ?thesis by (auto simp: forget_ops_def)
qed (use forgotten_other[OF inj rel lab _ step] in simp_all)


lemma forget_ops_Cons: "forget_ops t (op # ops) = forget_ops t [op] @ forget_ops t ops"
  by (simp add: forget_ops_def)

lemma forgotten_fold:
  assumes "keys_injective h" and "try_fold (State_apply h) s ops = Inr s1"
    and "forgotten h t owner s s'" and "list_all (labelled owner) ops"
  shows "\<exists>s1'. try_fold (State_apply h) s' (forget_ops t ops) = Inr s1' \<and> forgotten h t owner s1 s1'"
  using assms(2-4)
proof (induction ops arbitrary: s s')
  case Nil
  then show ?case by (auto simp: forget_ops_def)
next
  case (Cons op ops)
  from Cons.prems(1) obtain s2 where step: "State_apply h s op = Inr s2"
    and rest: "try_fold (State_apply h) s2 ops = Inr s1" by (auto simp: andthen_Inr_iff)
  obtain s2' where s2': "try_fold (State_apply h) s' (forget_ops t [op]) = Inr s2'"
    "forgotten h t owner s2 s2'"
    using forgotten_step[OF assms(1) Cons.prems(2) _ step] Cons.prems(3) by auto
  from Cons.IH[OF rest s2'(2)] Cons.prems(3) obtain s1' where
    "try_fold (State_apply h) s2' (forget_ops t ops) = Inr s1'" "forgotten h t owner s1 s1'"
    by auto
  with s2'(1) show ?case
    by (subst forget_ops_Cons) (auto simp: try_fold_append)
qed

fun tx_ops :: "transaction \<Rightarrow> Op list" where
  "tx_ops (TxOps ops) = ops"
| "tx_ops (TxOther _) = []"

lemma concat_tx_ops [simp]: "concat (map (tx_ops \<circ> TxOps) opss) = concat opss"
  by (induction opss) auto

text \<open>The rewritten history of a forgotten tenant replays, to the state without that tenant.\<close>

lemma forget_rewrite:
  assumes inj: "keys_injective h" and rep: "replay h txs = Inr s"
    and lab: "list_all (labelled owner) (concat (map tx_ops txs))"
  shows "\<exists>txs' s'. rewrite_log (forget_ops t) txs = (Inr (), txs') \<and> replay h txs' = Inr s' \<and>
    erased h t owner s s'"
proof -
  obtain opss where txs: "txs = map TxOps opss"
    and fold: "try_fold (State_apply h) State_default (concat opss) = Inr s"
    using rep by (auto simp: replay_fold)
  obtain s' where "try_fold (State_apply h) State_default (forget_ops t (concat opss)) = Inr s'"
    "forgotten h t owner s s'"
    using forgotten_fold[OF inj fold forgotten_default] lab txs by auto
  then have "replay h (map TxOps (map (forget_ops t) opss)) = Inr s'" "erased h t owner s s'"
    by (simp_all only: replay_TxOps concat_forget forgotten_def)
  then show ?thesis using rewrite_log_TxOps[of "forget_ops t" opss] txs by blast
qed


section \<open>Redacting an event\<close>

definition repl :: "RecordedEvent \<Rightarrow> RecordedEvent \<Rightarrow> RecordedEvent" where
  "repl e d = (if event_id d = event_id e then e else d)"

text \<open>The new event may replace only one at the same place in history.\<close>

definition same_place :: "RecordedEvent \<Rightarrow> RecordedEvent \<Rightarrow> bool" where
  "same_place e d \<longleftrightarrow> global_seq e = global_seq d \<and> version e = version d \<and> tenant e = tenant d \<and>
     stream_type e = stream_type d \<and> stream_id e = stream_id d"

fun fits :: "RecordedEvent \<Rightarrow> Op \<Rightarrow> bool" where
  "fits e (OpEvent d) = (event_id d = event_id e \<longrightarrow> same_place e d)"
| "fits e _ = True"

text \<open>
  \<open>redacted t e s s'\<close>: \<open>s'\<close> has \<open>e\<close> in place of the event of that id, no row and no cursor of tenant
  \<open>t\<close>, and is otherwise \<open>s\<close>.
\<close>

definition redacted_books :: "TenantId \<Rightarrow> State \<Rightarrow> State \<Rightarrow> bool" where
  "redacted_books t s s' \<longleftrightarrow>
     st_commands s' = st_commands s \<and> st_claims s' = st_claims s \<and> st_groups s' = st_groups s \<and>
     st_identities s' = st_identities s \<and> st_generations s' = st_generations s \<and>
     st_projections s' = st_projections s \<and> st_dirty_views s' = st_dirty_views s \<and>
     restricted (\<lambda>k. fst k \<noteq> t) (st_rows s) (st_rows s') \<and>
     restricted (\<lambda>k. fst k \<noteq> t) (st_cursors s) (st_cursors s') \<and>
     st_blobs s' = st_blobs s \<and> st_counters s' = st_counters s"

definition redacted :: "TenantId \<Rightarrow> RecordedEvent \<Rightarrow> State \<Rightarrow> State \<Rightarrow> bool" where
  "redacted t e s s' \<longleftrightarrow>
     Events_values (st_events s') = map (repl e) (Events_values (st_events s)) \<and>
     st_next_position s' = st_next_position s \<and> redacted_books t s s'"

definition redacting :: "host \<Rightarrow> TenantId \<Rightarrow> RecordedEvent \<Rightarrow> State \<Rightarrow> State \<Rightarrow> bool" where
  "redacting h t e s s' \<longleftrightarrow> state_inv h s \<and> state_inv h s' \<and> redacted t e s s' \<and>
     list_all (\<lambda>d. event_id d = event_id e \<longrightarrow> same_place e d) (Events_values (st_events s))"

lemma repl_same:
  assumes "event_id d = event_id e \<longrightarrow> same_place e d"
  shows "global_seq (repl e d) = global_seq d" "version (repl e d) = version d"
    "stream_type (repl e d) = stream_type d" "stream_id (repl e d) = stream_id d"
    "event_key h (repl e d) = event_key h d"
  using assms by (auto simp: repl_def same_place_def event_key_def)

lemma redacted_books_events [simp]:
  "redacted_books t (s\<lparr>st_next_position := n, st_events := ev\<rparr>)
     (s'\<lparr>st_next_position := n', st_events := ev'\<rparr>) = redacted_books t s s'"
  by (simp add: redacted_books_def)

lemma redacting_head:
  assumes "redacting h t e s s'"
  shows "Events_head (st_events s') k = Events_head (st_events s) k"
proof -
  have inv: "events_inv h (st_events s) (st_next_position s)" "events_inv h (st_events s') (st_next_position s')"
    and vals: "Events_values (st_events s') = map (repl e) (Events_values (st_events s))"
    and place: "list_all (\<lambda>d. event_id d = event_id e \<longrightarrow> same_place e d) (Events_values (st_events s))"
    using assms unfolding redacting_def redacted_def state_inv_def by blast+
  have "length (stream_log h k (map (repl e) xs)) = length (stream_log h k xs)"
    if "list_all (\<lambda>d. event_id d = event_id e \<longrightarrow> same_place e d) xs" for xs
    using that by (induction xs) (simp_all add: stream_log_def repl_same)
  from this[OF place] have "unat (Events_head (st_events s') k) = unat (Events_head (st_events s) k)"
    by (simp add: head_length[OF inv(1)] head_length[OF inv(2)] vals)
  then show ?thesis by (rule unsigned_word_eqI)
qed

lemma redacting_event:
  assumes rel: "redacting h t e s s'" and step: "apply_event h s d = Inr s1" and "fits e (OpEvent d)"
  shows "\<exists>s1'. apply_event h s' (repl e d) = Inr s1' \<and> redacting h t e s1 s1'"
proof -
  have place: "event_id d = event_id e \<longrightarrow> same_place e d" using assms(3) by simp
  note same = repl_same[OF place]
  have s1: "s1 = s\<lparr>st_next_position := global_seq d,
      st_events := Events_insert (st_events s) (event_key h d) d\<rparr>"
    using step by (simp add: apply_event_Inr)
  let ?s1' = "s'\<lparr>st_next_position := global_seq d,
      st_events := Events_insert (st_events s') (event_key h d) (repl e d)\<rparr>"
  have inv: "state_inv h s" "state_inv h s'" and nxt: "st_next_position s' = st_next_position s"
    using rel by (simp_all add: redacting_def redacted_def)
  have step': "apply_event h s' (repl e d) = Inr ?s1'"
    using step redacting_head[OF rel] by (simp add: apply_event_Inr same nxt)
  from state_inv_event[OF inv(1) step] state_inv_event[OF inv(2) step']
    values_event[OF inv(1) step] values_event[OF inv(2) step'] rel place
  have "redacting h t e s1 ?s1'"
    by (simp add: redacting_def redacted_def s1)
  with step' show ?thesis by blast
qed


lemma redacting_other:
  assumes rel: "redacting h t e s s'" and op: "\<not> moves_position op" and step: "State_apply h s op = Inr s1"
  shows "\<exists>s1'. try_fold (State_apply h) s' (redact_ops t e [op]) = Inr s1' \<and> redacting h t e s1 s1'"
proof -
  have inv: "state_inv h s" "state_inv h s'" and books: "redacted_books t s s'"
    using rel by (simp_all add: redacting_def redacted_def)
  have "\<exists>s1'. try_fold (State_apply h) s' (redact_ops t e [op]) = Inr s1' \<and> redacted_books t s1 s1' \<and>
      st_events s1 = st_events s \<and> st_events s1' = st_events s' \<and>
      st_next_position s1 = st_next_position s \<and> st_next_position s1' = st_next_position s'"
  proof (cases op)
    case (OpRow u n k b)
    then show ?thesis
      using books step by (cases b; cases "u = t") (clarsimp simp: redacted_books_def redact_ops_def)+
  next
    case (OpCursor u n p)
    then show ?thesis
      using books step by (cases "u = t") (clarsimp simp: redacted_books_def redact_ops_def)+
  next
    case (OpProjection n ix)
    have "st_projections s' = st_projections s" using books by (simp add: redacted_books_def)
    with step OpProjection
    have "State_apply h s' op = Inr (s'\<lparr>st_projections := bt_insert n ix (st_projections s)\<rparr>)"
      and "s1 = s\<lparr>st_projections := bt_insert n ix (st_projections s)\<rparr>"
      by (simp_all split: if_splits)
    then show ?thesis using books OpProjection by (simp add: redact_ops_def redacted_books_def)
  next
    case (OpBlob u d b)
    then show ?thesis
      using books step by (cases b) (clarsimp simp: redacted_books_def redact_ops_def)+
  next
    case (OpEvent d)
    then show ?thesis using op by simp
  next
    case (OpWatermark p)
    then show ?thesis using op by simp
  qed (use books step in \<open>clarsimp simp: redacted_books_def redact_ops_def\<close>)+
  then obtain s1' where s1': "try_fold (State_apply h) s' (redact_ops t e [op]) = Inr s1'"
    "redacted_books t s1 s1'" "st_events s1 = st_events s" "st_events s1' = st_events s'"
    "st_next_position s1 = st_next_position s" "st_next_position s1' = st_next_position s'"
    by blast
  from s1' rel fs.steps_inv[OF inv(2) s1'(1)] state_inv_apply[OF inv(1) step] show ?thesis
    by (simp add: redacting_def redacted_def)
qed

lemma redacting_step:
  assumes rel: "redacting h t e s s'" and fit: "fits e op" and step: "State_apply h s op = Inr s1"
  shows "\<exists>s1'. try_fold (State_apply h) s' (redact_ops t e [op]) = Inr s1' \<and> redacting h t e s1 s1'"
proof (cases op)
  case (OpEvent d)
  with step have "apply_event h s d = Inr s1" by simp
  from redacting_event[OF rel this] fit OpEvent obtain s1' where
    "apply_event h s' (repl e d) = Inr s1'" "redacting h t e s1 s1'" by auto
  with OpEvent show ?thesis by (simp add: redact_ops_def repl_def)
next
  case (OpWatermark p)
  let ?m = "\<lambda>s. s\<lparr>st_next_position := max (st_next_position s) p\<rparr>"
  have "state_inv h (?m s)" if "state_inv h s" for s
    using that state_inv_apply[of h s "OpWatermark p"] by simp
  then have "state_inv h (?m s)" "state_inv h (?m s')" using rel by (simp_all add: redacting_def)
  moreover have "redacted t e (?m s) (?m s')"
    using rel by (simp add: redacting_def redacted_def redacted_books_def)
  ultimately have "redacting h t e (?m s) (?m s')"
    using rel by (simp add: redacting_def)
  with OpWatermark step show ?thesis by (simp add: redact_ops_def)
qed (use redacting_other[OF rel _ step] in simp_all)

lemma redact_ops_Cons: "redact_ops t e (op # ops) = redact_ops t e [op] @ redact_ops t e ops"
  by (simp add: redact_ops_def)

lemma redacting_fold:
  assumes "try_fold (State_apply h) s ops = Inr s1" and "redacting h t e s s'" and "list_all (fits e) ops"
  shows "\<exists>s1'. try_fold (State_apply h) s' (redact_ops t e ops) = Inr s1' \<and> redacting h t e s1 s1'"
  using assms
proof (induction ops arbitrary: s s')
  case Nil
  then show ?case by (auto simp: redact_ops_def)
next
  case (Cons op ops)
  from Cons.prems(1) obtain s2 where step: "State_apply h s op = Inr s2"
    and rest: "try_fold (State_apply h) s2 ops = Inr s1" by (auto simp: andthen_Inr_iff)
  obtain s2' where s2': "try_fold (State_apply h) s' (redact_ops t e [op]) = Inr s2'"
    "redacting h t e s2 s2'"
    using redacting_step[OF Cons.prems(2) _ step] Cons.prems(3) by auto
  from Cons.IH[OF rest s2'(2)] Cons.prems(3) obtain s1' where
    "try_fold (State_apply h) s2' (redact_ops t e ops) = Inr s1'" "redacting h t e s1 s1'"
    by auto
  with s2'(1) show ?case
    by (subst redact_ops_Cons) (auto simp: try_fold_append)
qed

lemma redacting_default: "redacting h t e State_default State_default"
  by (simp add: redacting_def redacted_def redacted_books_def state_inv_default,
      simp add: State_default_def Events_values_def)

text \<open>The rewritten history of a redaction replays, to the state with the event replaced.\<close>

lemma redact_rewrite:
  assumes rep: "replay h txs = Inr s" and fit: "list_all (fits e) (concat (map tx_ops txs))"
  shows "\<exists>txs' s'. rewrite_log (redact_ops t e) txs = (Inr (), txs') \<and> replay h txs' = Inr s' \<and>
    redacted t e s s'"
proof -
  obtain opss where txs: "txs = map TxOps opss"
    and fold: "try_fold (State_apply h) State_default (concat opss) = Inr s"
    using rep by (auto simp: replay_fold)
  obtain s' where "try_fold (State_apply h) State_default (redact_ops t e (concat opss)) = Inr s'"
    "redacting h t e s s'"
    using redacting_fold[OF fold redacting_default] fit txs by auto
  then have "replay h (map TxOps (map (redact_ops t e) opss)) = Inr s'" "redacted t e s s'"
    by (simp_all only: replay_TxOps concat_redact redacting_def)
  then show ?thesis using rewrite_log_TxOps[of "redact_ops t e" opss] txs by blast
qed

end
