(* ===== verification/Projection.thy ===== *)
theory Projection
  imports Admission Blobs
begin

text \<open>
  Read models (\<open>crates/eventlog-core/src/projection.rs\<close>) and the default paging of
  \<open>EventStore::projection_page\<close> (\<open>lib.rs\<close>). A guard or projector is a program over the calls of
  \<open>ProjectionStore\<close>: it receives each call's result, error included, and decides what to do next.
\<close>

section \<open>Specifications\<close>

record ProjectionSpec =
  spec_name :: string
  spec_indexed :: "string list"

definition MAX_INDEXED_FIELDS :: nat where "MAX_INDEXED_FIELDS = 8"

definition is_ascii_lowercase :: "char \<Rightarrow> bool" where
  "is_ascii_lowercase c = (97 \<le> (of_char c :: nat) \<and> (of_char c :: nat) \<le> 122)"

definition validate_identifier :: "string \<Rightarrow> string \<Rightarrow> unit res" where
  "validate_identifier what value =
     (if value = [] \<or> length value > 40 \<or>
         \<not> list_all (\<lambda>b. is_ascii_lowercase b \<or> is_ascii_digit b \<or> b = CHR ''_'') value \<or>
         is_ascii_digit (hd value)
      then Inl (Invalid (what @ '' is lowercase ASCII, digits and underscores, not starting with a digit''))
      else Inr ())"

definition ProjectionSpec_validate :: "ProjectionSpec \<Rightarrow> unit res" where
  "ProjectionSpec_validate s =
     andthen (validate_identifier ''projection name'' (spec_name s)) (\<lambda>_.
       if length (spec_indexed s) > MAX_INDEXED_FIELDS
       then Inl (Invalid (''a projection may declare at most '' @ dec MAX_INDEXED_FIELDS @ '' indexed fields''))
       else checks (map (validate_identifier ''indexed field'') (spec_indexed s)))"

fun position_of :: "'a \<Rightarrow> 'a list \<Rightarrow> nat option" where
  "position_of x [] = None"
| "position_of x (y # ys) = (if y = x then Some 0 else map_option Suc (position_of x ys))"

definition field_position :: "ProjectionSpec \<Rightarrow> string \<Rightarrow> nat option" where
  "field_position s field = position_of field (spec_indexed s)"

definition indexed_value :: "host \<Rightarrow> json \<Rightarrow> string \<Rightarrow> string option" where
  "indexed_value h body field = (case json_get body field of
     Some (JString v) \<Rightarrow> Some v
   | Some JNull \<Rightarrow> None
   | None \<Rightarrow> None
   | Some other \<Rightarrow> Some (json_text h other))"


section \<open>Callbacks\<close>

datatype prog =
    Done "unit res"
  | Reserve AdmissionPermit "Reservation list" "int list res \<Rightarrow> prog"
  | GetBlob string "bytes option res \<Rightarrow> prog"
  | Upsert ProjectionSpec TenantId string json "unit res \<Rightarrow> prog"
  | Delete ProjectionSpec TenantId string "unit res \<Rightarrow> prog"
  | Get ProjectionSpec TenantId string "json option res \<Rightarrow> prog"
  | GetForUpdate ProjectionSpec TenantId string "json option res \<Rightarrow> prog"
  | Find ProjectionSpec TenantId string string nat "json list res \<Rightarrow> prog"

type_synonym Guard = prog

definition NoGuard :: Guard where
  "NoGuard = Done (Inr ())"

record Projector =
  pj_name :: string
  pj_projections :: "ProjectionSpec list"
  pj_apply :: "RecordedEvent \<Rightarrow> prog"

record CatchUpProgress =
  applied :: u64
  cu_position :: u64
  more_waiting :: bool


section \<open>Paging\<close>

text \<open>\<open>list after limit\<close> is the provider's \<open>projection_list\<close> for one projection and tenant.\<close>

fun page_rows :: "string \<Rightarrow> nat \<Rightarrow> (string \<times> json) list \<Rightarrow> (string \<times> json) list \<Rightarrow>
    (string \<times> json) list \<times> bool" where
  "page_rows prefix limit rows [] = (rows, False)"
| "page_rows prefix limit rows (r # rs) =
     (if \<not> starts_with (fst r) prefix then (rows, False)
      else if length rows = limit then (rows, True)
      else page_rows prefix limit (rows @ [r]) rs)"

definition projection_page ::
  "(string option \<Rightarrow> nat \<Rightarrow> (string \<times> json) list res) \<Rightarrow> string option \<Rightarrow> string option \<Rightarrow> nat \<Rightarrow>
   ProjectionPage res" where
  "projection_page list pre cursor limit =
     (let limit = bounded_limit limit;
          prefix = (case pre of None \<Rightarrow> [] | Some p \<Rightarrow> p);
          after = (case cursor of None \<Rightarrow> prefix | Some c \<Rightarrow> c)
      in andthen (list (Some after) (limit + 1)) (\<lambda>fetched.
        let (rows, more) = page_rows prefix limit [] fetched
        in Inr \<lparr>pp_rows = rows, next_cursor = (if more \<and> rows \<noteq> [] then Some (fst (last rows)) else None)\<rparr>))"

text \<open>A client that follows the cursors, for at most \<open>fuel\<close> pages.\<close>

fun read_pages ::
  "(string option \<Rightarrow> nat \<Rightarrow> (string \<times> json) list res) \<Rightarrow> string option \<Rightarrow> nat \<Rightarrow> nat \<Rightarrow> string option \<Rightarrow>
   (string \<times> json) list res option" where
  "read_pages list pre limit 0 cursor = None"
| "read_pages list pre limit (Suc fuel) cursor = (case projection_page list pre cursor limit of
     Inl e \<Rightarrow> Some (Inl e)
   | Inr page \<Rightarrow> (case next_cursor page of
       None \<Rightarrow> Some (Inr (pp_rows page))
     | Some c \<Rightarrow> map_option (\<lambda>r. andthen r (\<lambda>rows. Inr (pp_rows page @ rows)))
         (read_pages list pre limit fuel (Some c))))"

lemma page_rows_take:
  assumes "length rows \<le> limit"
  shows "page_rows prefix limit rows fetched =
    (let own = takeWhile (\<lambda>r. starts_with (fst r) prefix) fetched in
     (rows @ take (limit - length rows) own, length rows + length own > limit))"
  using assms
proof (induction fetched arbitrary: rows)
  case (Cons r rs)
  show ?case
  proof (cases "starts_with (fst r) prefix \<and> length rows \<noteq> limit")
    case True
    with Cons.prems have "limit - length rows = Suc (limit - Suc (length rows))" by linarith
    with True Cons show ?thesis by (simp add: Let_def)
  next
    case False
    with Cons.prems show ?thesis by (auto simp: Let_def)
  qed
qed simp

text \<open>The keys that start with a prefix are contiguous in the order of strings.\<close>

lemma prefix_interval:
  fixes a b p :: string
  assumes "p \<le> a" and "a \<le> b" and "starts_with b p"
  shows "starts_with a p"
  using assms
proof (induction p arbitrary: a b)
  case (Cons c p)
  from Cons.prems(3) obtain b' where b: "b = c # p @ b'" by (auto simp: starts_with_iff)
  from Cons.prems(1) obtain d a' where a: "a = d # a'" by (cases a) auto
  have "c = d" and "p \<le> a'" and "a' \<le> p @ b'"
    using Cons.prems(1,2) by (auto simp: a b)
  with Cons.IH[of a' "p @ b'"] show ?case by (simp add: a starts_with_def)
qed simp

lemma sorted_prefix_takeWhile:
  fixes rs :: "(string \<times> 'v) list"
  assumes "sorted_wrt (<) (map fst rs)" and "\<And>r. r \<in> set rs \<Longrightarrow> p \<le> fst r"
  shows "takeWhile (\<lambda>r. starts_with (fst r) p) rs = filter (\<lambda>r. starts_with (fst r) p) rs"
  using assms
proof (induction rs)
  case (Cons r rs)
  have "filter (\<lambda>r. starts_with (fst r) p) rs = []" if "\<not> starts_with (fst r) p"
    using Cons.prems that prefix_interval[of p "fst r"]
    by (fastforce simp: filter_empty_conv dest: less_imp_le)
  with Cons show ?case by auto
qed simp


lemma filter_above_last:
  fixes f :: "'a \<Rightarrow> 'b::order"
  assumes "sorted_wrt (<) (map f xs)" and "0 < n" and "n \<le> length xs" and "c = f (last (take n xs))"
  shows "filter (\<lambda>r. c < f r) xs = drop n xs"
proof -
  obtain ys z where ys: "take n xs = ys @ [z]"
    using assms(2,3) by (cases "take n xs" rule: rev_cases) auto
  obtain zs where zs: "drop n xs = zs" by blast
  have xs: "xs = ys @ z # zs"
    using append_take_drop_id[of n xs] by (simp add: ys zs)
  have "\<forall>r \<in> set ys. f r < f z" "\<forall>r \<in> set zs. f z < f r"
    using assms(1) by (auto simp: xs sorted_wrt_append)
  then have "filter (\<lambda>r. f z < f r) ys = []" "filter (\<lambda>r. f z < f r) zs = zs"
    by (auto simp: filter_empty_conv filter_id_conv dest: order_less_asym)
  then have "filter (\<lambda>r. f z < f r) (ys @ z # zs) = zs" by simp
  moreover have "c = f z" using assms(4) by (simp add: ys)
  ultimately show ?thesis by (simp only: xs[symmetric] zs)
qed

text \<open>
  What the paging relies on in a provider, in the states that admit the projection: it lists the rows
  above a key in ascending key order, at most \<open>MAX_READ_LIMIT\<close> of them whatever the caller asks.
\<close>

locale projection_reader =
  fixes list :: "'s \<Rightarrow> string option \<Rightarrow> nat \<Rightarrow> (string \<times> json) list res"
    and rows :: "'s \<Rightarrow> (string \<times> json) list"
    and admits :: "'s \<Rightarrow> bool"
  assumes rows_sorted: "admits s \<Longrightarrow> sorted_wrt (<) (map fst (rows s))"
    and list_above: "admits s \<Longrightarrow> list s (Some a) n = Inr (take (bounded_limit n) (filter (\<lambda>r. a < fst r) (rows s)))"
begin

text \<open>The rows of a prefix that come after a key.\<close>

abbreviation remaining :: "'s \<Rightarrow> string \<Rightarrow> string \<Rightarrow> (string \<times> json) list" where
  "remaining s p a \<equiv> filter (\<lambda>r. starts_with (fst r) p \<and> a < fst r) (rows s)"

lemma above_takeWhile:
  assumes "admits s" and "p \<le> a"
  shows "takeWhile (\<lambda>r. starts_with (fst r) p) (filter (\<lambda>r. a < fst r) (rows s)) = remaining s p a"
proof -
  have "sorted_wrt (<) (map fst (filter (\<lambda>r. a < fst r) (rows s)))"
    using rows_sorted[OF assms(1)] by (rule sorted_wrt_filter_map)
  moreover have "p \<le> fst r" if "r \<in> set (filter (\<lambda>r. a < fst r) (rows s))" for r
    using that assms(2) by auto
  ultimately have "takeWhile (\<lambda>r. starts_with (fst r) p) (filter (\<lambda>r. a < fst r) (rows s)) =
      filter (\<lambda>r. starts_with (fst r) p) (filter (\<lambda>r. a < fst r) (rows s))"
    by (rule sorted_prefix_takeWhile)
  then show ?thesis by (simp add: conj_commute)
qed

lemma page_below_limit:
  assumes "admits s" and "1 \<le> limit" and "limit < MAX_READ_LIMIT" and "prefix \<le> after"
    and "after = (case cursor of None \<Rightarrow> prefix | Some c \<Rightarrow> c)"
  shows "projection_page (list s) (Some prefix) cursor limit =
    Inr \<lparr>pp_rows = take limit (remaining s prefix after),
         next_cursor = (if length (remaining s prefix after) > limit
           then Some (fst (last (take limit (remaining s prefix after)))) else None)\<rparr>"
proof -
  let ?own = "remaining s prefix after"
  have bounds: "bounded_limit limit = limit" "bounded_limit (limit + 1) = limit + 1"
    using assms(2,3) by (simp_all add: bounded_limit_def)
  have "takeWhile (\<lambda>r. starts_with (fst r) prefix) (take (limit + 1) (filter (\<lambda>r. after < fst r) (rows s))) =
      take (limit + 1) ?own"
    by (simp only: takeWhile_take above_takeWhile[OF assms(1,4)])
  moreover have "limit < length (take (limit + 1) ?own) \<longleftrightarrow> limit < length ?own" by auto
  moreover have "take limit (take (limit + 1) ?own) = take limit ?own" by simp
  moreover have "limit < length ?own \<Longrightarrow> take limit ?own \<noteq> []" using assms(2) by auto
  ultimately show ?thesis
    unfolding projection_page_def Let_def bounds option.case assms(5)[symmetric] list_above[OF assms(1)]
    by (simp add: page_rows_take Let_def del: take_take length_take)
qed

text \<open>A page of \<open>MAX_READ_LIMIT\<close> rows or more asks for a row the provider never gives, and names no cursor.\<close>

lemma page_at_limit:
  assumes "admits s" and "MAX_READ_LIMIT \<le> limit" and "prefix \<le> after"
    and "after = (case cursor of None \<Rightarrow> prefix | Some c \<Rightarrow> c)"
  shows "projection_page (list s) (Some prefix) cursor limit =
    Inr \<lparr>pp_rows = take MAX_READ_LIMIT (remaining s prefix after), next_cursor = None\<rparr>"
proof -
  let ?own = "remaining s prefix after"
  have bounds: "bounded_limit limit = MAX_READ_LIMIT" "bounded_limit (MAX_READ_LIMIT + 1) = MAX_READ_LIMIT"
    using assms(2) by (simp_all add: bounded_limit_def MAX_READ_LIMIT_def)
  have "takeWhile (\<lambda>r. starts_with (fst r) prefix) (take MAX_READ_LIMIT (filter (\<lambda>r. after < fst r) (rows s))) =
      take MAX_READ_LIMIT ?own"
    by (simp only: takeWhile_take above_takeWhile[OF assms(1,3)])
  then show ?thesis
    unfolding projection_page_def Let_def bounds option.case assms(4)[symmetric] list_above[OF assms(1)]
    by (simp add: page_rows_take Let_def)
qed

lemma remaining_next:
  assumes "admits s" and "0 < n" and "n \<le> length (remaining s p a)" and "c = fst (last (take n (remaining s p a)))"
  shows "remaining s p c = drop n (remaining s p a)" and "a < c"
proof -
  have sorted: "sorted_wrt (<) (map fst (remaining s p a))"
    using rows_sorted[OF assms(1)] by (rule sorted_wrt_filter_map)
  obtain ys z where "take n (remaining s p a) = ys @ [z]"
    using assms(2,3) by (cases "take n (remaining s p a)" rule: rev_cases) auto
  then have "z \<in> set (take n (remaining s p a))" and c: "c = fst z"
    using assms(4) by simp_all
  then have "z \<in> set (remaining s p a)" by (blast dest: in_set_takeD)
  with c show ac: "a < c" by simp
  have "remaining s p c = filter (\<lambda>r. c < fst r) (remaining s p a)"
    using ac by (auto intro!: filter_cong)
  also have "\<dots> = drop n (remaining s p a)"
    by (rule filter_above_last[OF sorted assms(2-4)])
  finally show "remaining s p c = drop n (remaining s p a)" .
qed

lemma pages_complete:
  assumes "admits s" and "1 \<le> limit" and "limit < MAX_READ_LIMIT" and "prefix \<le> after"
    and "after = (case cursor of None \<Rightarrow> prefix | Some c \<Rightarrow> c)"
    and "length (remaining s prefix after) < fuel"
  shows "read_pages (list s) (Some prefix) limit fuel cursor = Some (Inr (remaining s prefix after))"
  using assms(4-6)
proof (induction fuel arbitrary: cursor after)
  case (Suc fuel)
  let ?xs = "remaining s prefix after"
  note page = page_below_limit[OF assms(1-3) Suc.prems(1,2)]
  show ?case
  proof (cases "length ?xs > limit")
    case True
    let ?c = "fst (last (take limit ?xs))"
    have rest: "remaining s prefix ?c = drop limit ?xs" and "after < ?c"
      using remaining_next[OF assms(1), of limit prefix after ?c] True assms(2) by simp_all
    have "prefix \<le> ?c" using \<open>after < ?c\<close> Suc.prems(1) by simp
    from Suc.IH[OF this, of "Some ?c"] rest Suc.prems(3) assms(2) True
    have "read_pages (list s) (Some prefix) limit fuel (Some ?c) = Some (Inr (drop limit ?xs))" by simp
    then show ?thesis by (simp add: page True)
  qed (simp add: page)
qed simp

end

end
