(* ===== verification/FileTxn.thy ===== *)
theory FileTxn
  imports Privacy Projection
begin

text \<open>
  One transaction of the file store (\<open>Transaction\<close> in \<open>crates/eventlog-file/src/lib.rs\<close> and the
  \<open>View\<close> of \<open>projection.rs\<close>): the folded state it reads, the operations it records, the object files
  it writes, and the calls a guard or projector may make. Every method is a command over the
  transaction. Input and output that fails for reasons outside the store (a full disk, a missing
  permission) is not modelled; an object file that is absent or differs is.
\<close>

section \<open>The transaction\<close>

text \<open>
  \<open>tx_objects\<close> is the object directory, \<open>tx_cache\<close> the snapshot cache (a file that does not decode is
  \<open>None\<close>), \<open>tx_tick\<close> counts the calls of the host's id and clock functions.
\<close>

record Transaction =
  tx_log :: "transaction list"
  tx_state :: State
  tx_pending :: "Op list"
  tx_inline :: "Projector list"
  tx_privacy :: bool
  tx_permit :: AdmissionPermit
  tx_content :: VerifiedContent
  tx_written :: "string list"
  tx_staged_blobs :: "string list"
  tx_atomic_content :: bool
  tx_binds :: bool
  tx_objects :: "(string, bytes) btree"
  tx_cache :: "(string, (string \<times> Snapshot) option) btree"
  tx_tick :: nat

type_synonym 'a txop = "(Transaction, EventLogError, 'a) cmd"

definition new_event_id :: "host \<Rightarrow> string txop" where
  "new_event_id h s = (Inr (uuid_at h (tx_tick s)), s\<lparr>tx_tick := Suc (tx_tick s)\<rparr>)"

definition now_utc :: "host \<Rightarrow> OffsetDateTime txop" where
  "now_utc h s = (Inr (now_at h (tx_tick s)), s\<lparr>tx_tick := Suc (tx_tick s)\<rparr>)"

definition tx_record :: "host \<Rightarrow> Op \<Rightarrow> unit txop" where
  "tx_record h op s =
     (let s' = s\<lparr>tx_pending := tx_pending s @ [op]\<rparr> in
      case State_apply h (tx_state s') op of
        Inl e \<Rightarrow> (Inl e, s')
      | Inr st \<Rightarrow> (Inr (), s'\<lparr>tx_state := st\<rparr>))"

definition tx_result :: "host \<Rightarrow> State \<Rightarrow> GroupRange \<Rightarrow> bool \<Rightarrow> AppendResult" where
  "tx_result h st r flag = \<lparr>first_version = gr_first r, last_version = gr_last r,
     ar_events = of_stream h (st_events st) (gr_stream r) (Included (gr_first r)) (Included (gr_last r)),
     deduplicated = flag\<rparr>"

definition tx_command :: "host \<Rightarrow> StreamId \<Rightarrow> string \<Rightarrow> string \<Rightarrow> State \<Rightarrow> AppendResult option res" where
  "tx_command h stream i d st = (case bt_get (st_commands st) (key h [stream_key h stream, i]) of
     None \<Rightarrow> Inr None
   | Some (stored, r) \<Rightarrow>
       if stored \<noteq> d then Inl (IdempotencyMismatch i) else Inr (Some (tx_result h st r True)))"

definition tx_claim :: "host \<Rightarrow> TenantId \<Rightarrow> Claim \<Rightarrow> State \<Rightarrow> GroupRange option res" where
  "tx_claim h t c st = (case bt_get (st_claims st) (key h [t, claim_scope c, claim_key c]) of
     None \<Rightarrow> Inr None
   | Some (d, r) \<Rightarrow>
       if d \<noteq> claim_digest c then Inl (IdempotencyMismatch (claim_key c)) else Inr (Some r))"


section \<open>Objects\<close>

definition is_ascii_hexdigit :: "char \<Rightarrow> bool" where
  "is_ascii_hexdigit c = (is_hash_char c \<or> (65 \<le> (of_char c :: nat) \<and> (of_char c :: nat) \<le> 70))"

definition validate_object :: "string \<Rightarrow> unit res" where
  "validate_object i =
     (if length i \<noteq> 36 \<or> \<not> list_all (\<lambda>b. is_ascii_hexdigit b \<or> b = CHR ''-'') i
      then Inl (Backend ''invalid blob object name'') else Inr ())"

definition no_such_file :: EventLogError where
  "no_such_file = Backend ''No such file or directory (os error 2)''"

definition tx_object :: "host \<Rightarrow> TenantId \<Rightarrow> string \<Rightarrow> bool \<Rightarrow> bytes option txop" where
  "tx_object h t d from_memory s =
     (case bt_get (st_blobs (tx_state s)) (t, d) of
        None \<Rightarrow> (Inr None, s)
      | Some b \<Rightarrow> (case validate_object (blob_id b) of
          Inl e \<Rightarrow> (Inl e, s)
        | Inr _ \<Rightarrow> (case bt_get (tx_objects s) (blob_id b) of
            None \<Rightarrow> (Inl no_such_file, s)
          | Some content \<Rightarrow>
              (let full = (\<lambda>x. blob_integrity_sha256 h x = blob_hash b);
                   (intact, mem) = (if from_memory
                     then check_recorded [] [] content (blob_hash b) full (tx_content s)
                     else (Inr (full content), tx_content s));
                   s' = s\<lparr>tx_content := mem\<rparr>
               in case intact of
                 Inl e \<Rightarrow> (Inl e, s')
               | Inr ok \<Rightarrow> if \<not> ok then (Inl (Backend ''referenced blob integrity check failed''), s')
                           else (Inr (Some content), s')))))"

definition tx_blob :: "host \<Rightarrow> TenantId \<Rightarrow> string \<Rightarrow> bytes option txop" where
  "tx_blob h t d = tx_object h t d True"

definition different_content :: EventLogError where
  "different_content = Invalid ''blob digest already names different content''"

text \<open>Creating an object file refuses a name that exists.\<close>

definition create_object :: "string \<Rightarrow> bytes \<Rightarrow> unit txop" where
  "create_object i b s =
     (if bt_get (tx_objects s) i \<noteq> None then (Inl (Backend ''File exists (os error 17)''), s)
      else (Inr (), s\<lparr>tx_objects := bt_insert i b (tx_objects s)\<rparr>))"

definition tx_bind_blob :: "host \<Rightarrow> TenantId \<Rightarrow> BlobWrite \<Rightarrow> unit txop" where
  "tx_bind_blob h t w =
     c_bind (c_modify (\<lambda>s. s\<lparr>tx_binds := True\<rparr>)) (\<lambda>_.
     c_bind (tx_blob h t (bw_digest w)) (\<lambda>old. case old of
       Some content \<Rightarrow> if content \<noteq> bw_bytes w then c_fail different_content else c_return ()
     | None \<Rightarrow>
         c_bind (new_event_id h) (\<lambda>i.
         let object = \<lparr>blob_id = i, blob_hash = blob_integrity_sha256 h (bw_bytes w)\<rparr> in
         c_bind (c_modify (\<lambda>s. s\<lparr>tx_content := remember (tx_content s) (blob_hash object) (bw_bytes w)\<rparr>)) (\<lambda>_.
         c_bind (create_object i (bw_bytes w)) (\<lambda>_.
         c_bind (c_modify (\<lambda>s. s\<lparr>tx_staged_blobs := tx_staged_blobs s @ [i]\<rparr>)) (\<lambda>_.
         tx_record h (OpBlob t (bw_digest w) (Some object))))))))"

text \<open>The first loop of \<open>bind_blobs\<close>: which objects of the batch are new.\<close>

primrec plan_blobs ::
  "host \<Rightarrow> TenantId \<Rightarrow> (Blob \<times> string \<times> bytes) list \<Rightarrow> (string \<times> bytes) list \<Rightarrow>
   (Blob \<times> string \<times> bytes) list txop" where
  "plan_blobs h t fresh [] = c_return fresh"
| "plan_blobs h t fresh (e # es) = (case e of (d, b) \<Rightarrow>
     c_bind (c_lift (\<lambda>_. validate_field ''blob digest'' d)) (\<lambda>_.
     case find (\<lambda>(_, n, _). n = d) fresh of
       Some (earlier, _) \<Rightarrow>
         if blob_hash earlier \<noteq> blob_integrity_sha256 h b then c_fail different_content
         else plan_blobs h t fresh es
     | None \<Rightarrow> c_bind (tx_blob h t d) (\<lambda>old. case old of
         Some content \<Rightarrow> if content \<noteq> b then c_fail different_content else plan_blobs h t fresh es
       | None \<Rightarrow> c_bind (new_event_id h) (\<lambda>i.
           let object = \<lparr>blob_id = i, blob_hash = blob_integrity_sha256 h b\<rparr> in
           c_bind (c_modify (\<lambda>s. s\<lparr>tx_content := remember (tx_content s) (blob_hash object) b\<rparr>)) (\<lambda>_.
           plan_blobs h t (fresh @ [(object, d, b)]) es)))))"

definition write_object :: "Blob \<times> string \<times> bytes \<Rightarrow> unit txop" where
  "write_object e = (case e of (object, _, b) \<Rightarrow>
     c_bind (create_object (blob_id object) b) (\<lambda>_.
     c_modify (\<lambda>s. s\<lparr>tx_written := tx_written s @ [blob_id object]\<rparr>)))"

definition tx_bind_blobs :: "host \<Rightarrow> TenantId \<Rightarrow> (string \<times> bytes) list \<Rightarrow> unit txop" where
  "tx_bind_blobs h t blobs =
     c_bind (c_modify (\<lambda>s. s\<lparr>tx_binds := True\<rparr>)) (\<lambda>_.
     c_bind (plan_blobs h t [] blobs) (\<lambda>fresh.
       if fresh = [] then c_return ()
       else c_bind (c_each write_object fresh) (\<lambda>_.
            c_each (\<lambda>(object, d, _). tx_record h (OpBlob t d (Some object))) fresh)))"

definition batch :: "string list \<Rightarrow> string list" where
  "batch digests = dedup (sort digests)"

definition tx_verify_batch ::
  "host \<Rightarrow> TenantId \<Rightarrow> (string \<times> bytes) list \<Rightarrow> string list \<Rightarrow> string \<Rightarrow> unit txop" where
  "tx_verify_batch h t blobs committed k =
     (if blobs = [] then c_return ()
      else c_bind (c_lift (\<lambda>_. checks (map (\<lambda>(d, _). validate_field ''blob digest'' d) blobs))) (\<lambda>_.
        if batch (map fst blobs) \<noteq> committed then c_fail (IdempotencyMismatch k)
        else c_each (\<lambda>(d, b). c_bind (tx_blob h t d) (\<lambda>old. case old of
            Some bound \<Rightarrow> if bound \<noteq> b then c_fail different_content else c_return ()
          | None \<Rightarrow> c_return ())) blobs))"

definition cleanup_staged_blobs :: "unit txop" where
  "cleanup_staged_blobs = c_modify (\<lambda>s. s\<lparr>tx_objects :=
     bt_retain (\<lambda>i. i \<notin> set (tx_staged_blobs s)) (tx_objects s)\<rparr>)"

definition discard_written :: "unit txop" where
  "discard_written = c_get tx_written (c_each (\<lambda>i. c_bind (c_lift (\<lambda>_. validate_object i)) (\<lambda>_.
       c_modify (\<lambda>s. s\<lparr>tx_objects := bt_remove i (tx_objects s)\<rparr>))))"

definition clean_blobs :: "unit txop" where
  "clean_blobs = c_get tx_objects (c_each (\<lambda>(i, _).
     c_bind (c_lift (\<lambda>_. validate_object i)) (\<lambda>_.
     c_modify (\<lambda>s. if i \<in> set (map (blob_id \<circ> snd) (st_blobs (tx_state s))) then s
       else s\<lparr>tx_objects := bt_remove i (tx_objects s)\<rparr>))))"



section \<open>Projections and snapshots\<close>

record View =
  v_tenant :: TenantId
  v_admission :: bool
  v_selected :: "ProjectionSpec list option"

definition view_validate :: "View \<Rightarrow> ProjectionSpec \<Rightarrow> TenantId \<Rightarrow> State \<Rightarrow> unit res" where
  "view_validate v spec t st =
     andthen (ProjectionSpec_validate spec) (\<lambda>_.
       if (case v_selected v of None \<Rightarrow> False | Some selected \<Rightarrow> spec \<notin> set selected)
         then Inl (Invalid ''projection is outside this rebuild's selected tables'')
       else if t \<noteq> v_tenant v then Inl (Invalid ''projection crosses tenant boundary'')
       else if (t, spec_name spec) \<in> st_dirty_views st
         then Inl (Invalid ''projection requires a complete rebuild after redaction'')
       else if bt_get (st_projections st) (spec_name spec) \<noteq> Some (spec_indexed spec)
         then Inl (Invalid ''projection was not admitted with this shape'')
       else Inr ())"

definition ceiling_refused :: EventLogError where
  "ceiling_refused = Invalid ''admission ceiling or release bound refused''"

fun scope_tenant :: "AdmissionScope \<Rightarrow> TenantId option" where
  "scope_tenant (TenantScope t _) = Some t"
| "scope_tenant (DeploymentScope _) = None"

primrec plan_counters ::
  "(string, int) btree \<Rightarrow> (string \<times> Reservation) list \<Rightarrow> (Op list \<times> int list) res" where
  "plan_counters counters [] = Inr ([], [])"
| "plan_counters counters (e # es) = (case e of (c, r) \<Rightarrow>
     let old = (case bt_get counters c of None \<Rightarrow> 0 | Some n \<Rightarrow> n) in
     andthen (ok_or ceiling_refused (checked_add_i64 old (delta r))) (\<lambda>n.
       if n < 0 \<or> n > ceiling r then Inl ceiling_refused
       else andthen (plan_counters counters es) (\<lambda>(ops, ns).
         Inr (OpCounter (scope_tenant (scope r)) c n # ops, n # ns))))"

definition view_reserve :: "host \<Rightarrow> View \<Rightarrow> AdmissionPermit \<Rightarrow> Reservation list \<Rightarrow> int list txop" where
  "view_reserve h v permit reservations = c_get id (\<lambda>s.
     if \<not> v_admission v \<or> \<not> same_authority (tx_permit s) permit
     then c_fail (Invalid ''admission requires the trusted guard's permit'')
     else c_bind (c_lift (\<lambda>_. ordered_reservations reservations (v_tenant v))) (\<lambda>ordered.
          c_bind (c_lift (\<lambda>s. plan_counters (st_counters (tx_state s)) ordered)) (\<lambda>(ops, ns).
          c_bind (c_each (tx_record h) ops) (\<lambda>_. c_return ns))))"

definition view_get_blob :: "host \<Rightarrow> View \<Rightarrow> string \<Rightarrow> bytes option txop" where
  "view_get_blob h v d = tx_blob h (v_tenant v) d"

definition view_upsert :: "host \<Rightarrow> View \<Rightarrow> ProjectionSpec \<Rightarrow> TenantId \<Rightarrow> string \<Rightarrow> json \<Rightarrow> unit txop" where
  "view_upsert h v spec t k body =
     c_bind (c_lift (\<lambda>s. view_validate v spec t (tx_state s))) (\<lambda>_.
     tx_record h (OpRow t (spec_name spec) k (Some body)))"

definition view_delete :: "host \<Rightarrow> View \<Rightarrow> ProjectionSpec \<Rightarrow> TenantId \<Rightarrow> string \<Rightarrow> unit txop" where
  "view_delete h v spec t k =
     c_bind (c_lift (\<lambda>s. view_validate v spec t (tx_state s))) (\<lambda>_.
     tx_record h (OpRow t (spec_name spec) k None))"

definition view_get :: "View \<Rightarrow> ProjectionSpec \<Rightarrow> TenantId \<Rightarrow> string \<Rightarrow> json option txop" where
  "view_get v spec t k = c_lift (\<lambda>s. andthen (view_validate v spec t (tx_state s)) (\<lambda>_.
     Inr (bt_get (st_rows (tx_state s)) (t, spec_name spec, k))))"

definition view_get_for_update :: "View \<Rightarrow> ProjectionSpec \<Rightarrow> TenantId \<Rightarrow> string \<Rightarrow> json option txop" where
  "view_get_for_update v spec t k = c_get tx_inline (\<lambda>inline.
     if \<not> list_ex (\<lambda>p. list_ex (\<lambda>s. spec_name s = spec_name spec) (pj_projections p)) inline
     then c_fail (Invalid ''guard reads a projection not driven inline'')
     else view_get v spec t k)"

definition view_find ::
  "host \<Rightarrow> View \<Rightarrow> ProjectionSpec \<Rightarrow> TenantId \<Rightarrow> string \<Rightarrow> string \<Rightarrow> nat \<Rightarrow> json list txop" where
  "view_find h v spec t field value limit = c_lift (\<lambda>s.
     andthen (view_validate v spec t (tx_state s)) (\<lambda>_.
       if field_position spec field = None then Inl (Invalid ''field was not declared indexed'')
       else Inr (map snd (take (bounded_limit limit)
         (filter (\<lambda>((t', n', _), body). t' = t \<and> n' = spec_name spec \<and>
            indexed_value h body field = Some value) (st_rows (tx_state s)))))))"

text \<open>A callback runs against the view, call by call.\<close>

primrec run_prog :: "host \<Rightarrow> View \<Rightarrow> prog \<Rightarrow> unit txop" where
  "run_prog h v (Done r) = c_lift (\<lambda>_. r)"
| "run_prog h v (Reserve permit rs k) =
     (\<lambda>s. case view_reserve h v permit rs s of (r, s') \<Rightarrow> run_prog h v (k r) s')"
| "run_prog h v (GetBlob d k) =
     (\<lambda>s. case view_get_blob h v d s of (r, s') \<Rightarrow> run_prog h v (k r) s')"
| "run_prog h v (Upsert spec t i body k) =
     (\<lambda>s. case view_upsert h v spec t i body s of (r, s') \<Rightarrow> run_prog h v (k r) s')"
| "run_prog h v (Delete spec t i k) =
     (\<lambda>s. case view_delete h v spec t i s of (r, s') \<Rightarrow> run_prog h v (k r) s')"
| "run_prog h v (Get spec t i k) =
     (\<lambda>s. case view_get v spec t i s of (r, s') \<Rightarrow> run_prog h v (k r) s')"
| "run_prog h v (GetForUpdate spec t i k) =
     (\<lambda>s. case view_get_for_update v spec t i s of (r, s') \<Rightarrow> run_prog h v (k r) s')"
| "run_prog h v (Find spec t field value limit k) =
     (\<lambda>s. case view_find h v spec t field value limit s of (r, s') \<Rightarrow> run_prog h v (k r) s')"

definition plain_view :: "TenantId \<Rightarrow> View" where
  "plain_view t = \<lparr>v_tenant = t, v_admission = False, v_selected = None\<rparr>"

definition guard_view :: "TenantId \<Rightarrow> View" where
  "guard_view t = \<lparr>v_tenant = t, v_admission = True, v_selected = None\<rparr>"

primrec register_loop :: "host \<Rightarrow> string set \<Rightarrow> ProjectionSpec list \<Rightarrow> unit txop" where
  "register_loop h names [] = c_return ()"
| "register_loop h names (spec # specs) =
     c_bind (c_lift (\<lambda>_. ProjectionSpec_validate spec)) (\<lambda>_.
       if spec_name spec \<in> names then c_fail (Invalid ''duplicate projection in one registration'')
       else c_bind (c_get (\<lambda>s. bt_get (st_projections (tx_state s)) (spec_name spec)) (\<lambda>old. case old of
              Some indexed \<Rightarrow> if indexed \<noteq> spec_indexed spec
                then c_fail (Invalid ''projection registration shape changed'') else c_return ()
            | None \<Rightarrow> tx_record h (OpProjection (spec_name spec) (spec_indexed spec))))
          (\<lambda>_. register_loop h (insert (spec_name spec) names) specs))"

definition tx_register :: "host \<Rightarrow> Projector \<Rightarrow> unit txop" where
  "tx_register h p = register_loop h {} (pj_projections p)"

definition tx_generation :: "host \<Rightarrow> StreamId \<Rightarrow> string txop" where
  "tx_generation h stream = c_get (\<lambda>s. bt_get (st_generations (tx_state s)) (stream_key h stream)) (\<lambda>old.
     case old of Some i \<Rightarrow> c_return i
     | None \<Rightarrow> c_bind (new_event_id h) (\<lambda>i.
         c_bind (tx_record h (OpGeneration stream i)) (\<lambda>_. c_return i)))"

definition snapshot_path :: "host \<Rightarrow> StreamId \<Rightarrow> string" where
  "snapshot_path h stream = hex (sha256 h (as_bytes (stream_key h stream)))"

definition clear_snapshots :: "unit txop" where
  "clear_snapshots = c_modify (\<lambda>s. s\<lparr>tx_cache := filter (\<lambda>(_, f). case f of
     None \<Rightarrow> False | Some (g, _) \<Rightarrow> g \<in> set (map snd (st_generations (tx_state s))))
     (tx_cache s)\<rparr>)"


section \<open>Appending\<close>

definition wanted_head :: "Expected \<Rightarrow> u64 \<Rightarrow> u64 res" where
  "wanted_head expected head = (case expected of
     ExpAny \<Rightarrow> Inr head | NoStream \<Rightarrow> Inr 0 | Exact v \<Rightarrow> Inr v
   | Merge _ \<Rightarrow> Inl (Unsupported ''merge expectations''))"

definition check_head :: "Expected \<Rightarrow> u64 \<Rightarrow> unit res" where
  "check_head expected head = andthen (wanted_head expected head) (\<lambda>wanted.
     if wanted \<noteq> head then Inl (Conflict wanted head) else Inr ())"

definition recorded_event ::
  "StreamId \<Rightarrow> CommandMeta \<Rightarrow> NewEvent \<Rightarrow> u64 \<Rightarrow> u64 \<Rightarrow> string \<Rightarrow> OffsetDateTime \<Rightarrow> RecordedEvent" where
  "recorded_event stream meta e v p i now = \<lparr>global_seq = p, tenant = sid_tenant stream,
     stream_type = sid_type stream, stream_id = sid_id stream, version = v, event_id = i,
     name = ne_name e, schema_version = ne_schema_version e, occurred_at = cm_occurred_at meta,
     recorded_at = now, subject = cm_subject meta, actor = cm_actor meta,
     request_id = cm_request_id meta, trace_id = cm_trace_id meta,
     causation_id = cm_causation_id meta, causation_depth = cm_causation_depth meta,
     redacted_at = None, data = ne_data e, digest = None, parents = []\<rparr>"

primrec append_loop ::
  "host \<Rightarrow> StreamId \<Rightarrow> CommandMeta \<Rightarrow> u64 \<Rightarrow> RecordedEvent list \<Rightarrow> NewEvent list \<Rightarrow> RecordedEvent list txop" where
  "append_loop h stream meta first written [] = c_return written"
| "append_loop h stream meta first written (e # es) =
     c_bind (c_lift (\<lambda>_. ok_or (Backend ''stream version overflow'')
       (checked_add first (of_nat (length written))))) (\<lambda>v.
     c_bind (c_lift (\<lambda>s. ok_or (Backend ''feed position overflow'')
       (checked_add (st_next_position (tx_state s)) 1))) (\<lambda>p.
     c_bind (new_event_id h) (\<lambda>i.
     c_bind (now_utc h) (\<lambda>now.
     let recorded = recorded_event stream meta e v p i now in
     c_bind (tx_record h (OpEvent recorded)) (\<lambda>_.
     append_loop h stream meta first (written @ [recorded]) es)))))"

definition project_inline :: "host \<Rightarrow> TenantId \<Rightarrow> RecordedEvent list \<Rightarrow> Projector \<Rightarrow> unit txop" where
  "project_inline h t written p =
     c_bind (c_each (\<lambda>spec. c_lift (\<lambda>s. view_validate (plain_view t) spec t (tx_state s)))
       (pj_projections p)) (\<lambda>_.
     c_each (\<lambda>e. run_prog h (plain_view t) (pj_apply p e)) written)"

definition tx_append ::
  "host \<Rightarrow> StreamId \<Rightarrow> Expected \<Rightarrow> NewEvent list \<Rightarrow> CommandMeta \<Rightarrow> AppendResult txop" where
  "tx_append h stream expected events meta =
     c_get (\<lambda>s. State_head h (tx_state s) stream) (\<lambda>head.
     c_bind (c_lift (\<lambda>_. check_head expected head)) (\<lambda>_.
     c_bind (c_lift (\<lambda>_. ok_or (Backend ''stream version overflow'') (checked_add head 1))) (\<lambda>first.
     c_bind (append_loop h stream meta first [] events) (\<lambda>written.
     c_bind (c_get tx_inline (c_each (project_inline h (sid_tenant stream) written))) (\<lambda>_.
     c_return \<lparr>first_version = first, last_version = head + of_nat (length written),
       ar_events = written, deduplicated = False\<rparr>)))))"


section \<open>Catching up\<close>

definition tenant_events :: "TenantId \<Rightarrow> u64 \<Rightarrow> State \<Rightarrow> RecordedEvent list" where
  "tenant_events t after st = filter (\<lambda>e. tenant e = t \<and> global_seq e > after) (Events_values (st_events st))"

definition tx_catch_up :: "host \<Rightarrow> Projector \<Rightarrow> TenantId \<Rightarrow> nat \<Rightarrow> CatchUpProgress txop" where
  "tx_catch_up h p t bs = c_get id (\<lambda>s0.
     if list_ex (\<lambda>q. pj_name q = pj_name p) (tx_inline s0)
     then c_fail (Invalid ''projection is driven inline'')
     else let position = (case bt_get (st_cursors (tx_state s0)) (t, pj_name p) of None \<Rightarrow> 0 | Some n \<Rightarrow> n);
              fetched = take (bounded_limit bs + 1) (tenant_events t position (tx_state s0));
              more = length fetched > bounded_limit bs;
              events = take (bounded_limit bs) fetched
          in c_bind (c_each (\<lambda>e. run_prog h (plain_view t) (pj_apply p e)) events) (\<lambda>_.
             let position = (if events = [] then position else global_seq (last events)) in
             c_bind (tx_record h (OpCursor t (pj_name p) position)) (\<lambda>_.
             c_return \<lparr>applied = of_nat (length events), cu_position = position, more_waiting = more\<rparr>)))"



section \<open>What a callback can do\<close>

text \<open>
  The operations a callback may record: rows of the view's own tenant, and counters of that tenant
  or of the deployment when the view carries admission.
\<close>

fun callback_op :: "View \<Rightarrow> Op \<Rightarrow> bool" where
  "callback_op v (OpRow t _ _ _) = (t = v_tenant v)"
| "callback_op v (OpCounter t c _) = (v_admission v \<and>
     (\<exists>s. belongs_to s (v_tenant v) \<and> scope_tenant s = t \<and> coordinate s = Inr c))"
| "callback_op v _ = False"

text \<open>Everything of a transaction that is not its state, its pending operations or its memory.\<close>

definition surroundings where
  "surroundings s = (tx_log s, tx_inline s, tx_privacy s, tx_permit s, tx_written s, tx_staged_blobs s,
     tx_atomic_content s, tx_binds s, tx_objects s, tx_cache s, tx_tick s)"

definition recorded :: "host \<Rightarrow> (Op \<Rightarrow> bool) \<Rightarrow> Transaction \<Rightarrow> Transaction \<Rightarrow> bool" where
  "recorded h P s s' \<longleftrightarrow> (\<exists>ops. tx_pending s' = tx_pending s @ ops \<and> list_all P ops \<and>
     try_fold (State_apply h) (tx_state s) ops = Inr (tx_state s'))"

definition confined :: "host \<Rightarrow> View \<Rightarrow> Transaction \<Rightarrow> Transaction \<Rightarrow> bool" where
  "confined h v s s' \<longleftrightarrow> surroundings s' = surroundings s \<and> recorded h (callback_op v) s s'"

lemma recorded_refl: "recorded h P s s"
  unfolding recorded_def by (rule exI[of _ "[]"]) simp

lemma recorded_trans: "recorded h P s t \<Longrightarrow> recorded h P t u \<Longrightarrow> recorded h P s u"
proof -
  assume "recorded h P s t" "recorded h P t u"
  then obtain xs ys where "tx_pending t = tx_pending s @ xs" "list_all P xs"
    "try_fold (State_apply h) (tx_state s) xs = Inr (tx_state t)"
    "tx_pending u = tx_pending t @ ys" "list_all P ys"
    "try_fold (State_apply h) (tx_state t) ys = Inr (tx_state u)"
    unfolding recorded_def by blast
  then have "tx_pending u = tx_pending s @ (xs @ ys) \<and> list_all P (xs @ ys) \<and>
      try_fold (State_apply h) (tx_state s) (xs @ ys) = Inr (tx_state u)"
    by (simp add: try_fold_append)
  then show ?thesis unfolding recorded_def by (rule exI)
qed

lemma recorded_mono: "recorded h P s s' \<Longrightarrow> (\<And>op. P op \<Longrightarrow> Q op) \<Longrightarrow> recorded h Q s s'"
  unfolding recorded_def by (metis list_all_iff)

lemma recorded_same: "tx_pending s' = tx_pending s \<Longrightarrow> tx_state s' = tx_state s \<Longrightarrow> recorded h P s s'"
  unfolding recorded_def by (rule exI[of _ "[]"]) simp

lemma preorder_recorded: "preorder_rel (recorded h P)"
  unfolding preorder_rel_def using recorded_refl recorded_trans by blast

lemma preorder_confined: "preorder_rel (confined h v)"
  unfolding preorder_rel_def confined_def using recorded_refl recorded_trans by metis

lemma callback_op_applies: "callback_op v op \<Longrightarrow> \<exists>st'. State_apply h st op = Inr st'"
  by (cases op) auto

lemma confined_record [steps_intro]:
  assumes "callback_op v op"
  shows "steps (confined h v) (tx_record h op)"
proof (rule stepsI)
  fix s r s'
  assume run: "tx_record h op s = (r, s')"
  obtain st' where st': "State_apply h (tx_state s) op = Inr st'"
    using callback_op_applies[OF assms] by blast
  with run have s': "s' = s\<lparr>tx_pending := tx_pending s @ [op], tx_state := st'\<rparr>"
    by (auto simp: tx_record_def)
  have "recorded h (callback_op v) s s'"
    unfolding recorded_def using assms st' by (intro exI[of _ "[op]"]) (simp add: s')
  then show "confined h v s s'" by (simp add: confined_def surroundings_def s')
qed

lemma confined_blob [steps_intro]: "steps (confined h v) (tx_blob h t d)"
proof (rule stepsI)
  fix s r s'
  assume "tx_blob h t d s = (r, s')"
  then have "\<exists>m. s' = s\<lparr>tx_content := m\<rparr>"
    unfolding tx_blob_def tx_object_def
    by (auto simp: Let_def split: option.splits sum.splits prod.splits if_splits
        intro: exI[of _ "tx_content s"])
  then show "confined h v s s'"
    by (auto simp: confined_def surroundings_def intro: recorded_same)
qed


subsection \<open>Reservations\<close>

definition new_count :: "(string, int) btree \<Rightarrow> string \<times> Reservation \<Rightarrow> int" where
  "new_count m e = (case bt_get m (fst e) of None \<Rightarrow> 0 | Some n \<Rightarrow> n) + delta (snd e)"

definition fits_ceiling :: "(string, int) btree \<Rightarrow> string \<times> Reservation \<Rightarrow> bool" where
  "fits_ceiling m e \<longleftrightarrow> 0 \<le> new_count m e \<and> new_count m e \<le> ceiling (snd e) \<and> new_count m e < 2 ^ 63"

definition counter_op :: "(string, int) btree \<Rightarrow> string \<times> Reservation \<Rightarrow> Op" where
  "counter_op m e = OpCounter (scope_tenant (scope (snd e))) (fst e) (new_count m e)"

lemma plan_counters_Inr:
  "plan_counters m es = Inr (ops, ns) \<longleftrightarrow>
     list_all (fits_ceiling m) es \<and> ops = map (counter_op m) es \<and> ns = map (new_count m) es"
proof (induction es arbitrary: ops ns)
  case (Cons e es)
  obtain c r where e: "e = (c, r)" by (cases e)
  have "plan_counters m (e # es) = Inr (ops, ns) \<longleftrightarrow>
      fits_ceiling m e \<and> (\<exists>ops' ns'. plan_counters m es = Inr (ops', ns') \<and>
        ops = counter_op m e # ops' \<and> ns = new_count m e # ns')"
    by (auto simp: e Let_def andthen_Inr_iff checked_add_i64_def fits_ceiling_def new_count_def
        counter_op_def ok_or_def split: if_splits option.splits)
  then show ?case by (auto simp: Cons.IH)
qed auto

lemma records_run:
  assumes "try_fold (State_apply h) (tx_state s) ops = Inr st'"
  shows "c_each (tx_record h) ops s = (Inr (), s\<lparr>tx_pending := tx_pending s @ ops, tx_state := st'\<rparr>)"
  using assms
proof (induction ops arbitrary: s)
  case (Cons op ops)
  then obtain st where "State_apply h (tx_state s) op = Inr st"
    "try_fold (State_apply h) st ops = Inr st'" by (auto simp: andthen_Inr_iff)
  with Cons.IH[of "s\<lparr>tx_pending := tx_pending s @ [op], tx_state := st\<rparr>"] show ?case
    by (simp add: c_bind_run tx_record_def)
qed (simp add: cmd_simps)

lemma counter_op_apply:
  "State_apply h st (counter_op m e) =
     Inr (st\<lparr>st_counters := bt_insert (fst e) (new_count m e) (st_counters st)\<rparr>)"
  by (simp add: counter_op_def)

lemma counter_fold:
  "\<exists>st'. try_fold (State_apply h) st (map (counter_op m) es) = Inr st' \<and>
     (\<forall>c. bt_get (st_counters st') c =
       (case map_of (rev (map (\<lambda>e. (fst e, new_count m e)) es)) c of
          Some n \<Rightarrow> Some n | None \<Rightarrow> bt_get (st_counters st) c))"
proof (induction es rule: rev_induct)
  case (snoc e es)
  then obtain st' where "try_fold (State_apply h) st (map (counter_op m) es) = Inr st'"
    "\<forall>c. bt_get (st_counters st') c = (case map_of (rev (map (\<lambda>e. (fst e, new_count m e)) es)) c of
       Some n \<Rightarrow> Some n | None \<Rightarrow> bt_get (st_counters st) c)" by blast
  then show ?case by (auto simp: try_fold_append counter_op_apply bt_simps)
qed simp

lemma reserve_Inl:
  assumes "view_reserve h v permit rs s = (Inl e, s')"
  shows "s' = s"
proof -
  { fix ord ops ns
    assume "plan_counters (st_counters (tx_state s)) ord = Inr (ops, ns)"
    then have "ops = map (counter_op (st_counters (tx_state s))) ord" by (simp add: plan_counters_Inr)
    with counter_fold have "\<exists>st'. try_fold (State_apply h) (tx_state s) ops = Inr st'" by blast
    then have "\<exists>s2. c_each (tx_record h) ops s = (Inr (), s2)" using records_run by blast }
  with assms show ?thesis
    by (auto simp: view_reserve_def cmd_simps split: if_splits sum.splits prod.splits; fastforce)
qed



definition sample_tx :: Transaction where
  "sample_tx = \<lparr>tx_log = [], tx_state = State_default, tx_pending = [], tx_inline = [], tx_privacy = False,
     tx_permit = 7, tx_content = vc_default, tx_written = [], tx_staged_blobs = [], tx_atomic_content = False,
     tx_binds = False, tx_objects = [], tx_cache = [], tx_tick = 0\<rparr>"

definition sample_reservation :: Reservation where
  "sample_reservation = \<lparr>scope = TenantScope ''t1'' ''seats'', delta = 2, ceiling = 3\<rparr>"

lemma sample_reserve: "map_sum (\<lambda>_. ()) id (fst (view_reserve sample_host (guard_view ''t1'') 7 [sample_reservation] sample_tx)) = Inr [2]"
  by code_simp


subsection \<open>Confinement\<close>

lemma plan_counters_callback:
  assumes "v_admission v" and "ordered_reservations rs (v_tenant v) = Inr ord"
    and "plan_counters m ord = Inr (ops, ns)"
  shows "list_all (callback_op v) ops"
proof -
  have ord: "list_all (reservation_ok (v_tenant v)) rs" "mset (map snd ord) = mset rs"
    "list_all (\<lambda>(c, r). coordinate (scope r) = Inr c) ord"
    using assms(2) by (simp_all add: ordered_reservations_Inr)
  have "belongs_to (scope r) (v_tenant v) \<and> coordinate (scope r) = Inr c" if mem: "(c, r) \<in> set ord" for c r
  proof -
    have "r \<in> set (map snd ord)" using mem by force
    then have "r \<in> set rs" using mset_eq_setD[OF ord(2)] by simp
    then show ?thesis using ord(1,3) mem by (auto simp: list_all_iff reservation_ok_def)
  qed
  then show ?thesis
    using assms(1,3) by (fastforce simp: plan_counters_Inr list_all_iff counter_op_def)
qed


lemma confined_view [steps_intro]:
  "steps (confined h v) (view_reserve h v permit rs)"
  "steps (confined h v) (view_get_blob h v d)"
  "steps (confined h v) (view_upsert h v spec t k body)"
  "steps (confined h v) (view_delete h v spec t k)"
  "steps (confined h v) (view_get v spec t k)"
  "steps (confined h v) (view_get_for_update v spec t k)"
  "steps (confined h v) (view_find h v spec t field value limit)"
proof -
  note pre = preorder_confined[of h v]
  have own: "view_validate v spec t st = Inr u \<Longrightarrow> t = v_tenant v" for st u
    by (auto simp: view_validate_def andthen_Inr_iff split: if_splits)
  show "steps (confined h v) (view_reserve h v permit rs)"
  proof (rule stepsI)
    fix s r s'
    assume run: "view_reserve h v permit rs s = (r, s')"
    show "confined h v s s'"
    proof (cases r)
      case (Inl e)
      with run have "s' = s" using reserve_Inl by blast
      with pre show ?thesis by (simp add: preorder_rel_def)
    next
      case (Inr ns)
      with run obtain ord ops where "v_admission v" "ordered_reservations rs (v_tenant v) = Inr ord"
        "plan_counters (st_counters (tx_state s)) ord = Inr (ops, ns)"
        and each: "c_each (tx_record h) ops s = (Inr (), s')"
        by (auto simp: view_reserve_def c_bind_Inr_iff c_get_run c_lift_run c_return_run c_fail_run
            split: if_splits)
      then have "list_all (callback_op v) ops" using plan_counters_callback by blast
      then have "steps (confined h v) (c_each (tx_record h) ops)"
        using pre by (intro steps_each confined_record) (auto simp: list_all_iff)
      then show ?thesis using each by (rule stepsD)
    qed
  qed
  have upd: "steps (confined h v) (c_bind (c_lift (\<lambda>s. view_validate v spec t (tx_state s)))
      (\<lambda>_. tx_record h (OpRow t (spec_name spec) k body)))" for body
  proof (cases "t = v_tenant v")
    case True
    then show ?thesis using pre by (intro steps_intro) auto
  next
    case False
    with own have "\<exists>e. view_validate v spec t st = Inl e" for st
      by (metis sum.exhaust)
    then show ?thesis
      using pre by (auto intro!: stepsI simp: cmd_simps preorder_rel_def split: sum.splits)
        (metis sum.distinct(1))
  qed
  show "steps (confined h v) (view_upsert h v spec t k body)"
    "steps (confined h v) (view_delete h v spec t k)"
    unfolding view_upsert_def view_delete_def by (rule upd)+
  show "steps (confined h v) (view_get_blob h v d)"
    unfolding view_get_blob_def by (rule confined_blob)
  show "steps (confined h v) (view_get v spec t k)"
    "steps (confined h v) (view_get_for_update v spec t k)"
    "steps (confined h v) (view_find h v spec t field value limit)"
    unfolding view_get_def view_get_for_update_def view_find_def using pre by (auto intro!: steps_intro)
qed

lemma confined_prog [steps_intro]: "steps (confined h v) (run_prog h v p)"
  by (induction p) (auto intro!: steps_intro preorder_confined)

end
