(* ===== verification/FileStore.thy ===== *)
theory FileStore
  imports FileTxn "HOL-Library.Sublist"
begin

text \<open>
  The file store (\<open>FileEventStore\<close> in \<open>crates/eventlog-file/src/lib.rs\<close>): one directory and one
  handle on it. A transaction enters from the handle's cached view or from the whole history, runs
  its work, and commits, refuses or cleans up; every operation of the store traits is one
  transaction. Here the committed history is the list of its transactions under a store name and an
  epoch.
\<close>

section \<open>Directory and handle\<close>

text \<open>The committed history a manifest names.\<close>

record Head =
  hd_store :: string
  hd_epoch :: u64
  hd_log :: "transaction list"

text \<open>The history \<open>m\<close> continues the one \<open>observed\<close> names.\<close>

definition extends :: "Head \<Rightarrow> Head \<Rightarrow> bool" where
  "extends m observed = (hd_store observed = hd_store m \<and> hd_epoch observed = hd_epoch m \<and>
     prefix (hd_log observed) (hd_log m))"

record Verified =
  vf_manifest :: Head
  vf_transactions :: "transaction list"
  vf_state :: State

text \<open>
  The directory is \<open>fe_head\<close>, \<open>fe_objects\<close> and \<open>fe_cache\<close>; the rest is the handle. \<open>fe_tick\<close> counts
  the calls of the host's id and clock functions.
\<close>

record FileEventStore =
  fe_head :: Head
  fe_objects :: "(string, bytes) btree"
  fe_cache :: "(string, (string \<times> Snapshot) option) btree"
  fe_tick :: nat
  fe_inline :: "Projector list"
  fe_frozen :: bool
  fe_observed :: "Head option"
  fe_verified :: "Verified option"
  fe_permit :: AdmissionPermit
  fe_content :: VerifiedContent

type_synonym 'a storeop = "(FileEventStore, EventLogError, 'a) cmd"

definition corrupt :: EventLogError where
  "corrupt = Backend ''file journal integrity check failed; no history was repaired''"

definition diverged :: EventLogError where
  "diverged = Backend ''file history diverged from this handle's observed history''"

section \<open>Entering a transaction\<close>

definition new_transaction :: "FileEventStore \<Rightarrow> transaction list \<Rightarrow> State \<Rightarrow> Transaction" where
  "new_transaction s log st = \<lparr>tx_log = log, tx_state = st, tx_pending = [], tx_inline = fe_inline s,
     tx_privacy = False, tx_permit = fe_permit s, tx_content = fe_content s, tx_written = [],
     tx_staged_blobs = [], tx_atomic_content = False, tx_binds = False, tx_objects = fe_objects s,
     tx_cache = fe_cache s, tx_tick = fe_tick s\<rparr>"

text \<open>What a transaction did to the directory and to the handle's shared memory.\<close>

definition put_back :: "FileEventStore \<Rightarrow> Transaction \<Rightarrow> FileEventStore" where
  "put_back s tx = s\<lparr>fe_objects := tx_objects tx, fe_cache := tx_cache tx, fe_tick := tx_tick tx,
     fe_content := tx_content tx\<rparr>"

primrec fold_fresh ::
  "host \<Rightarrow> State \<Rightarrow> (TenantId \<times> string) list \<Rightarrow> transaction list \<Rightarrow>
   (State \<times> (TenantId \<times> string) list) res" where
  "fold_fresh h st bound [] = Inr (st, bound)"
| "fold_fresh h st bound (tx # txs) =
     andthen (State_fold h st tx) (\<lambda>(st', bs). fold_fresh h st' (bound @ bs) txs)"

definition check_object :: "host \<Rightarrow> TenantId \<times> string \<Rightarrow> unit txop" where
  "check_object h e = (case e of (t, d) \<Rightarrow> c_bind (tx_object h t d False) (\<lambda>_. c_return ()))"

definition resume_checks :: "host \<Rightarrow> (TenantId \<times> string) list \<Rightarrow> unit txop" where
  "resume_checks h bound = c_each (check_object h) bound"

definition open_checks :: "host \<Rightarrow> unit txop" where
  "open_checks h =
     c_bind clear_snapshots (\<lambda>_. c_bind clean_blobs (\<lambda>_.
     c_get (\<lambda>s. map fst (st_blobs (tx_state s))) (c_each (\<lambda>(t, d).
       c_bind (c_lift (\<lambda>_. TenantId_new t)) (\<lambda>t'. check_object h (t', d))))))"

definition entered :: "FileEventStore \<Rightarrow> unit txop \<Rightarrow> Transaction \<Rightarrow> Transaction res \<times> FileEventStore" where
  "entered s check tx = (case check tx of
     (Inl e, tx') \<Rightarrow> (Inl e, put_back s tx')
   | (Inr _, tx') \<Rightarrow> (Inr tx', put_back s tx'))"

definition enter_complete :: "host \<Rightarrow> Transaction storeop" where
  "enter_complete h s =
     (if (case fe_observed s of None \<Rightarrow> False | Some o1 \<Rightarrow> \<not> extends (fe_head s) o1) then (Inl diverged, s)
      else case replay h (hd_log (fe_head s)) of
        Inl e \<Rightarrow> (Inl e, s)
      | Inr st \<Rightarrow> entered s (open_checks h) (new_transaction s (hd_log (fe_head s)) st))"

definition enter :: "host \<Rightarrow> Verified option \<Rightarrow> Transaction storeop" where
  "enter h v s = (case (fe_observed s, v) of
     (Some o1, Some view) \<Rightarrow>
       if extends (fe_head s) o1
       then let fresh = drop (length (hd_log o1)) (hd_log (fe_head s)) in
         (case fold_fresh h (vf_state view) [] fresh of
            Inl e \<Rightarrow> (Inl e, s)
          | Inr (st, bound) \<Rightarrow> entered s (resume_checks h bound)
              (new_transaction s (vf_transactions view @ fresh) st))
       else enter_complete h s
   | _ \<Rightarrow> enter_complete h s)"


section \<open>Committing\<close>

definition refuse :: "FileEventStore \<Rightarrow> Transaction \<Rightarrow> EventLogError \<Rightarrow> EventLogError \<times> FileEventStore" where
  "refuse s tx refusal =
     (if tx_pending tx = [] \<and> tx_written tx = [] \<and> tx_staged_blobs tx = [] \<and> \<not> tx_privacy tx \<and>
         \<not> tx_atomic_content tx
      then (refusal, (put_back s tx)\<lparr>fe_observed := Some (fe_head s),
              fe_verified := Some \<lparr>vf_manifest = fe_head s, vf_transactions = tx_log tx,
                vf_state = tx_state tx\<rparr>\<rparr>)
      else case c_bind cleanup_staged_blobs (\<lambda>_. discard_written) tx of
             (Inl e, tx') \<Rightarrow> (e, put_back s tx')
           | (Inr _, tx') \<Rightarrow> (refusal, put_back s tx'))"

text \<open>The operations a commit writes: the recorded ones and the position they reached.\<close>

definition pending_ops :: "Transaction \<Rightarrow> Op list" where
  "pending_ops tx = (if tx_pending tx = [] then []
     else tx_pending tx @ [OpWatermark (st_next_position (tx_state tx))])"

definition journal_append :: "Head \<Rightarrow> transaction \<Rightarrow> Head res" where
  "journal_append m t = (if length (hd_log m) + 1 < 2 ^ 64
     then Inr (m\<lparr>hd_log := hd_log m @ [t]\<rparr>) else Inl corrupt)"

definition journal_privacy :: "Head \<Rightarrow> transaction list \<Rightarrow> Head res" where
  "journal_privacy m txs = andthen (ok_or corrupt (checked_add (hd_epoch m) 1)) (\<lambda>e.
     Inr (m\<lparr>hd_epoch := e, hd_log := txs\<rparr>))"

definition unknown_if :: "bool \<Rightarrow> EventLogError \<Rightarrow> EventLogError" where
  "unknown_if b e = (if b then UnknownCommit else e)"

text \<open>The history after the commit, with the journal's transactions.\<close>

definition publish :: "Head \<Rightarrow> Transaction \<Rightarrow> (Head \<times> transaction list) res" where
  "publish m tx =
     (if tx_privacy tx
      then let log = tx_log tx @ (if pending_ops tx = [] then [] else [TxOps (pending_ops tx)]) in
           andthen (journal_privacy m log) (\<lambda>m'. Inr (m', log))
      else if tx_pending tx \<noteq> []
      then andthen (map_err (unknown_if (tx_atomic_content tx)) (journal_append m (TxOps (pending_ops tx))))
             (\<lambda>m'. Inr (m', tx_log tx @ [TxOps (pending_ops tx)]))
      else Inr (m, tx_log tx))"

text \<open>What follows the published commit in the directory.\<close>

definition after_commit :: "Transaction \<Rightarrow> unit res \<times> Transaction" where
  "after_commit tx =
     (case (if tx_privacy tx then clear_snapshots tx else (Inr (), tx)) of
        (Inl e, tx1) \<Rightarrow> (Inl e, tx1)
      | (Inr _, tx1) \<Rightarrow>
          if tx_privacy tx1 \<or> tx_pending tx1 \<noteq> []
          then (case clean_blobs tx1 of (r, tx2) \<Rightarrow>
            (map_err (unknown_if (tx_atomic_content tx1 \<and> tx_pending tx1 \<noteq> [])) r, tx2))
          else (Inr (), tx1))"

definition forget_if_binds :: "Transaction \<Rightarrow> FileEventStore \<Rightarrow> FileEventStore" where
  "forget_if_binds tx s = (if tx_binds tx then s\<lparr>fe_content := forget (fe_content s)\<rparr> else s)"

definition commit :: "FileEventStore \<Rightarrow> Transaction \<Rightarrow> unit res \<times> FileEventStore" where
  "commit s tx = (case publish (fe_head s) tx of
     Inl e \<Rightarrow> (Inl e, forget_if_binds tx (put_back s tx))
   | Inr (m, log) \<Rightarrow> (case after_commit tx of
       (Inl e, tx') \<Rightarrow> (Inl e, forget_if_binds tx ((put_back s tx')\<lparr>fe_head := m\<rparr>))
     | (Inr _, tx') \<Rightarrow> (Inr (), (put_back s tx')\<lparr>fe_head := m, fe_observed := Some m,
           fe_verified := (if tx_privacy tx then None
             else Some \<lparr>vf_manifest = m, vf_transactions = log, vf_state = tx_state tx'\<rparr>)\<rparr>)))"

definition usable_view :: "FileEventStore \<Rightarrow> Verified option" where
  "usable_view s = (case fe_verified s of None \<Rightarrow> None
     | Some v \<Rightarrow> if Some (vf_manifest v) = fe_observed s then Some v else None)"

definition transact :: "host \<Rightarrow> 'a txop \<Rightarrow> 'a storeop" where
  "transact h work s = (case enter h (usable_view s) (s\<lparr>fe_verified := None\<rparr>) of
     (Inl e, s1) \<Rightarrow> (Inl e, s1)
   | (Inr tx, s1) \<Rightarrow> (case work tx of
       (Inl refusal, tx1) \<Rightarrow>
         (case refuse s1 (if tx_binds tx1 then tx1\<lparr>tx_content := forget (tx_content tx1)\<rparr> else tx1) refusal of
            (e, s2) \<Rightarrow> (Inl e, s2))
     | (Inr result, tx1) \<Rightarrow> (case commit s1 tx1 of
         (Inl e, s2) \<Rightarrow> (Inl e, s2)
       | (Inr _, s2) \<Rightarrow> (Inr result, s2))))"


section \<open>Opening\<close>

definition open_store :: "host \<Rightarrow> AdmissionPermit \<Rightarrow> Head \<Rightarrow> (string, bytes) btree \<Rightarrow>
    (string, (string \<times> Snapshot) option) btree \<Rightarrow> nat \<Rightarrow> unit res \<times> FileEventStore" where
  "open_store h permit m objects cache tick =
     (let s = \<lparr>fe_head = m, fe_objects = objects, fe_cache = cache, fe_tick = tick, fe_inline = [],
               fe_frozen = False, fe_observed = Some m, fe_verified = None, fe_permit = permit,
               fe_content = vc_default\<rparr>
      in case replay h (hd_log m) of
           Inl e \<Rightarrow> (Inl e, s)
         | Inr _ \<Rightarrow> transact h (c_return ()) s)"

definition freeze :: "unit storeop" where
  "freeze = c_modify (\<lambda>s. s\<lparr>fe_frozen := True\<rparr>)"


section \<open>Appending\<close>

definition tx_append_guarded ::
  "host \<Rightarrow> StreamId \<Rightarrow> Expected \<Rightarrow> NewEvent list \<Rightarrow> CommandMeta \<Rightarrow> Guard \<Rightarrow> AppendResult txop" where
  "tx_append_guarded h stream expected events meta guard =
     c_bind (c_lift (\<lambda>s. case cm_claim meta of None \<Rightarrow> Inr None
       | Some claim \<Rightarrow> tx_claim h (sid_tenant stream) claim (tx_state s))) (\<lambda>claimed. case claimed of
       Some r \<Rightarrow> c_get tx_state (\<lambda>st. c_return (tx_result h st r True))
     | None \<Rightarrow>
         c_bind (c_lift (\<lambda>s. tx_command h stream (idempotency_key meta) (request_hash meta) (tx_state s)))
           (\<lambda>recorded. case recorded of
           Some result \<Rightarrow> c_return result
         | None \<Rightarrow>
             c_bind (c_lift (\<lambda>s. check_head expected (State_head h (tx_state s) stream))) (\<lambda>_.
             c_bind (run_prog h (guard_view (sid_tenant stream)) guard) (\<lambda>_.
             c_bind (tx_append h stream expected events meta) (\<lambda>result.
             c_bind (tx_record h (OpCommand stream (idempotency_key meta) (request_hash meta)
               (first_version result) (last_version result))) (\<lambda>_.
             c_bind (case cm_claim meta of None \<Rightarrow> c_return ()
               | Some claim \<Rightarrow> tx_record h (OpClaim (sid_tenant stream) (claim_scope claim) (claim_key claim)
                   (claim_digest claim) \<lparr>gr_stream = stream, gr_first = first_version result,
                     gr_last = last_version result\<rparr>)) (\<lambda>_.
             c_return result)))))))"

definition append_guarded ::
  "host \<Rightarrow> StreamId \<Rightarrow> Expected \<Rightarrow> NewEvent list \<Rightarrow> CommandMeta \<Rightarrow> Guard \<Rightarrow> AppendResult storeop" where
  "append_guarded h stream expected events meta guard =
     c_bind (c_lift (\<lambda>_. validate_append events meta)) (\<lambda>_. c_bind freeze (\<lambda>_.
     transact h (tx_append_guarded h stream expected events meta guard)))"

definition append_events ::
  "host \<Rightarrow> StreamId \<Rightarrow> Expected \<Rightarrow> NewEvent list \<Rightarrow> CommandMeta \<Rightarrow> AppendResult storeop" where
  "append_events h stream expected events meta = append_guarded h stream expected events meta NoGuard"

text \<open>The entries of a group, each with the range it took.\<close>

definition tx_member :: "host \<Rightarrow> CommandMeta \<Rightarrow> StreamAppend \<Rightarrow> (GroupRange \<times> AppendResult) txop" where
  "tx_member h meta entry =
     c_bind (tx_append h (sa_stream entry) (sa_expected entry) (sa_events entry) meta) (\<lambda>result.
     c_return (\<lparr>gr_stream = sa_stream entry, gr_first = first_version result,
       gr_last = last_version result\<rparr>, result))"

definition group_key :: "host \<Rightarrow> AppendGroup \<Rightarrow> string" where
  "group_key h g = key h [ag_tenant g, idempotency_key (ag_meta g)]"

definition group_answer :: "host \<Rightarrow> GroupRange list \<Rightarrow> AppendGroupResult txop" where
  "group_answer h ranges = c_get tx_state (\<lambda>st.
     c_return \<lparr>agr_appends = map (\<lambda>r. tx_result h st r True) ranges, agr_deduplicated = True\<rparr>)"

definition tx_members :: "host \<Rightarrow> AppendGroup \<Rightarrow> string \<Rightarrow> string list \<Rightarrow> AppendGroupResult txop" where
  "tx_members h g dg blobs =
     c_bind (c_map (tx_member h (ag_meta g)) (ag_appends g)) (\<lambda>rs.
     c_bind (tx_record h (OpGroup (ag_tenant g) (idempotency_key (ag_meta g)) dg (map fst rs) blobs)) (\<lambda>_.
     c_return \<lparr>agr_appends = map snd rs, agr_deduplicated = False\<rparr>))"

primrec unique_blobs :: "(string, bytes) btree \<Rightarrow> (string \<times> bytes) list \<Rightarrow> (string, bytes) btree option" where
  "unique_blobs m [] = Some m"
| "unique_blobs m (e # es) = (case e of (d, b) \<Rightarrow>
     if (case bt_get m d of None \<Rightarrow> False | Some earlier \<Rightarrow> earlier \<noteq> b) then None
     else unique_blobs (bt_insert d b m) es)"

definition blob_fingerprint :: "host \<Rightarrow> AppendGroup \<Rightarrow> (string \<times> bytes) list \<Rightarrow> string option" where
  "blob_fingerprint h g blobs = (case unique_blobs [] blobs of None \<Rightarrow> None
     | Some m \<Rightarrow> (case blob_group_fingerprint h \<lparr>bag_group = g,
           bag_blobs = map (\<lambda>(d, b). \<lparr>bw_digest = d, bw_bytes = b\<rparr>) m\<rparr> of
         Inl _ \<Rightarrow> None | Inr fp \<Rightarrow> Some fp))"

definition tx_group ::
  "host \<Rightarrow> AppendGroup \<Rightarrow> string \<Rightarrow> Guard \<Rightarrow> (string \<times> bytes) list \<Rightarrow> AppendGroupResult txop" where
  "tx_group h g dg guard blobs =
     c_get (\<lambda>s. bt_get (st_groups (tx_state s)) (group_key h g)) (\<lambda>committed. case committed of
       Some (old, ranges, bound) \<Rightarrow>
         c_bind (if blobs \<noteq> [] then run_prog h (guard_view (ag_tenant g)) guard else c_return ()) (\<lambda>_.
           if old \<noteq> dg \<and> blob_fingerprint h g blobs = Some old then group_answer h ranges
           else if old \<noteq> dg then c_fail (IdempotencyMismatch (idempotency_key (ag_meta g)))
           else c_bind (tx_verify_batch h (ag_tenant g) blobs bound (idempotency_key (ag_meta g)))
                  (\<lambda>_. group_answer h ranges))
     | None \<Rightarrow>
         c_bind (run_prog h (guard_view (ag_tenant g)) guard) (\<lambda>_.
         c_bind (tx_bind_blobs h (ag_tenant g) blobs) (\<lambda>_.
         tx_members h g dg (batch (map fst blobs)))))"

definition append_group_guarded_with_blobs ::
  "host \<Rightarrow> AppendGroup \<Rightarrow> Guard \<Rightarrow> (string \<times> bytes) list \<Rightarrow> AppendGroupResult storeop" where
  "append_group_guarded_with_blobs h g guard blobs =
     c_bind (c_lift (\<lambda>_. group_fingerprint h g)) (\<lambda>dg. c_bind freeze (\<lambda>_.
     transact h (tx_group h g dg guard blobs)))"

definition append_group_with_blobs ::
  "host \<Rightarrow> AppendGroup \<Rightarrow> (string \<times> bytes) list \<Rightarrow> AppendGroupResult storeop" where
  "append_group_with_blobs h g blobs = append_group_guarded_with_blobs h g NoGuard blobs"

definition append_group_guarded :: "host \<Rightarrow> AppendGroup \<Rightarrow> Guard \<Rightarrow> AppendGroupResult storeop" where
  "append_group_guarded h g guard = append_group_guarded_with_blobs h g guard []"

definition tx_atomic_group ::
  "host \<Rightarrow> AppendGroup \<Rightarrow> string \<Rightarrow> BlobWrite list \<Rightarrow> Guard \<Rightarrow> AppendGroupResult txop" where
  "tx_atomic_group h g dg blobs guard =
     c_get (\<lambda>s. bt_get (st_groups (tx_state s)) (group_key h g)) (\<lambda>committed. case committed of
       Some (old, ranges, _) \<Rightarrow>
         if old \<noteq> dg then c_fail (IdempotencyMismatch (idempotency_key (ag_meta g)))
         else group_answer h ranges
     | None \<Rightarrow>
         c_bind (c_each (tx_bind_blob h (ag_tenant g)) blobs) (\<lambda>_.
         c_bind (c_modify (\<lambda>s. s\<lparr>tx_atomic_content := blobs \<noteq> []\<rparr>)) (\<lambda>_.
         c_bind (run_prog h (guard_view (ag_tenant g)) guard) (\<lambda>_.
         tx_members h g dg (batch (map bw_digest blobs))))))"

definition append_group_with_blobs_guarded ::
  "host \<Rightarrow> BlobAppendGroup \<Rightarrow> Guard \<Rightarrow> AppendGroupResult storeop" where
  "append_group_with_blobs_guarded h request guard =
     c_bind (c_lift (\<lambda>_. blob_group_fingerprint h request)) (\<lambda>dg. c_bind freeze (\<lambda>_.
     transact h (tx_atomic_group h (bag_group request) dg
       (sort_key bw_digest (bag_blobs request)) guard)))"


section \<open>Reading\<close>

definition recorded_command :: "host \<Rightarrow> StreamId \<Rightarrow> string \<Rightarrow> string \<Rightarrow> AppendResult option storeop" where
  "recorded_command h stream i d = transact h (c_lift (\<lambda>s. tx_command h stream i d (tx_state s)))"

definition recorded_claim :: "host \<Rightarrow> TenantId \<Rightarrow> Claim \<Rightarrow> ClaimedCommand option storeop" where
  "recorded_claim h t claim = transact h (c_lift (\<lambda>s.
     andthen (tx_claim h t claim (tx_state s)) (\<lambda>r. Inr (map_option (\<lambda>r. \<lparr>cc_stream = gr_stream r,
       cc_first_version = gr_first r, cc_last_version = gr_last r\<rparr>) r))))"

definition slice :: "host \<Rightarrow> State \<Rightarrow> StreamId \<Rightarrow> u64 \<Rightarrow> nat \<Rightarrow> StreamSlice" where
  "slice h st stream after limit =
     (let fetched = take (bounded_limit limit + 1) (of_stream h (st_events st) stream (Excluded after) Unbounded);
          events = take (bounded_limit limit) fetched
      in \<lparr>ss_events = events, next_version = (if events = [] then after else version (last events)),
          end_of_stream = (length fetched \<le> bounded_limit limit)\<rparr>)"

definition read_stream :: "host \<Rightarrow> StreamId \<Rightarrow> u64 \<Rightarrow> nat \<Rightarrow> StreamSlice storeop" where
  "read_stream h stream after limit = transact h (c_lift (\<lambda>s. Inr (slice h (tx_state s) stream after limit)))"

fun tx_read :: "host \<Rightarrow> Read \<Rightarrow> ReadResult txop" where
  "tx_read h (ReadStream stream after limit) =
     c_lift (\<lambda>s. Inr (StreamResult (slice h (tx_state s) stream after limit)))"
| "tx_read h (ReadBlob t d) = c_bind (tx_blob h t d) (\<lambda>b. c_return (BlobResult b))"

definition read_many :: "host \<Rightarrow> Read list \<Rightarrow> ReadResult list storeop" where
  "read_many h reads = transact h (c_map (tx_read h) reads)"

definition stream_version :: "host \<Rightarrow> StreamId \<Rightarrow> u64 option storeop" where
  "stream_version h stream = transact h (c_lift (\<lambda>s. let head = State_head h (tx_state s) stream in
     Inr (if head > 0 then Some head else None)))"

definition feed_page :: "TenantId \<Rightarrow> u64 \<Rightarrow> nat \<Rightarrow> State \<Rightarrow> FeedPage" where
  "feed_page t after limit st =
     (let fetched = take (bounded_limit limit + 1) (tenant_events t after st);
          events = take (bounded_limit limit) fetched
      in \<lparr>fp_events = events, next_position = (if events = [] then after else global_seq (last events)),
          has_more = (length fetched > bounded_limit limit)\<rparr>)"

definition read_feed :: "host \<Rightarrow> TenantId \<Rightarrow> u64 \<Rightarrow> nat \<Rightarrow> FeedPage storeop" where
  "read_feed h t after limit = transact h (c_lift (\<lambda>s. Inr (feed_page t after limit (tx_state s))))"

definition stream_identity :: "host \<Rightarrow> TenantId \<Rightarrow> string storeop" where
  "stream_identity h t = transact h (c_get (\<lambda>s. bt_get (st_identities (tx_state s)) t) (\<lambda>old. case old of
     Some i \<Rightarrow> c_return i
   | None \<Rightarrow> c_bind (new_event_id h) (\<lambda>i. c_bind (tx_record h (OpIdentity t i)) (\<lambda>_. c_return i))))"


section \<open>Snapshots and content\<close>

definition snapshot_generation :: "host \<Rightarrow> StreamId \<Rightarrow> Uuid option storeop" where
  "snapshot_generation h stream = transact h (c_bind (tx_generation h stream) (\<lambda>g.
     c_lift (\<lambda>_. andthen (ok_or (Invalid ''invalid snapshot generation'') (uuid_parse h g)) (\<lambda>u. Inr (Some u)))))"

definition save_snapshot :: "StreamId \<Rightarrow> Snapshot \<Rightarrow> unit storeop" where
  "save_snapshot stream snapshot = c_fail (Invalid ''unproven snapshots are refused'')"

definition tx_save_snapshot :: "host \<Rightarrow> StreamId \<Rightarrow> Snapshot \<Rightarrow> Uuid \<Rightarrow> bool txop" where
  "tx_save_snapshot h stream snapshot g = c_get (\<lambda>s. bt_get (st_generations (tx_state s)) (stream_key h stream)) (\<lambda>old.
     if old \<noteq> Some g then c_return False
     else c_bind (c_modify (\<lambda>s. s\<lparr>tx_cache :=
       bt_insert (snapshot_path h stream) (Some (g, snapshot)) (tx_cache s)\<rparr>)) (\<lambda>_. c_return True))"

definition save_snapshot_checked :: "host \<Rightarrow> StreamId \<Rightarrow> Snapshot \<Rightarrow> Uuid \<Rightarrow> bool storeop" where
  "save_snapshot_checked h stream snapshot g = transact h (tx_save_snapshot h stream snapshot g)"

definition tx_load_snapshot :: "host \<Rightarrow> StreamId \<Rightarrow> Transaction \<Rightarrow> Snapshot option" where
  "tx_load_snapshot h stream s = (case bt_get (tx_cache s) (snapshot_path h stream) of
     None \<Rightarrow> None
   | Some None \<Rightarrow> None
   | Some (Some (g, snapshot)) \<Rightarrow>
       if bt_get (st_generations (tx_state s)) (stream_key h stream) = Some g then Some snapshot else None)"

definition load_snapshot :: "host \<Rightarrow> StreamId \<Rightarrow> Snapshot option storeop" where
  "load_snapshot h stream = transact h (c_lift (\<lambda>s. Inr (tx_load_snapshot h stream s)))"

definition put_blob :: "host \<Rightarrow> TenantId \<Rightarrow> string \<Rightarrow> bytes \<Rightarrow> unit storeop" where
  "put_blob h t d b = transact h (tx_bind_blobs h t [(d, b)])"

definition get_blob :: "host \<Rightarrow> TenantId \<Rightarrow> string \<Rightarrow> bytes option storeop" where
  "get_blob h t d = transact h (tx_blob h t d)"

definition forget_content :: "unit txop" where
  "forget_content = c_modify (\<lambda>s. s\<lparr>tx_content := forget (tx_content s)\<rparr>)"

definition delete_blob :: "host \<Rightarrow> TenantId \<Rightarrow> string \<Rightarrow> unit storeop" where
  "delete_blob h t d = transact h (c_bind forget_content (\<lambda>_. tx_record h (OpBlob t d None)))"


section \<open>Privacy\<close>

definition tx_rewrite :: "host \<Rightarrow> (Op list \<Rightarrow> Op list) \<Rightarrow> unit txop" where
  "tx_rewrite h f s = (case rewrite_log f (tx_log s) of (r, log) \<Rightarrow>
     let s' = s\<lparr>tx_log := log\<rparr> in
     case andthen r (\<lambda>_. replay h log) of
       Inl e \<Rightarrow> (Inl e, s')
     | Inr st \<Rightarrow> (Inr (), s'\<lparr>tx_state := st\<rparr>))"

definition tx_redact :: "host \<Rightarrow> StreamId \<Rightarrow> u64 \<Rightarrow> string \<Rightarrow> RecordedEvent txop" where
  "tx_redact h stream v reason =
     c_bind (c_lift (\<lambda>_. validate_field ''redaction reason'' reason)) (\<lambda>_.
     c_bind (c_lift (\<lambda>s. case of_stream h (st_events (tx_state s)) stream (Included v) (Included v) of
         [] \<Rightarrow> Inl NotFound | e # _ \<Rightarrow> Inr e)) (\<lambda>old.
     c_bind (now_utc h) (\<lambda>now.
     let e = old\<lparr>data := redaction_tombstone reason, redacted_at := Some now\<rparr> in
     c_bind (tx_rewrite h (redact_ops (sid_tenant stream) e)) (\<lambda>_.
     c_bind (c_get (\<lambda>s. map fst (st_projections (tx_state s)))
       (c_each (\<lambda>n. tx_record h (OpDirtyView (sid_tenant stream) n True)))) (\<lambda>_.
     c_bind (new_event_id h) (\<lambda>i.
     c_bind (tx_record h (OpGeneration stream i)) (\<lambda>_.
     c_bind (c_modify (\<lambda>s. s\<lparr>tx_privacy := True\<rparr>)) (\<lambda>_. c_return e))))))))"

definition redact :: "host \<Rightarrow> StreamId \<Rightarrow> u64 \<Rightarrow> string \<Rightarrow> RecordedEvent storeop" where
  "redact h stream v reason = transact h (tx_redact h stream v reason)"

definition tx_forget_tenant :: "host \<Rightarrow> TenantId \<Rightarrow> unit txop" where
  "tx_forget_tenant h t = c_bind forget_content (\<lambda>_.
     c_bind (tx_rewrite h (forget_ops t)) (\<lambda>_. c_modify (\<lambda>s. s\<lparr>tx_privacy := True\<rparr>)))"

definition forget_tenant :: "host \<Rightarrow> TenantId \<Rightarrow> unit storeop" where
  "forget_tenant h t = transact h (tx_forget_tenant h t)"


section \<open>Projections\<close>

definition create_projections :: "host \<Rightarrow> Projector \<Rightarrow> unit storeop" where
  "create_projections h p = transact h (tx_register h p)"

definition duplicate_inline :: "Projector list \<Rightarrow> Projector \<Rightarrow> bool" where
  "duplicate_inline inline p = list_ex (\<lambda>old. pj_name old = pj_name p \<or>
     list_ex (\<lambda>s. list_ex (\<lambda>new. spec_name new = spec_name s) (pj_projections p)) (pj_projections old)) inline"

definition register_inline :: "host \<Rightarrow> Projector \<Rightarrow> unit storeop" where
  "register_inline h p s =
     (if fe_frozen s then (Inl (Invalid ''inline registration is frozen after serving begins''), s)
      else if duplicate_inline (fe_inline s) p then (Inl (Invalid ''duplicate inline projection''), s)
      else if (case fe_observed s of None \<Rightarrow> False | Some o1 \<Rightarrow> \<not> extends (fe_head s) o1) then (Inl diverged, s)
      else case replay h (hd_log (fe_head s)) of
        Inl e \<Rightarrow> (Inl e, s)
      | Inr st \<Rightarrow> (case tx_register h p (new_transaction s (hd_log (fe_head s)) st) of
          (Inl e, _) \<Rightarrow> (Inl e, s)
        | (Inr _, tx) \<Rightarrow> (case (if tx_pending tx = [] then Inr (fe_head s)
              else journal_append (fe_head s) (TxOps (tx_pending tx))) of
            Inl e \<Rightarrow> (Inl e, s)
          | Inr m \<Rightarrow> (Inr (), s\<lparr>fe_head := m, fe_observed := Some m, fe_inline := fe_inline s @ [p]\<rparr>))))"

definition is_inline :: "string \<Rightarrow> FileEventStore \<Rightarrow> bool" where
  "is_inline n s = list_ex (\<lambda>p. pj_name p = n) (fe_inline s)"

definition run_catch_up :: "host \<Rightarrow> Projector \<Rightarrow> TenantId \<Rightarrow> nat \<Rightarrow> CatchUpProgress storeop" where
  "run_catch_up h p t bs = transact h (tx_catch_up h p t bs)"

definition clear_view :: "host \<Rightarrow> TenantId \<Rightarrow> ProjectionSpec \<Rightarrow> unit txop" where
  "clear_view h t spec = c_bind (tx_record h (OpDirtyView t (spec_name spec) False)) (\<lambda>_.
     tx_record h (OpClearRows t (spec_name spec)))"

definition tx_rebuild :: "host \<Rightarrow> Projector \<Rightarrow> TenantId \<Rightarrow> u64 txop" where
  "tx_rebuild h p t =
     c_bind (tx_register h p) (\<lambda>_.
     c_bind (c_each (clear_view h t) (pj_projections p)) (\<lambda>_.
     c_get (\<lambda>s. filter (\<lambda>e. tenant e = t) (Events_values (st_events (tx_state s)))) (\<lambda>events.
     c_bind (c_each (\<lambda>e. run_prog h (plain_view t) (pj_apply p e)) events) (\<lambda>_.
     c_bind (tx_record h (OpCursor t (pj_name p) (if events = [] then 0 else global_seq (last events)))) (\<lambda>_.
     c_return (of_nat (length events)))))))"

definition rebuild_projection :: "host \<Rightarrow> Projector \<Rightarrow> TenantId \<Rightarrow> u64 storeop" where
  "rebuild_projection h p t = transact h (tx_rebuild h p t)"

definition projection_get :: "host \<Rightarrow> ProjectionSpec \<Rightarrow> TenantId \<Rightarrow> string \<Rightarrow> json option storeop" where
  "projection_get h spec t k = transact h (view_get (plain_view t) spec t k)"

definition projection_find ::
  "host \<Rightarrow> ProjectionSpec \<Rightarrow> TenantId \<Rightarrow> string \<Rightarrow> string \<Rightarrow> nat \<Rightarrow> json list storeop" where
  "projection_find h spec t field value limit =
     transact h (view_find h (plain_view t) spec t field value limit)"

definition list_rows :: "ProjectionSpec \<Rightarrow> TenantId \<Rightarrow> string option \<Rightarrow> nat \<Rightarrow> State \<Rightarrow> (string \<times> json) list res" where
  "list_rows spec t after limit st = andthen (view_validate (plain_view t) spec t st) (\<lambda>_.
     Inr (map (\<lambda>((_, _, k), body). (k, body)) (take (bounded_limit limit)
       (filter (\<lambda>((t', n', k), _). t' = t \<and> n' = spec_name spec \<and>
          (case after of None \<Rightarrow> True | Some a \<Rightarrow> k > a)) (st_rows st)))))"

definition projection_list ::
  "host \<Rightarrow> ProjectionSpec \<Rightarrow> TenantId \<Rightarrow> string option \<Rightarrow> nat \<Rightarrow> (string \<times> json) list storeop" where
  "projection_list h spec t after limit = transact h (c_lift (\<lambda>s. list_rows spec t after limit (tx_state s)))"

end
