(* ===== verification/StoreReads.thy ===== *)
theory StoreReads
  imports FileStore
begin

text \<open>
  Reading in pages: the projection lister of the file store behind \<open>projection_page\<close>
  (\<open>crates/eventlog-core/src/lib.rs\<close>), the feed (\<open>read_feed\<close>) and the stream window (\<open>slice\<close>).
\<close>

section \<open>Projections\<close>

text \<open>The rows one projection of one tenant holds, in key order.\<close>

definition view_rows :: "ProjectionSpec \<Rightarrow> TenantId \<Rightarrow> State \<Rightarrow> (string \<times> json) list" where
  "view_rows spec t st = map (\<lambda>((_, _, k), body). (k, body))
     (filter (\<lambda>((t', n', _), _). t' = t \<and> n' = spec_name spec) (st_rows st))"

lemma view_rows_sorted:
  assumes "bt_wf (st_rows st)"
  shows "sorted_wrt (<) (map fst (view_rows spec t st))"
proof -
  have "sorted_wrt (<) (map fst (filter (\<lambda>((t', n', _), _). t' = t \<and> n' = spec_name spec) (st_rows st)))"
    using assms unfolding bt_wf_def by (rule sorted_wrt_filter_map)
  then have "sorted_wrt (\<lambda>x y. fst x < fst y) (filter (\<lambda>((t', n', _), _). t' = t \<and> n' = spec_name spec) (st_rows st))"
    by (simp add: sorted_wrt_map)
  then have "sorted_wrt (\<lambda>x y. snd (snd (fst x)) < snd (snd (fst y)))
      (filter (\<lambda>((t', n', _), _). t' = t \<and> n' = spec_name spec) (st_rows st))"
    by (rule sorted_wrt_mono_rel[rotated]) (auto simp: less_prod_def)
  then show ?thesis by (simp add: view_rows_def sorted_wrt_map case_prod_beta comp_def)
qed

lemma list_rows_above:
  assumes "view_validate (plain_view t) spec t st = Inr u"
  shows "list_rows spec t (Some a) n st = Inr (take (bounded_limit n) (filter (\<lambda>r. a < fst r) (view_rows spec t st)))"
proof -
  have "filter (\<lambda>((t', n', k), _). t' = t \<and> n' = spec_name spec \<and> a < k) rows =
      filter (\<lambda>((_, _, k), _). a < k) (filter (\<lambda>((t', n', _), _). t' = t \<and> n' = spec_name spec) rows)"
    for rows :: "((string \<times> string \<times> string) \<times> json) list"
    by (auto intro!: filter_cong)
  then show ?thesis
    using assms by (simp add: list_rows_def view_rows_def take_map filter_map comp_def case_prod_beta)
qed

definition admitted :: "host \<Rightarrow> ProjectionSpec \<Rightarrow> TenantId \<Rightarrow> State \<Rightarrow> bool" where
  "admitted h spec t st \<longleftrightarrow> state_inv h st \<and> is_ok (view_validate (plain_view t) spec t st)"

interpretation file_rows: projection_reader "\<lambda>st after n. list_rows spec t after n st" "view_rows spec t" "admitted h spec t"
  for h spec t
proof
  fix st
  assume "admitted h spec t st"
  then have wf: "bt_wf (st_rows st)" and ok: "is_ok (view_validate (plain_view t) spec t st)"
    by (simp_all add: admitted_def state_inv_def)
  from wf show "sorted_wrt (<) (map fst (view_rows spec t st))" by (rule view_rows_sorted)
  from ok show "list_rows spec t (Some a) n st =
      Inr (take (bounded_limit n) (filter (\<lambda>r. a < fst r) (view_rows spec t st)))" for a n
    by (cases "view_validate (plain_view t) spec t st") (simp_all add: list_rows_above)
qed

text \<open>
  C31. Following the cursors of \<open>projection_page\<close> below the read limit returns every row whose key
  starts with the prefix and comes after it, once and in key order, and ends.
\<close>

theorem projection_pages_complete:
  assumes "replay h txs = Inr st" and "is_ok (view_validate (plain_view t) spec t st)"
    and "1 \<le> limit" and "limit < MAX_READ_LIMIT"
  shows "read_pages (\<lambda>after n. list_rows spec t after n st) (Some pre) limit (Suc (length (view_rows spec t st))) None =
    Some (Inr (filter (\<lambda>r. starts_with (fst r) pre \<and> pre < fst r) (view_rows spec t st)))"
proof -
  have "admitted h spec t st" using replay_inv[OF assms(1)] assms(2) by (simp add: admitted_def)
  from file_rows.pages_complete[OF this assms(3,4) order_refl, of pre None] show ?thesis
    by (simp add: less_Suc_eq_le del: read_pages.simps)
qed

text \<open>
  C32. At the read limit the paging is not complete: \<open>projection_page\<close> asks for one row more than the
  page, the provider caps its answer at \<open>MAX_READ_LIMIT\<close>, and so a page of \<open>MAX_READ_LIMIT\<close> rows never
  has a cursor, whatever rows follow it.
\<close>

theorem full_page_names_no_cursor:
  assumes "replay h txs = Inr st" and "is_ok (view_validate (plain_view t) spec t st)"
    and "MAX_READ_LIMIT \<le> limit"
    and "own = filter (\<lambda>r. starts_with (fst r) pre \<and> pre < fst r) (view_rows spec t st)"
    and "MAX_READ_LIMIT < length own"
  shows "\<exists>page. projection_page (\<lambda>after n. list_rows spec t after n st) (Some pre) None limit = Inr page \<and>
    next_cursor page = None \<and> pp_rows page = take MAX_READ_LIMIT own \<and> last own \<notin> set (pp_rows page)"
proof -
  have ok: "admitted h spec t st" using replay_inv[OF assms(1)] assms(2) by (simp add: admitted_def)
  have "sorted_wrt (<) (map fst (view_rows spec t st))" by (rule file_rows.rows_sorted[OF ok])
  then have "distinct (map fst own)" unfolding assms(4) using sorted_wrt_filter_map strict_sorted_iff by blast
  then have "distinct own" by (simp add: distinct_map)
  moreover have "own = take MAX_READ_LIMIT own @ drop MAX_READ_LIMIT own" by simp
  ultimately have "set (take MAX_READ_LIMIT own) \<inter> set (drop MAX_READ_LIMIT own) = {}"
    by (metis distinct_append)
  moreover have "last own \<in> set (drop MAX_READ_LIMIT own)"
    using assms(5) by (metis drop_eq_Nil last_drop last_in_set not_le)
  ultimately show ?thesis
    using file_rows.page_at_limit[OF ok assms(3), of pre pre None] by (auto simp: assms(4)[symmetric])
qed


section \<open>Events\<close>

lemma bounded_limit_pos: "1 \<le> bounded_limit n"
  by (simp add: bounded_limit_def)

text \<open>A window on a list in rising order: at most \<open>n\<close> of the elements above \<open>a\<close>.\<close>

lemma window_splits:
  fixes f :: "'a \<Rightarrow> 'b::order"
  assumes "sorted_wrt (<) (map f xs)" and "1 \<le> n" and "ys = filter (\<lambda>e. a < f e) xs"
    and "page = take n (take (n + 1) ys)" and "after = (if page = [] then a else f (last page))"
  shows "page @ filter (\<lambda>e. after < f e) xs = ys"
    and "length (take (n + 1) ys) > n \<longleftrightarrow> filter (\<lambda>e. after < f e) xs \<noteq> []"
    and "ys \<noteq> [] \<longrightarrow> page \<noteq> [] \<and> a < after"
proof -
  have page: "page = take n ys" using assms(4) by simp
  have rest: "filter (\<lambda>e. after < f e) xs = drop n ys"
  proof (cases "ys = []")
    case True
    then have "after = a" using page assms(5) by simp
    then show ?thesis using True assms(3) by simp
  next
    case False
    then have ne: "page \<noteq> []" using page assms(2) by (cases ys) auto
    then have "last page \<in> set ys" using page in_set_takeD last_in_set by metis
    then have up: "a < after" using ne assms(3,5) by simp
    have sorted: "sorted_wrt (<) (map f ys)" unfolding assms(3) using assms(1) by (auto simp: sorted_wrt_map intro: sorted_wrt_filter)
    let ?m = "min n (length ys)"
    have "filter (\<lambda>e. after < f e) ys = drop ?m ys"
      by (rule filter_above_last[OF sorted]) (use False assms(2,5) ne page in \<open>auto simp: min_def\<close>)
    moreover have "filter (\<lambda>e. after < f e) ys = filter (\<lambda>e. after < f e) xs"
      using up by (auto simp: assms(3) intro!: filter_cong)
    ultimately show ?thesis by (simp add: min_def split: if_splits)
  qed
  show "page @ filter (\<lambda>e. after < f e) xs = ys" by (simp add: rest page)
  show "length (take (n + 1) ys) > n \<longleftrightarrow> filter (\<lambda>e. after < f e) xs \<noteq> []" by (auto simp: rest)
  show "ys \<noteq> [] \<longrightarrow> page \<noteq> [] \<and> a < after"
  proof
    assume "ys \<noteq> []"
    then have ne: "page \<noteq> []" using page assms(2) by (cases ys) auto
    then have "last page \<in> set ys" using page in_set_takeD last_in_set by metis
    then show "page \<noteq> [] \<and> a < after" using ne assms(3,5) by simp
  qed
qed

text \<open>
  C33. A feed page is a prefix of what is left and names where the rest begins: the page and everything
  after its next position are exactly the tenant's events after the caller's position, the flag says
  whether a rest exists, and a page with something left to read always moves forward.
\<close>

theorem feed_page_loses_nothing:
  assumes "replay h txs = Inr st" and "page = feed_page t after limit st"
  shows "fp_events page @ tenant_events t (next_position page) st = tenant_events t after st \<and>
    (has_more page \<longleftrightarrow> tenant_events t (next_position page) st \<noteq> []) \<and>
    (tenant_events t after st \<noteq> [] \<longrightarrow> fp_events page \<noteq> [] \<and> after < next_position page)"
proof -
  let ?xs = "filter (\<lambda>e. tenant e = t) (Events_values (st_events st))"
  have evs: "tenant_events t a st = filter (\<lambda>e. a < global_seq e) ?xs" for a
    by (simp add: tenant_events_def conj_commute)
  have "sorted_wrt (<) (map global_seq (Events_values (st_events st)))"
    using replay_inv[OF assms(1)] positions_sorted by (auto simp: state_inv_def)
  then have "sorted_wrt (<) (map global_seq ?xs)" by (auto simp: sorted_wrt_map intro: sorted_wrt_filter)
  note w = window_splits[OF this bounded_limit_pos[of limit] evs[of after] refl refl]
  show ?thesis
    using w by (simp only: assms(2) feed_page_def Let_def FeedPage.select_convs evs[symmetric] simp_thms)
qed

text \<open>
  C34. A stream window is a prefix of what is left and names where the rest begins; \<open>end_of_stream\<close> is
  set exactly when nothing is left, and a window with something left to read always moves forward.
\<close>

theorem slice_loses_nothing:
  assumes "replay h txs = Inr st" and "w = slice h st stream after limit"
  shows "ss_events w @ of_stream h (st_events st) stream (Excluded (next_version w)) Unbounded =
      of_stream h (st_events st) stream (Excluded after) Unbounded \<and>
    (end_of_stream w \<longleftrightarrow> of_stream h (st_events st) stream (Excluded (next_version w)) Unbounded = []) \<and>
    (of_stream h (st_events st) stream (Excluded after) Unbounded \<noteq> [] \<longrightarrow>
      ss_events w \<noteq> [] \<and> after < next_version w)"
proof -
  let ?xs = "stream_log h (stream_key h stream) (Events_values (st_events st))"
  have inv: "events_inv h (st_events st) (st_next_position st)"
    using replay_inv[OF assms(1)] by (simp add: state_inv_def)
  have evs: "of_stream h (st_events st) stream (Excluded a) Unbounded = filter (\<lambda>e. a < version e) ?xs" for a
    by (simp add: of_stream_log[OF inv] in_range_def[abs_def])
  have "sorted_wrt (<) (map version ?xs)" using inv gapless_sorted by (auto simp: events_inv_def)
  note w = window_splits[OF this bounded_limit_pos[of limit] evs[of after] refl refl]
  show ?thesis
    using w by (simp only: assms(2) slice_def Let_def StreamSlice.select_convs evs[symmetric] simp_thms not_less[symmetric])
qed


section \<open>Concrete reads\<close>

theorem feed_page_loses_nothing_witness:
  "fp_events (feed_page ''acme'' 0 1 sample_state) @
     tenant_events ''acme'' (next_position (feed_page ''acme'' 0 1 sample_state)) sample_state =
   tenant_events ''acme'' 0 sample_state"
  using feed_page_loses_nothing[OF sample_replay refl] by blast

theorem slice_loses_nothing_witness:
  "ss_events (slice sample_host sample_state sample_stream 0 1) @ of_stream sample_host (st_events sample_state)
      sample_stream (Excluded (next_version (slice sample_host sample_state sample_stream 0 1))) Unbounded =
    of_stream sample_host (st_events sample_state) sample_stream (Excluded 0) Unbounded"
  using slice_loses_nothing[OF sample_replay refl] by blast

definition tally_spec :: ProjectionSpec where
  "tally_spec = \<lparr>spec_name = ''tally'', spec_indexed = []\<rparr>"

text \<open>A view with one row more than a page holds.\<close>

definition tally_rows :: "nat \<Rightarrow> ((TenantId \<times> string \<times> string) \<times> json) list" where
  "tally_rows n = map (\<lambda>i. ((''acme'', ''tally'', replicate (Suc i) (CHR ''a'')), JNull)) [0..<n]"

definition tally_history :: "nat \<Rightarrow> Op list list" where
  "tally_history n = [OpProjection ''tally'' [] # map (\<lambda>((t, v, k), b). OpRow t v k (Some b)) (tally_rows n)]"

definition tally_state :: "nat \<Rightarrow> State" where
  "tally_state n = State_default\<lparr>st_projections := [(''tally'', [])], st_rows := tally_rows n\<rparr>"

lemma replicate_less: "i < j \<Longrightarrow> replicate i c < replicate j (c::char)"
proof (induction i arbitrary: j)
  case 0
  then show ?case by (cases j) simp_all
next
  case (Suc i)
  then show ?case by (cases j) simp_all
qed

lemma tally_replay: "replay h (map TxOps (tally_history n)) = Inr (tally_state n)"
proof -
  let ?s = "\<lambda>n. tally_state n"
  have snoc: "bt_insert (''acme'', ''tally'', replicate (Suc n) (CHR ''a'')) JNull (tally_rows n) = tally_rows (Suc n)" for n
  proof -
    have "bt_wf (tally_rows n)"
      by (auto simp: bt_wf_def tally_rows_def sorted_wrt_iff_nth_less replicate_less less_prod_def simp del: replicate_Suc)
    then show ?thesis
      by (subst bt_wf_snoc) (auto simp: tally_rows_def replicate_less less_prod_def simp del: replicate_Suc)
  qed
  have "try_fold (State_apply h) (?s 0) (map (\<lambda>((t, v, k), b). OpRow t v k (Some b)) (tally_rows n)) = Inr (?s n)"
  proof (induction n)
    case (Suc n)
    have "tally_rows (Suc n) = tally_rows n @ [((''acme'', ''tally'', replicate (Suc n) (CHR ''a'')), JNull)]"
      by (simp add: tally_rows_def)
    then show ?case using Suc snoc[of n] by (simp add: try_fold_append tally_state_def del: replicate_Suc)
  qed (simp add: tally_rows_def)
  moreover have "State_apply h State_default (OpProjection ''tally'' []) = Inr (?s 0)"
    by (simp add: State_default_def tally_state_def tally_rows_def bt_simps bt_insert_def)
  ultimately show ?thesis unfolding replay_TxOps by (simp add: tally_history_def)
qed

lemma tally_valid: "is_ok (view_validate (plain_view ''acme'') tally_spec ''acme'' (tally_state n))"
proof -
  have "is_ok (ProjectionSpec_validate tally_spec)" by code_simp
  then show ?thesis
    by (auto simp: view_validate_def plain_view_def tally_state_def State_default_def tally_spec_def is_ok_def andthen_def
        bt_get_def split: sum.splits)
qed

lemma tally_view: "view_rows tally_spec ''acme'' (tally_state n) = map (\<lambda>i. (replicate (Suc i) (CHR ''a''), JNull)) [0..<n]"
  by (simp add: view_rows_def tally_state_def tally_rows_def tally_spec_def comp_def filter_map)

theorem projection_pages_complete_witness:
  "read_pages (\<lambda>after n. list_rows tally_spec ''acme'' after n (tally_state 3)) (Some []) 2
      (Suc (length (view_rows tally_spec ''acme'' (tally_state 3)))) None =
    Some (Inr [(''a'', JNull), (''aa'', JNull), (''aaa'', JNull)])"
  using projection_pages_complete[OF tally_replay[of sample_host 3] tally_valid, where limit = 2 and pre = "[]"]
  by (simp add: tally_view MAX_READ_LIMIT_def upt_rec starts_with_def del: read_pages.simps)

theorem full_page_names_no_cursor_witness:
  "\<exists>page. projection_page (\<lambda>after n. list_rows tally_spec ''acme'' after n (tally_state 1001)) (Some []) None 1000 = Inr page \<and>
    next_cursor page = None \<and> length (pp_rows page) = 1000 \<and>
    (replicate 1001 (CHR ''a''), JNull) \<notin> set (pp_rows page)"
proof -
  have all: "filter (\<lambda>r. starts_with (fst r) [] \<and> [] < fst r) (view_rows tally_spec ''acme'' (tally_state 1001)) =
      map (\<lambda>i. (replicate (Suc i) (CHR ''a''), JNull)) [0..<1001]"
    by (simp add: tally_view filter_map comp_def starts_with_def)
  have "last (map (\<lambda>i. (replicate (Suc i) (CHR ''a''), JNull)) [0..<1001]) = (replicate 1001 (CHR ''a''), JNull)"
    by (simp add: last_map last_upt del: replicate_Suc)
  then show ?thesis
    using full_page_names_no_cursor[OF tally_replay[of sample_host 1001] tally_valid, where limit = 1000 and pre = "[]"] unfolding all
    by (auto simp: MAX_READ_LIMIT_def)
qed

end
