(* ===== verification/StoreLaws.thy ===== *)
theory StoreLaws
  imports FileStore
begin

text \<open>
  What every transaction of the file store keeps. Two relations describe the work of a transaction:
  \<open>sound\<close> holds between its first and last state whatever it returns, \<open>good\<close> when it returns a value.
  They are proved once per method of \<open>Transaction\<close> and compose along the code.
\<close>

section \<open>The relations\<close>

definition uuid_ok :: "host \<Rightarrow> bool" where
  "uuid_ok h \<longleftrightarrow> (\<forall>n. validate_object (uuid_at h n) = Inr ())"

text \<open>The history is untouched, and the state moves only with an operation recorded.\<close>

definition tracks :: "Transaction \<Rightarrow> Transaction \<Rightarrow> bool" where
  "tracks s s' \<longleftrightarrow> tx_log s' = tx_log s \<and> tx_privacy s' = tx_privacy s \<and> tx_tick s \<le> tx_tick s' \<and>
     (\<exists>ops. tx_pending s' = tx_pending s @ ops \<and> (ops = [] \<longrightarrow> tx_state s' = tx_state s))"

text \<open>Object files are only added, under new names, and each one is on a disposal list.\<close>

definition adds_objects :: "Transaction \<Rightarrow> Transaction \<Rightarrow> bool" where
  "adds_objects s s' \<longleftrightarrow> (\<exists>ws gs. tx_written s' = tx_written s @ ws \<and>
     tx_staged_blobs s' = tx_staged_blobs s @ gs \<and>
     (\<forall>i \<in> set (ws @ gs). bt_get (tx_objects s) i = None \<and> bt_get (tx_objects s') i \<noteq> None \<and>
        validate_object i = Inr ()) \<and>
     (\<forall>i. i \<notin> set (ws @ gs) \<longrightarrow> bt_get (tx_objects s') i = bt_get (tx_objects s) i))"

definition sound :: "Transaction \<Rightarrow> Transaction \<Rightarrow> bool" where
  "sound s s' \<longleftrightarrow> tracks s s' \<and> adds_objects s s'"

lemma tracks_refl: "tracks s s"
  by (simp add: tracks_def)

lemma tracks_trans: "tracks s t \<Longrightarrow> tracks t u \<Longrightarrow> tracks s u"
  unfolding tracks_def by auto

lemma adds_objects_same:
  "tx_written s' = tx_written s \<Longrightarrow> tx_staged_blobs s' = tx_staged_blobs s \<Longrightarrow>
   tx_objects s' = tx_objects s \<Longrightarrow> adds_objects s s'"
  unfolding adds_objects_def by (intro exI[of _ "[]"]) simp

lemma adds_objects_trans:
  assumes "adds_objects s t" and "adds_objects t u"
  shows "adds_objects s u"
proof -
  obtain ws gs where st: "tx_written t = tx_written s @ ws" "tx_staged_blobs t = tx_staged_blobs s @ gs"
    "\<forall>i \<in> set (ws @ gs). bt_get (tx_objects s) i = None \<and> bt_get (tx_objects t) i \<noteq> None \<and>
        validate_object i = Inr ()"
    "\<forall>i. i \<notin> set (ws @ gs) \<longrightarrow> bt_get (tx_objects t) i = bt_get (tx_objects s) i"
    using assms(1) unfolding adds_objects_def by blast
  obtain ws' gs' where tu: "tx_written u = tx_written t @ ws'" "tx_staged_blobs u = tx_staged_blobs t @ gs'"
    "\<forall>i \<in> set (ws' @ gs'). bt_get (tx_objects t) i = None \<and> bt_get (tx_objects u) i \<noteq> None \<and>
        validate_object i = Inr ()"
    "\<forall>i. i \<notin> set (ws' @ gs') \<longrightarrow> bt_get (tx_objects u) i = bt_get (tx_objects t) i"
    using assms(2) unfolding adds_objects_def by blast
  have new: "bt_get (tx_objects s) i = None \<and> bt_get (tx_objects u) i \<noteq> None \<and> validate_object i = Inr ()"
    if "i \<in> set ((ws @ ws') @ (gs @ gs'))" for i
    using that st(3,4) tu(3,4) by (cases "i \<in> set (ws @ gs)"; cases "i \<in> set (ws' @ gs')") auto
  have old: "bt_get (tx_objects u) i = bt_get (tx_objects s) i"
    if "i \<notin> set ((ws @ ws') @ (gs @ gs'))" for i
    using that st(4) tu(4) by simp
  show ?thesis
    unfolding adds_objects_def
    using st(1,2) tu(1,2) new old by (intro exI[of _ "ws @ ws'"] exI[of _ "gs @ gs'"]) simp
qed

lemma sound_trans: "sound s t \<Longrightarrow> sound t u \<Longrightarrow> sound s u"
  unfolding sound_def using tracks_trans adds_objects_trans by blast

lemma preorder_sound: "preorder_rel sound"
  unfolding preorder_rel_def sound_def
  using tracks_refl tracks_trans adds_objects_same adds_objects_trans by blast

lemma sound_record [steps_intro]: "steps sound (tx_record h op)"
proof (rule stepsI)
  fix s r s'
  assume "tx_record h op s = (r, s')"
  then have "\<exists>st. s' = s\<lparr>tx_pending := tx_pending s @ [op], tx_state := st\<rparr>"
    by (auto simp: tx_record_def Let_def split: sum.splits intro: exI[of _ "tx_state s"])
  then obtain st where s': "s' = s\<lparr>tx_pending := tx_pending s @ [op], tx_state := st\<rparr>" by blast
  have "tracks s s'" by (simp add: tracks_def s')
  moreover have "adds_objects s s'" by (rule adds_objects_same) (simp_all add: s')
  ultimately show "sound s s'" by (simp add: sound_def)
qed

lemma sound_modify:
  assumes "\<And>s. tracks s (f s)" and "\<And>s. adds_objects s (f s)"
  shows "steps sound (c_modify f)"
  using assms by (intro steps_modify) (simp add: sound_def)

lemma sound_content [steps_intro]:
  "steps sound (c_modify (\<lambda>s. s\<lparr>tx_content := f s\<rparr>))"
  "steps sound (c_modify (\<lambda>s. s\<lparr>tx_binds := b\<rparr>))"
  "steps sound (c_modify (\<lambda>s. s\<lparr>tx_atomic_content := b\<rparr>))"
  by (rule sound_modify; simp add: tracks_def adds_objects_same)+

lemma sound_ids [steps_intro]: "steps sound (new_event_id h)" "steps sound (now_utc h)"
  by (rule stepsI; auto simp: new_event_id_def now_utc_def sound_def tracks_def intro: adds_objects_same)+

lemma tx_object_run:
  assumes "tx_object h t d m s = (r, s')"
  shows "\<exists>c. s' = s\<lparr>tx_content := c\<rparr>"
  using assms unfolding tx_object_def
  by (auto simp: Let_def split: option.splits sum.splits prod.splits if_splits intro: exI[of _ "tx_content s"])

lemma sound_object [steps_intro]: "steps sound (tx_object h t d m)" "steps sound (tx_blob h t d)"
  unfolding tx_blob_def
  by (rule stepsI; drule tx_object_run; auto simp: sound_def tracks_def intro: adds_objects_same)+

lemma sound_confined: "confined h v s s' \<Longrightarrow> sound s s'"
  by (auto simp: confined_def surroundings_def recorded_def sound_def tracks_def intro: adds_objects_same)

lemma sound_prog [steps_intro]: "steps sound (run_prog h v p)"
  using confined_prog sound_confined by (metis stepsI stepsD)

text \<open>Writing a new object and putting it on a disposal list.\<close>

lemma sound_create:
  assumes "uuid_ok h" and "\<And>s. tx_written (f s) = tx_written s @ ws \<and> tx_staged_blobs (f s) = tx_staged_blobs s @ gs"
    and "set (ws @ gs) = {i}" and "i = uuid_at h n" and "\<And>s. surroundings (f s\<lparr>tx_written := [], tx_staged_blobs := []\<rparr>)
      = surroundings (s\<lparr>tx_written := [], tx_staged_blobs := []\<rparr>) \<and> tx_pending (f s) = tx_pending s \<and> tx_state (f s) = tx_state s"
  shows "steps sound (c_bind (create_object i b) (\<lambda>_. c_modify f))"
proof (rule stepsI)
  fix s r s'
  assume run: "c_bind (create_object i b) (\<lambda>_. c_modify f) s = (r, s')"
  show "sound s s'"
  proof (cases "bt_get (tx_objects s) i = None")
    case True
    let ?s = "s\<lparr>tx_objects := bt_insert i b (tx_objects s)\<rparr>"
    have s': "s' = f ?s" using run True by (simp add: create_object_def cmd_simps)
    note f = assms(2)[of ?s] assms(5)[of ?s]
    have obj: "tx_objects s' = bt_insert i b (tx_objects s)" using f by (simp add: s' surroundings_def)
    have "adds_objects s s'"
      unfolding adds_objects_def
      using f assms(1,3,4) True obj
      by (intro exI[of _ ws] exI[of _ gs]) (simp add: s' uuid_ok_def bt_simps)
    moreover have "tracks s s'" using f by (simp add: s' tracks_def surroundings_def)
    ultimately show ?thesis by (simp add: sound_def)
  next
    case False
    then have "s' = s" using run by (auto simp: create_object_def cmd_simps)
    then show ?thesis using preorder_sound by (simp add: preorder_rel_def)
  qed
qed



section \<open>Binding content\<close>

definition minted :: "host \<Rightarrow> Blob \<times> string \<times> bytes \<Rightarrow> bool" where
  "minted h e = (case e of (object, d, b) \<Rightarrow>
     (\<exists>n. blob_id object = uuid_at h n) \<and> blob_hash object = blob_integrity_sha256 h b)"

lemma new_event_id_returns: "returns (\<lambda>i. \<exists>n. i = uuid_at h n) (new_event_id h)"
  by (auto simp: returns_def new_event_id_def)

lemma plan_blobs_returns: "list_all (minted h) fresh \<Longrightarrow> returns (list_all (minted h)) (plan_blobs h t fresh es)"
proof (induction es arbitrary: fresh)
  case (Cons e es)
  obtain d b where e: "e = (d, b)" by (cases e)
  have "returns (list_all (minted h)) (c_bind (new_event_id h) (\<lambda>i.
      let object = \<lparr>blob_id = i, blob_hash = blob_integrity_sha256 h b\<rparr> in
      c_bind (c_modify (\<lambda>s. s\<lparr>tx_content := remember (tx_content s) (blob_hash object) b\<rparr>)) (\<lambda>_.
      plan_blobs h t (fresh @ [(object, d, b)]) es)))"
    unfolding Let_def
    by (rule returns_bind[OF new_event_id_returns], rule returns_bind[OF returns_True], rule Cons.IH)
      (use Cons.prems in \<open>auto simp: minted_def\<close>)
  with Cons.IH[OF Cons.prems] show ?case
    by (auto simp: e intro!: returns_bind[OF returns_True] returns_fail split: option.splits)
qed (simp add: returns_return)

lemma sound_write:
  assumes "uuid_ok h" and "minted h e"
  shows "steps sound (write_object e)"
proof -
  obtain object d b n where e: "e = (object, d, b)" and n: "blob_id object = uuid_at h n"
    using assms(2) by (cases e) (auto simp: minted_def)
  show ?thesis
    unfolding e write_object_def prod.case
    by (rule sound_create[OF assms(1), where ws = "[blob_id object]" and gs = "[]", OF _ _ n])
      (simp_all add: surroundings_def)
qed

lemma sound_plan [steps_intro]: "steps sound (plan_blobs h t fresh es)"
proof (induction es arbitrary: fresh)
  case (Cons e es)
  obtain d b where e: "e = (d, b)" by (cases e)
  show ?case
    using Cons.IH unfolding e plan_blobs.simps prod.case Let_def
    by (auto intro!: steps_intro preorder_sound split: option.splits)
qed (auto intro: steps_return preorder_sound)

lemma sound_bind_blobs [steps_intro]:
  assumes "uuid_ok h"
  shows "steps sound (tx_bind_blobs h t blobs)"
  unfolding tx_bind_blobs_def
proof (rule steps_bind[OF preorder_sound sound_content(2)], rule steps_bind_returns[OF preorder_sound])
  fix fresh
  assume "list_all (minted h) fresh"
  then have "steps sound (c_each write_object fresh)"
    by (intro steps_each preorder_sound sound_write[OF assms]) (auto simp: list_all_iff)
  then show "steps sound (if fresh = [] then c_return () else c_bind (c_each write_object fresh)
      (\<lambda>_. c_each (\<lambda>(object, d, _). tx_record h (OpBlob t d (Some object))) fresh))"
    by (auto intro!: steps_intro preorder_sound)
qed (auto intro: plan_blobs_returns sound_plan)

lemma sound_bind_blob [steps_intro]:
  assumes "uuid_ok h"
  shows "steps sound (tx_bind_blob h t w)"
proof -
  have "steps sound (c_bind (create_object (uuid_at h n) b) (\<lambda>_.
      c_bind (c_modify (\<lambda>s. s\<lparr>tx_staged_blobs := tx_staged_blobs s @ [uuid_at h n]\<rparr>)) (\<lambda>_. tx_record h op)))" for n b op
  proof -
    have "steps sound (c_bind (create_object (uuid_at h n) b)
        (\<lambda>_. c_modify (\<lambda>s. s\<lparr>tx_staged_blobs := tx_staged_blobs s @ [uuid_at h n]\<rparr>)))"
      by (rule sound_create[OF assms, where ws = "[]" and gs = "[uuid_at h n]" and n = n])
        (simp_all add: surroundings_def)
    then have "steps sound (c_bind (c_bind (create_object (uuid_at h n) b)
        (\<lambda>_. c_modify (\<lambda>s. s\<lparr>tx_staged_blobs := tx_staged_blobs s @ [uuid_at h n]\<rparr>))) (\<lambda>_. tx_record h op))"
      by (rule steps_bind[OF preorder_sound _ sound_record])
    then show ?thesis by (simp add: c_bind_assoc)
  qed
  note create = this
  have fresh: "steps sound (c_bind (new_event_id h) (\<lambda>i.
      c_bind (c_modify (\<lambda>s. s\<lparr>tx_content := f i s\<rparr>)) (\<lambda>_. c_bind (create_object i b) (\<lambda>_.
      c_bind (c_modify (\<lambda>s. s\<lparr>tx_staged_blobs := tx_staged_blobs s @ [i]\<rparr>)) (\<lambda>_. tx_record h (g i))))))" for f b g
    by (rule steps_bind_returns[OF preorder_sound sound_ids(1) new_event_id_returns], elim exE,
        hypsubst, rule steps_bind[OF preorder_sound sound_content(1)], rule create)
  show ?thesis
    unfolding tx_bind_blob_def Let_def
    by (rule steps_bind[OF preorder_sound sound_content(2)], rule steps_bind[OF preorder_sound sound_object(2)])
      (auto intro: fresh steps_fail steps_return preorder_sound split: option.splits)
qed

lemma sound_verify_batch [steps_intro]: "steps sound (tx_verify_batch h t blobs committed k)"
  unfolding tx_verify_batch_def
  by (auto intro!: steps_intro preorder_sound split: option.splits)


section \<open>Appending and projecting\<close>

lemma sound_append_loop [steps_intro]: "steps sound (append_loop h stream meta first written es)"
  by (induction es arbitrary: written) (auto intro!: steps_intro preorder_sound simp: Let_def)

lemma sound_append [steps_intro]: "steps sound (tx_append h stream expected events meta)"
  unfolding tx_append_def project_inline_def by (auto intro!: steps_intro preorder_sound)

lemma sound_append_guarded [steps_intro]: "steps sound (tx_append_guarded h stream expected events meta guard)"
  unfolding tx_append_guarded_def by (auto intro!: steps_intro preorder_sound split: option.splits)

lemma sound_members [steps_intro]: "steps sound (tx_members h g dg blobs)"
  unfolding tx_members_def tx_member_def by (auto intro!: steps_intro preorder_sound)

lemma sound_group [steps_intro]: "uuid_ok h \<Longrightarrow> steps sound (tx_group h g dg guard blobs)"
  unfolding tx_group_def group_answer_def by (auto intro!: steps_intro preorder_sound split: option.splits)

lemma sound_atomic_group [steps_intro]: "uuid_ok h \<Longrightarrow> steps sound (tx_atomic_group h g dg blobs guard)"
  unfolding tx_atomic_group_def group_answer_def by (auto intro!: steps_intro preorder_sound split: option.splits)

lemma sound_register [steps_intro]: "steps sound (tx_register h p)"
proof -
  have "steps sound (register_loop h names specs)" for names specs
    by (induction specs arbitrary: names) (auto intro!: steps_intro preorder_sound split: option.splits)
  then show ?thesis by (simp add: tx_register_def)
qed

lemma sound_catch_up [steps_intro]: "steps sound (tx_catch_up h p t bs)"
  unfolding tx_catch_up_def by (auto intro!: steps_intro preorder_sound simp: Let_def)

lemma sound_rebuild [steps_intro]: "steps sound (tx_rebuild h p t)"
  unfolding tx_rebuild_def clear_view_def by (auto intro!: steps_intro preorder_sound)

lemma sound_generation [steps_intro]: "steps sound (tx_generation h stream)"
  unfolding tx_generation_def by (auto intro!: steps_intro preorder_sound split: option.splits)

lemma sound_read [steps_intro]: "steps sound (tx_read h r)"
  by (cases r) (auto intro!: steps_intro preorder_sound)

lemma sound_save_snapshot [steps_intro]: "steps sound (tx_save_snapshot h stream snapshot g)"
proof -
  have "steps sound (c_modify (\<lambda>s. s\<lparr>tx_cache := f s\<rparr>))" for f
    by (rule sound_modify) (simp_all add: tracks_def adds_objects_same)
  then show ?thesis
    unfolding tx_save_snapshot_def by (intro steps_get steps_if steps_bind steps_return preorder_sound)
qed


section \<open>Work that returns a value\<close>

text \<open>
  What a successful transaction recorded: operations that apply to the state it read, events under
  ids it took from the host, counters of a real scope, content bound for valid tenants.
\<close>

fun op_ok :: "Op \<Rightarrow> bool" where
  "op_ok (OpCounter t c _) = (\<exists>s. scope_tenant s = t \<and> coordinate s = Inr c)"
| "op_ok (OpBlob t _ (Some _)) = is_ok (TenantId_new t)"
| "op_ok _ = True"

primrec event_ids :: "Op list \<Rightarrow> string list" where
  "event_ids [] = []"
| "event_ids (op # ops) = (case op of OpEvent e \<Rightarrow> [event_id e] | _ \<Rightarrow> []) @ event_ids ops"

lemma event_ids_append [simp]: "event_ids (xs @ ys) = event_ids xs @ event_ids ys"
  by (induction xs) simp_all

definition records :: "host \<Rightarrow> Transaction \<Rightarrow> Transaction \<Rightarrow> bool" where
  "records h s s' \<longleftrightarrow> tx_tick s \<le> tx_tick s' \<and> (\<exists>ops ns. tx_pending s' = tx_pending s @ ops \<and>
     try_fold (State_apply h) (tx_state s) ops = Inr (tx_state s') \<and> list_all op_ok ops \<and>
     event_ids ops = map (uuid_at h) ns \<and> sorted_wrt (<) ns \<and> set ns \<subseteq> {tx_tick s..<tx_tick s'})"

text \<open>Every bound blob has its object, with the recorded hash.\<close>

definition live :: "host \<Rightarrow> Transaction \<Rightarrow> bool" where
  "live h s \<longleftrightarrow> (\<forall>(k, b) \<in> set (st_blobs (tx_state s)). validate_object (blob_id b) = Inr () \<and>
     (\<exists>c. bt_get (tx_objects s) (blob_id b) = Some c \<and> blob_integrity_sha256 h c = blob_hash b))"

definition good :: "host \<Rightarrow> Transaction \<Rightarrow> Transaction \<Rightarrow> bool" where
  "good h s s' \<longleftrightarrow> sound s s' \<and> records h s s' \<and> (live h s \<longrightarrow> live h s')"

lemma records_same: "tx_pending s' = tx_pending s \<Longrightarrow> tx_state s' = tx_state s \<Longrightarrow>
    tx_tick s \<le> tx_tick s' \<Longrightarrow> records h s s'"
  unfolding records_def by (intro conjI exI[of _ "[]"]) simp_all

lemma records_trans:
  assumes "records h s t" and "records h t u"
  shows "records h s u"
proof -
  obtain xs ns where st: "tx_pending t = tx_pending s @ xs" "try_fold (State_apply h) (tx_state s) xs = Inr (tx_state t)"
    "list_all op_ok xs" "event_ids xs = map (uuid_at h) ns" "sorted_wrt (<) ns" "set ns \<subseteq> {tx_tick s..<tx_tick t}"
    using assms(1) unfolding records_def by blast
  obtain ys ms where tu: "tx_pending u = tx_pending t @ ys" "try_fold (State_apply h) (tx_state t) ys = Inr (tx_state u)"
    "list_all op_ok ys" "event_ids ys = map (uuid_at h) ms" "sorted_wrt (<) ms" "set ms \<subseteq> {tx_tick t..<tx_tick u}"
    using assms(2) unfolding records_def by blast
  have tick: "tx_tick s \<le> tx_tick t" "tx_tick t \<le> tx_tick u" using assms unfolding records_def by blast+
  have "sorted_wrt (<) (ns @ ms)"
    using st(5,6) tu(5,6) by (fastforce simp: sorted_wrt_append)
  moreover have "set (ns @ ms) \<subseteq> {tx_tick s..<tx_tick u}" using st(6) tu(6) tick by fastforce
  ultimately show ?thesis
    unfolding records_def using st(1-4) tu(1-4) tick
    by (intro conjI exI[of _ "xs @ ys"] exI[of _ "ns @ ms"]) (simp_all add: try_fold_append)
qed

lemma preorder_good: "preorder_rel (good h)"
proof -
  have "good h s s" for s using preorder_sound by (simp add: good_def preorder_rel_def records_same)
  moreover have "good h s t \<Longrightarrow> good h t u \<Longrightarrow> good h s u" for s t u
    using sound_trans records_trans unfolding good_def by blast
  ultimately show ?thesis unfolding preorder_rel_def by blast
qed

lemma adds_objects_keep:
  assumes "adds_objects s s'" and "bt_get (tx_objects s) i = Some c"
  shows "bt_get (tx_objects s') i = Some c"
proof -
  obtain xs where "\<forall>i \<in> set xs. bt_get (tx_objects s) i = None"
    "\<forall>i. i \<notin> set xs \<longrightarrow> bt_get (tx_objects s') i = bt_get (tx_objects s) i"
    using assms(1) unfolding adds_objects_def by blast
  with assms(2) show ?thesis by (cases "i \<in> set xs") auto
qed

lemma live_same: "st_blobs (tx_state s') = st_blobs (tx_state s) \<Longrightarrow> adds_objects s s' \<Longrightarrow> live h s \<Longrightarrow> live h s'"
  using adds_objects_keep unfolding live_def by fastforce

lemma good_same:
  assumes "sound s s'" and "tx_pending s' = tx_pending s" and "tx_state s' = tx_state s"
  shows "good h s s'"
proof -
  have "tx_tick s \<le> tx_tick s'" and "adds_objects s s'" using assms(1) by (simp_all add: sound_def tracks_def)
  then show ?thesis using assms live_same records_same by (simp add: good_def)
qed

lemma good_still:
  assumes "steps sound c" and "\<And>s r s'. c s = (r, s') \<Longrightarrow> tx_pending s' = tx_pending s \<and> tx_state s' = tx_state s"
  shows "steps (good h) c"
  using assms good_same by (metis stepsI stepsD)

lemma good_ids [steps_intro]: "steps (good h) (new_event_id h)" "steps (good h) (now_utc h)"
  by (rule good_still, rule sound_ids, auto simp: new_event_id_def now_utc_def)+

lemma good_content [steps_intro]:
  "steps (good h) (c_modify (\<lambda>s. s\<lparr>tx_content := f s\<rparr>))"
  "steps (good h) (c_modify (\<lambda>s. s\<lparr>tx_binds := b\<rparr>))"
  "steps (good h) (c_modify (\<lambda>s. s\<lparr>tx_atomic_content := b\<rparr>))"
  by (rule good_still, rule sound_content, auto simp: cmd_simps)+

lemma good_object [steps_intro]: "steps (good h) (tx_object g t d m)" "steps (good h) (tx_blob g t d)"
  by (rule good_still, rule sound_object, auto simp: tx_blob_def dest!: tx_object_run)+

lemma apply_blobs:
  assumes "State_apply h st op = Inr st'" and "\<And>t d b. op \<noteq> OpBlob t d (Some b)"
  shows "set (st_blobs st') \<subseteq> set (st_blobs st)"
proof (cases op)
  case (OpBlob t d b)
  with assms show ?thesis by (cases b) (auto simp: bt_remove_def)
qed (use assms in \<open>auto simp: apply_event_Inr split: if_splits\<close>)

lemma live_subset:
  "set (st_blobs (tx_state s')) \<subseteq> set (st_blobs (tx_state s)) \<Longrightarrow> tx_objects s' = tx_objects s \<Longrightarrow>
   live h s \<Longrightarrow> live h s'"
  unfolding live_def by fastforce

lemma tx_record_Inr:
  "tx_record h op s = (Inr u, s') \<longleftrightarrow> (\<exists>st. State_apply h (tx_state s) op = Inr st \<and>
     s' = s\<lparr>tx_pending := tx_pending s @ [op], tx_state := st\<rparr>)"
  by (auto simp: tx_record_def Let_def split: sum.splits)

lemma good_record [steps_intro]:
  assumes "op_ok op" and "event_ids [op] = []" and "\<And>t d b. op \<noteq> OpBlob t d (Some b)"
  shows "ok_steps (good h) (tx_record h op)"
proof (rule ok_stepsI)
  fix s u s'
  assume run: "tx_record h op s = (Inr u, s')"
  then obtain st where st: "State_apply h (tx_state s) op = Inr st"
    and s': "s' = s\<lparr>tx_pending := tx_pending s @ [op], tx_state := st\<rparr>" by (auto simp: tx_record_Inr)
  have "records h s s'"
    unfolding records_def using assms(1,2) st
    by (intro conjI exI[of _ "[op]"] exI[of _ "[]"]) (simp_all add: s')
  moreover have "sound s s'" using run sound_record stepsD by metis
  moreover have "live h s \<longrightarrow> live h s'" using live_subset[of s' s] apply_blobs[OF st assms(3)] by (simp add: s')
  ultimately show "good h s s'" by (simp add: good_def)
qed

lemma callback_ops:
  assumes "list_all (callback_op v) ops" and "try_fold (State_apply h) st ops = Inr st'"
  shows "list_all op_ok ops \<and> event_ids ops = [] \<and> st_blobs st' = st_blobs st"
  using assms
proof (induction ops arbitrary: st)
  case (Cons op ops)
  from Cons.prems(2) obtain st1 where "State_apply h st op = Inr st1" and rest: "try_fold (State_apply h) st1 ops = Inr st'"
    by (auto simp: andthen_Inr_iff)
  with Cons.prems(1) have "op_ok op \<and> event_ids [op] = [] \<and> st_blobs st1 = st_blobs st" by (cases op) auto
  with Cons.IH[OF _ rest] Cons.prems(1) show ?case by auto
qed simp

lemma good_prog [steps_intro]: "steps (good h) (run_prog h v p)"
proof (rule stepsI)
  fix s r s'
  assume run: "run_prog h v p s = (r, s')"
  then have c: "confined h v s s'" and snd: "sound s s'"
    using confined_prog sound_prog stepsD by metis+
  then obtain ops where ops: "tx_pending s' = tx_pending s @ ops" "list_all (callback_op v) ops"
    "try_fold (State_apply h) (tx_state s) ops = Inr (tx_state s')"
    unfolding confined_def recorded_def by blast
  note cb = callback_ops[OF ops(2,3)]
  have "records h s s'"
    unfolding records_def using ops snd cb
    by (intro conjI exI[of _ ops] exI[of _ "[]"]) (simp_all add: sound_def tracks_def)
  moreover have "live h s \<longrightarrow> live h s'" using live_same snd cb by (simp add: sound_def)
  ultimately show "good h s s'" using snd by (simp add: good_def)
qed

lemma good_write:
  assumes "uuid_ok h" and "minted h e"
  shows "steps (good h) (write_object e)"
  by (rule good_still[OF sound_write[OF assms]])
    (cases e, auto simp: write_object_def create_object_def cmd_simps split: if_splits)

lemma write_object_run:
  "write_object (object, d, b) s = (if bt_get (tx_objects s) (blob_id object) = None
     then (Inr (), s\<lparr>tx_objects := bt_insert (blob_id object) b (tx_objects s),
             tx_written := tx_written s @ [blob_id object]\<rparr>)
     else (Inl (Backend ''File exists (os error 17)''), s))"
  by (simp add: write_object_def create_object_def cmd_simps)

lemma written_present:
  assumes "c_each write_object fresh s = (Inr (), s')"
  shows "(\<forall>(object, d, b) \<in> set fresh. bt_get (tx_objects s') (blob_id object) = Some b) \<and>
    (\<forall>i c. bt_get (tx_objects s) i = Some c \<longrightarrow> bt_get (tx_objects s') i = Some c)"
  using assms
proof (induction fresh arbitrary: s)
  case (Cons e fresh)
  obtain object d b where e: "e = (object, d, b)" by (cases e)
  from Cons.prems obtain t where t: "t = s\<lparr>tx_objects := bt_insert (blob_id object) b (tx_objects s),
      tx_written := tx_written s @ [blob_id object]\<rparr>" "bt_get (tx_objects s) (blob_id object) = None"
    and rest: "c_each write_object fresh t = (Inr (), s')"
    by (auto simp: e write_object_run cmd_simps split: if_splits)
  have "bt_get (tx_objects t) (blob_id object) = Some b" by (simp add: t bt_simps)
  moreover have "bt_get (tx_objects t) i = Some c" if "bt_get (tx_objects s) i = Some c" for i c
    using that t(2) by (auto simp: t(1) bt_simps)
  ultimately show ?case using Cons.IH[OF rest] by (auto simp: e)
qed (simp add: cmd_simps)

text \<open>Binding an object that is there.\<close>

lemma good_bind_record:
  assumes "is_ok (TenantId_new t)" and "bt_get (tx_objects s) (blob_id object) = Some c"
    and "validate_object (blob_id object) = Inr ()" and "blob_integrity_sha256 h c = blob_hash object"
    and run: "tx_record h (OpBlob t d (Some object)) s = (r, s')"
  shows "good h s s'"
proof -
  have s': "s' = s\<lparr>tx_pending := tx_pending s @ [OpBlob t d (Some object)],
      tx_state := (tx_state s)\<lparr>st_blobs := bt_insert (t, d) object (st_blobs (tx_state s))\<rparr>\<rparr>"
    using run by (simp add: tx_record_def)
  have "records h s s'"
    unfolding records_def using assms(1)
    by (intro conjI exI[of _ "[OpBlob t d (Some object)]"] exI[of _ "[]"]) (simp_all add: s')
  moreover have "sound s s'" using run sound_record stepsD by metis
  moreover have "live h s \<longrightarrow> live h s'"
    using assms(2-4) by (auto simp: live_def s' bt_insert_def)
  ultimately show ?thesis by (simp add: good_def)
qed

lemma good_bind_records:
  assumes "is_ok (TenantId_new t)" and "uuid_ok h" and "list_all (minted h) fresh"
    and "\<forall>(object, d, b) \<in> set fresh. bt_get (tx_objects s) (blob_id object) = Some b"
    and "c_each (\<lambda>(object, d, _). tx_record h (OpBlob t d (Some object))) fresh s = (r, s')"
  shows "good h s s'"
  using assms(3-5)
proof (induction fresh arbitrary: s)
  case Nil
  then show ?case using preorder_good by (simp add: cmd_simps preorder_rel_def)
next
  case (Cons e fresh)
  obtain object d b where e: "e = (object, d, b)" by (cases e)
  obtain t1 where run: "tx_record h (OpBlob t d (Some object)) s = (Inr (), t1)" and obj: "tx_objects t1 = tx_objects s"
    by (simp add: tx_record_def)
  have "validate_object (blob_id object) = Inr ()"
    using Cons.prems(1) assms(2) by (auto simp: e minted_def uuid_ok_def)
  then have "good h s t1"
    using Cons.prems(1,2) run by (intro good_bind_record[OF assms(1)]) (auto simp: e minted_def)
  moreover have "good h t1 s'"
    using Cons.prems run obj by (intro Cons.IH) (auto simp: e cmd_simps)
  ultimately show ?case using preorder_good unfolding preorder_rel_def by blast
qed

lemma good_plan: "steps (good h) (plan_blobs g t fresh es)"
proof (induction es arbitrary: fresh)
  case (Cons e es)
  obtain d b where e: "e = (d, b)" by (cases e)
  have "steps (good h) (new_event_id g)"
    by (rule good_still, rule sound_ids) (auto simp: new_event_id_def)
  then show ?case
    using Cons.IH unfolding e plan_blobs.simps prod.case Let_def
    by (auto intro!: steps_intro preorder_good split: option.splits)
qed (auto intro: steps_return preorder_good)

lemma good_bind_blobs [steps_intro]:
  assumes "uuid_ok h" and "is_ok (TenantId_new t)"
  shows "ok_steps (good h) (tx_bind_blobs h t blobs)"
  unfolding tx_bind_blobs_def
proof (rule ok_steps_bind[OF preorder_good steps_ok[OF good_content(2)]],
    rule ok_steps_bind_returns[OF preorder_good steps_ok[OF good_plan]])
  show "returns (list_all (minted h)) (plan_blobs h t [] blobs)" by (rule plan_blobs_returns) simp
  fix fresh
  assume m: "list_all (minted h) fresh"
  have "ok_steps (good h) (c_bind (c_each write_object fresh)
      (\<lambda>_. c_each (\<lambda>(object, d, _). tx_record h (OpBlob t d (Some object))) fresh))"
  proof (rule ok_stepsI)
    fix s x s'
    assume "c_bind (c_each write_object fresh)
      (\<lambda>_. c_each (\<lambda>(object, d, _). tx_record h (OpBlob t d (Some object))) fresh) s = (Inr x, s')"
    then obtain t1 where w: "c_each write_object fresh s = (Inr (), t1)"
      and b: "c_each (\<lambda>(object, d, _). tx_record h (OpBlob t d (Some object))) fresh t1 = (Inr x, s')"
      by (auto simp: c_bind_Inr_iff)
    have "steps (good h) (c_each write_object fresh)"
      using m by (intro steps_each preorder_good good_write[OF assms(1)]) (auto simp: list_all_iff)
    then have "good h s t1" using w by (rule stepsD)
    moreover have "good h t1 s'"
      using written_present[OF w] by (intro good_bind_records[OF assms(2,1) m _ b]) blast
    ultimately show "good h s s'" using preorder_good unfolding preorder_rel_def by blast
  qed
  then show "ok_steps (good h) (if fresh = [] then c_return () else c_bind (c_each write_object fresh)
      (\<lambda>_. c_each (\<lambda>(object, d, _). tx_record h (OpBlob t d (Some object))) fresh))"
    by (simp add: ok_steps_return preorder_good)
qed

lemma good_bind_blob [steps_intro]:
  assumes "uuid_ok h" and "is_ok (TenantId_new t)"
  shows "ok_steps (good h) (tx_bind_blob h t w)"
  unfolding tx_bind_blob_def
proof (rule ok_steps_bind[OF preorder_good steps_ok[OF good_content(2)]],
    rule ok_steps_bind[OF preorder_good steps_ok[OF good_object(2)]])
  let ?fresh = "c_bind (new_event_id h) (\<lambda>i.
         let object = \<lparr>blob_id = i, blob_hash = blob_integrity_sha256 h (bw_bytes w)\<rparr> in
         c_bind (c_modify (\<lambda>s. s\<lparr>tx_content := remember (tx_content s) (blob_hash object) (bw_bytes w)\<rparr>)) (\<lambda>_.
         c_bind (create_object i (bw_bytes w)) (\<lambda>_.
         c_bind (c_modify (\<lambda>s. s\<lparr>tx_staged_blobs := tx_staged_blobs s @ [i]\<rparr>)) (\<lambda>_.
         tx_record h (OpBlob t (bw_digest w) (Some object))))))"
  have "ok_steps (good h) ?fresh"
  proof (rule ok_stepsI)
    fix s x s'
    assume run: "?fresh s = (Inr x, s')"
    define i where "i = uuid_at h (tx_tick s)"
    define object where "object = \<lparr>blob_id = i, blob_hash = blob_integrity_sha256 h (bw_bytes w)\<rparr>"
    define s1 where "s1 = s\<lparr>tx_tick := Suc (tx_tick s),
      tx_content := remember (tx_content s) (blob_hash object) (bw_bytes w)\<rparr>"
    have new: "bt_get (tx_objects s1) i = None"
      using run by (auto simp: cmd_simps new_event_id_def create_object_def Let_def s1_def i_def object_def split: if_splits)
    define s2 where "s2 = s1\<lparr>tx_objects := bt_insert i (bw_bytes w) (tx_objects s1),
      tx_staged_blobs := tx_staged_blobs s1 @ [i]\<rparr>"
    have rec: "tx_record h (OpBlob t (bw_digest w) (Some object)) s2 = (Inr x, s')"
      using run new by (simp add: cmd_simps new_event_id_def create_object_def Let_def s1_def s2_def i_def object_def)
    have valid: "validate_object i = Inr ()" using assms(1) by (simp add: i_def uuid_ok_def)
    have "good h s s1" by (rule good_same) (auto simp: s1_def sound_def tracks_def intro: adds_objects_same)
    moreover have "adds_objects s1 s2"
      unfolding adds_objects_def using new valid
      by (intro exI[of _ "[]"] exI[of _ "[i]"]) (simp add: s2_def bt_simps)
    then have "good h s1 s2" by (intro good_same) (simp_all add: s2_def sound_def tracks_def)
    moreover have "good h s2 s'"
      by (rule good_bind_record[OF assms(2) _ _ _ rec, of "bw_bytes w"])
        (simp_all add: s2_def object_def bt_simps valid)
    ultimately show "good h s s'" using preorder_good unfolding preorder_rel_def by metis
  qed
  then show "ok_steps (good h) (case old of
       Some content \<Rightarrow> if content \<noteq> bw_bytes w then c_fail different_content else c_return ()
     | None \<Rightarrow> ?fresh)" for old
    by (auto intro: ok_steps_fail ok_steps_return preorder_good split: option.splits)
qed

lemmas good_ok [steps_intro] = good_ids[THEN steps_ok] good_content[THEN steps_ok]
  good_object[THEN steps_ok] good_prog[THEN steps_ok]

lemma good_event:
  "ok_steps (good h) (c_bind (new_event_id h) (\<lambda>i. c_bind (now_utc h) (\<lambda>now.
     c_bind (tx_record h (OpEvent (recorded_event stream meta e v p i now))) (\<lambda>_. c_return (f i now)))))"
proof (rule ok_stepsI)
  fix s x s'
  assume run: "c_bind (new_event_id h) (\<lambda>i. c_bind (now_utc h) (\<lambda>now.
     c_bind (tx_record h (OpEvent (recorded_event stream meta e v p i now))) (\<lambda>_. c_return (f i now)))) s = (Inr x, s')"
  let ?op = "OpEvent (recorded_event stream meta e v p (uuid_at h (tx_tick s)) (now_at h (Suc (tx_tick s))))"
  let ?s = "s\<lparr>tx_tick := Suc (Suc (tx_tick s))\<rparr>"
  have rec: "tx_record h ?op ?s = (Inr (), s')"
    using run by (auto simp: new_event_id_def now_utc_def cmd_simps split: prod.splits sum.splits)
  then obtain st where st: "State_apply h (tx_state s) ?op = Inr st"
    and s': "s' = ?s\<lparr>tx_pending := tx_pending s @ [?op], tx_state := st\<rparr>" by (auto simp: tx_record_Inr)
  have "records h s s'"
    unfolding records_def using st
    by (intro conjI exI[of _ "[?op]"] exI[of _ "[tx_tick s]"]) (simp_all add: s' recorded_event_def del: State_apply.simps)
  moreover have "sound s s'"
    by (auto simp: s' sound_def tracks_def intro: adds_objects_same)
  moreover have "live h s \<longrightarrow> live h s'"
    using live_subset[of s' s] apply_blobs[OF st] by (simp add: s')
  ultimately show "good h s s'" by (simp add: good_def)
qed

lemma good_append_loop [steps_intro]: "ok_steps (good h) (append_loop h stream meta first written es)"
proof (induction es arbitrary: written)
  case (Cons e es)
  have "ok_steps (good h) (c_bind (new_event_id h) (\<lambda>i. c_bind (now_utc h) (\<lambda>now.
      let recorded = recorded_event stream meta e v p i now in
      c_bind (tx_record h (OpEvent recorded)) (\<lambda>_.
      append_loop h stream meta first (written @ [recorded]) es))))" for v p
  proof -
    have "ok_steps (good h) (c_bind (c_bind (new_event_id h) (\<lambda>i. c_bind (now_utc h) (\<lambda>now.
        c_bind (tx_record h (OpEvent (recorded_event stream meta e v p i now)))
          (\<lambda>_. c_return (recorded_event stream meta e v p i now)))))
        (\<lambda>recorded. append_loop h stream meta first (written @ [recorded]) es))"
      by (rule ok_steps_bind[OF preorder_good good_event Cons.IH])
    then show ?thesis by (simp add: c_bind_assoc Let_def)
  qed
  then show ?case
    unfolding append_loop.simps
    by (intro ok_steps_bind[OF preorder_good ok_steps_lift[OF preorder_good]])
qed (auto intro: ok_steps_return preorder_good)

lemma good_append [steps_intro]: "ok_steps (good h) (tx_append h stream expected events meta)"
  unfolding tx_append_def project_inline_def by (auto intro!: steps_intro preorder_good)

lemma good_append_guarded [steps_intro]:
  "ok_steps (good h) (tx_append_guarded h stream expected events meta guard)"
  unfolding tx_append_guarded_def by (auto intro!: steps_intro preorder_good split: option.splits)

lemma good_members [steps_intro]: "ok_steps (good h) (tx_members h g dg blobs)"
  unfolding tx_members_def tx_member_def by (auto intro!: steps_intro preorder_good)

lemma good_verify_batch [steps_intro]: "ok_steps (good h) (tx_verify_batch h t blobs committed k)"
  unfolding tx_verify_batch_def
  by (auto intro!: steps_intro preorder_good split: option.splits)

lemma good_group [steps_intro]:
  "uuid_ok h \<Longrightarrow> is_ok (TenantId_new (ag_tenant g)) \<Longrightarrow> ok_steps (good h) (tx_group h g dg guard blobs)"
  unfolding tx_group_def group_answer_def by (auto intro!: steps_intro preorder_good split: option.splits)

lemma good_atomic_group [steps_intro]:
  "uuid_ok h \<Longrightarrow> is_ok (TenantId_new (ag_tenant g)) \<Longrightarrow> ok_steps (good h) (tx_atomic_group h g dg blobs guard)"
  unfolding tx_atomic_group_def group_answer_def by (auto intro!: steps_intro preorder_good split: option.splits)

lemma good_register [steps_intro]: "ok_steps (good h) (tx_register h p)"
proof -
  have "ok_steps (good h) (register_loop h names specs)" for names specs
    by (induction specs arbitrary: names) (auto intro!: steps_intro preorder_good split: option.splits)
  then show ?thesis by (simp add: tx_register_def)
qed

lemma good_catch_up [steps_intro]: "ok_steps (good h) (tx_catch_up h p t bs)"
  unfolding tx_catch_up_def by (auto intro!: steps_intro preorder_good simp: Let_def)

lemma good_rebuild [steps_intro]: "ok_steps (good h) (tx_rebuild h p t)"
  unfolding tx_rebuild_def clear_view_def by (auto intro!: steps_intro preorder_good)

lemma good_generation [steps_intro]: "ok_steps (good h) (tx_generation h stream)"
  unfolding tx_generation_def by (auto intro!: steps_intro preorder_good split: option.splits)

lemma good_read [steps_intro]: "ok_steps (good h) (tx_read g r)"
  by (cases r) (auto intro!: steps_intro preorder_good)

lemma good_save_snapshot [steps_intro]: "ok_steps (good h) (tx_save_snapshot g stream snapshot i)"
  by (rule steps_ok, rule good_still, rule sound_save_snapshot)
    (auto simp: tx_save_snapshot_def cmd_simps split: if_splits)

end
