(* ===== verification/StoreInv.thy ===== *)
theory StoreInv
  imports StoreLaws
begin

text \<open>
  The invariant of a file store between transactions, and that every operation keeps it: the
  committed history replays, a cached view is that replay, and every object the history binds is
  there with the recorded hash. So what the store writes it can always open again.
\<close>

section \<open>The invariant\<close>

definition all_ops :: "transaction list \<Rightarrow> Op list" where
  "all_ops log = concat (map tx_ops log)"

definition view_ok :: "host \<Rightarrow> FileEventStore \<Rightarrow> bool" where
  "view_ok h s = (case fe_verified s of None \<Rightarrow> True | Some v \<Rightarrow>
     vf_transactions v = hd_log (vf_manifest v) \<and> replay h (vf_transactions v) = Inr (vf_state v))"

definition live_at :: "host \<Rightarrow> (string, bytes) btree \<Rightarrow> State \<Rightarrow> bool" where
  "live_at h objects st \<longleftrightarrow> (\<forall>(k, b) \<in> set (st_blobs st). validate_object (blob_id b) = Inr () \<and>
     (\<exists>c. bt_get objects (blob_id b) = Some c \<and> blob_integrity_sha256 h c = blob_hash b))"

definition names_ok :: "(string, bytes) btree \<Rightarrow> bool" where
  "names_ok objects \<longleftrightarrow> (\<forall>i. bt_get objects i \<noteq> None \<longrightarrow> validate_object i = Inr ())"

text \<open>The ids of the history's events are distinct calls of the host.\<close>

definition ids_ok :: "host \<Rightarrow> nat \<Rightarrow> Op list \<Rightarrow> bool" where
  "ids_ok h n ops \<longleftrightarrow> (\<exists>ns. event_ids ops = map (uuid_at h) ns \<and> sorted_wrt (<) ns \<and> set ns \<subseteq> {..<n})"

definition history_ok :: "host \<Rightarrow> nat \<Rightarrow> (string, bytes) btree \<Rightarrow> transaction list \<Rightarrow> State \<Rightarrow> bool" where
  "history_ok h n objects log st \<longleftrightarrow> replay h log = Inr st \<and> live_at h objects st \<and>
     list_all op_ok (all_ops log) \<and> ids_ok h n (all_ops log)"

definition store_inv :: "host \<Rightarrow> FileEventStore \<Rightarrow> bool" where
  "store_inv h s \<longleftrightarrow> view_ok h s \<and> names_ok (fe_objects s) \<and>
     (\<exists>st. history_ok h (fe_tick s) (fe_objects s) (hd_log (fe_head s)) st)"

lemma live_live_at: "live h tx \<longleftrightarrow> live_at h (tx_objects tx) (tx_state tx)"
  by (simp add: live_def live_at_def)

lemma all_ops_append [simp]: "all_ops (xs @ ys) = all_ops xs @ all_ops ys"
  by (simp add: all_ops_def)

lemma all_ops_single [simp]: "all_ops [TxOps ops] = ops" "all_ops [] = []"
  by (simp_all add: all_ops_def)

lemma replay_append:
  assumes "replay h log = Inr st"
  shows "replay h (log @ [TxOps ops]) = try_fold (State_apply h) st ops"
proof -
  have "andthen (State_fold h st (TxOps ops)) (\<lambda>r. Inr (fst r)) = try_fold (State_apply h) st ops"
    by (auto simp: State_fold_def andthen_def split: sum.splits)
  then show ?thesis using assms by (simp add: replay_def try_fold_append andthen_def split: sum.splits)
qed

lemma fold_fresh_replay:
  assumes "replay h log = Inr st" and "fold_fresh h st bound fresh = Inr (st', bs)"
  shows "replay h (log @ fresh) = Inr st'"
  using assms
proof (induction fresh arbitrary: log st bound)
  case (Cons tx fresh)
  from Cons.prems(2) obtain st1 b1 where f: "State_fold h st tx = Inr (st1, b1)"
    and rest: "fold_fresh h st1 (bound @ b1) fresh = Inr (st', bs)" by (auto simp: andthen_Inr_iff)
  have "replay h (log @ [tx]) = Inr st1"
    using Cons.prems(1) f by (simp add: replay_def try_fold_append)
  from Cons.IH[OF this rest] show ?case by simp
qed simp

lemma fold_fresh_total:
  assumes "replay h log = Inr st" and "replay h (log @ fresh) = Inr st'"
  shows "\<exists>bs. fold_fresh h st bound fresh = Inr (st', bs)"
  using assms
proof (induction fresh arbitrary: log st bound)
  case (Cons tx fresh)
  from Cons.prems obtain st1 b1 where f: "State_fold h st tx = Inr (st1, b1)"
    by (auto simp: replay_def try_fold_append andthen_Inr_iff)
  have "replay h (log @ [tx]) = Inr st1"
    using Cons.prems(1) f by (simp add: replay_def try_fold_append)
  from Cons.IH[OF this] Cons.prems(2) f show ?case by simp
qed simp


section \<open>Checks and cleaning\<close>

definition blob_ids :: "Transaction \<Rightarrow> string set" where
  "blob_ids tx = set (map (blob_id \<circ> snd) (st_blobs (tx_state tx)))"

lemma clean_loop:
  assumes "\<forall>(i, _) \<in> set es. validate_object i = Inr ()"
  shows "c_each (\<lambda>(i, _). c_bind (c_lift (\<lambda>_. validate_object i)) (\<lambda>_.
      c_modify (\<lambda>s. if i \<in> set (map (blob_id \<circ> snd) (st_blobs (tx_state s))) then s
        else s\<lparr>tx_objects := bt_remove i (tx_objects s)\<rparr>))) es tx =
    (Inr (), tx\<lparr>tx_objects := bt_retain (\<lambda>i. i \<in> blob_ids tx \<or> i \<notin> fst ` set es) (tx_objects tx)\<rparr>)"
  using assms
proof (induction es arbitrary: tx)
  case Nil
  then show ?case by (simp add: cmd_simps bt_retain_def)
next
  case (Cons e es)
  obtain i b where e: "e = (i, b)" by (cases e)
  have split: "bt_retain (\<lambda>j. j \<in> L \<or> j \<notin> fst ` set es) (bt_remove i m) =
      bt_retain (\<lambda>j. j \<in> L \<or> j \<notin> fst ` set (e # es)) m" if "i \<notin> L" for L and m :: "(string, bytes) btree"
    using that by (auto simp: bt_retain_def bt_remove_def e intro: filter_cong)
  have keep: "bt_retain (\<lambda>j. j \<in> L \<or> j \<notin> fst ` set es) m =
      bt_retain (\<lambda>j. j \<in> L \<or> j \<notin> fst ` set (e # es)) m" if "i \<in> L" for L and m :: "(string, bytes) btree"
    using that by (auto simp: bt_retain_def e intro: filter_cong)
  show ?case
    using Cons.prems Cons.IH split[of "blob_ids tx"] keep[of "blob_ids tx"]
    by (auto simp: e cmd_simps blob_ids_def)
qed

lemma bt_get_key: "i \<in> fst ` set m \<longleftrightarrow> bt_get m i \<noteq> None"
  by (simp add: bt_get_def map_of_eq_None_iff)

lemma clean_blobs_run:
  assumes "names_ok (tx_objects tx)"
  shows "clean_blobs tx = (Inr (), tx\<lparr>tx_objects := bt_retain (\<lambda>i. i \<in> blob_ids tx) (tx_objects tx)\<rparr>)"
proof -
  have "\<forall>(i, _) \<in> set (tx_objects tx). validate_object i = Inr ()"
    using assms bt_get_key[of _ "tx_objects tx"] by (force simp: names_ok_def)
  moreover have "bt_retain (\<lambda>i. i \<in> blob_ids tx \<or> i \<notin> fst ` set (tx_objects tx)) (tx_objects tx) =
      bt_retain (\<lambda>i. i \<in> blob_ids tx) (tx_objects tx)"
    by (auto simp: bt_retain_def intro!: filter_cong)
  ultimately show ?thesis unfolding clean_blobs_def c_get_run by (simp only: clean_loop)
qed

lemma live_retain:
  assumes "live_at h objects (tx_state tx)"
  shows "live_at h (bt_retain (\<lambda>i. i \<in> blob_ids tx) objects) (tx_state tx)"
proof -
  have "bt_get (bt_retain (\<lambda>i. i \<in> blob_ids tx) objects) (blob_id b) = bt_get objects (blob_id b)"
    if "(k, b) \<in> set (st_blobs (tx_state tx))" for k b
  proof -
    have "blob_id b \<in> blob_ids tx" using that by (force simp: blob_ids_def)
    then show ?thesis by (simp add: bt_simps)
  qed
  with assms show ?thesis unfolding live_at_def by fastforce
qed

lemma names_retain: "names_ok objects \<Longrightarrow> names_ok (bt_retain P objects)"
  by (auto simp: names_ok_def bt_simps)

lemma check_object_run:
  assumes "live h tx"
  shows "check_object h e tx = (Inr (), tx)"
proof -
  obtain t d where e: "e = (t, d)" by (cases e)
  show ?thesis
  proof (cases "bt_get (st_blobs (tx_state tx)) (t, d)")
    case None
    then show ?thesis by (simp add: check_object_def e tx_object_def cmd_simps)
  next
    case (Some b)
    then have "((t, d), b) \<in> set (st_blobs (tx_state tx))" by (rule bt_get_SomeD)
    with assms have "validate_object (blob_id b) = Inr ()"
      "\<exists>c. bt_get (tx_objects tx) (blob_id b) = Some c \<and> blob_integrity_sha256 h c = blob_hash b"
      unfolding live_def by blast+
    with Some show ?thesis by (auto simp: check_object_def e tx_object_def cmd_simps)
  qed
qed

lemma resume_checks_run: "live h tx \<Longrightarrow> resume_checks h bound tx = (Inr (), tx)"
  unfolding resume_checks_def by (induction bound) (simp_all add: cmd_simps check_object_run)

text \<open>Content is bound only for valid tenants.\<close>

lemma bound_tenants:
  assumes "try_fold (State_apply h) st ops = Inr st'" and "list_all op_ok ops"
    and "\<forall>e \<in> set (st_blobs st). is_ok (TenantId_new (fst (fst e)))"
  shows "\<forall>e \<in> set (st_blobs st'). is_ok (TenantId_new (fst (fst e)))"
  using assms
proof (induction ops arbitrary: st)
  case (Cons op ops)
  from Cons.prems(1) obtain st1 where st1: "State_apply h st op = Inr st1"
    and rest: "try_fold (State_apply h) st1 ops = Inr st'" by (auto simp: andthen_Inr_iff)
  have "\<forall>e \<in> set (st_blobs st1). is_ok (TenantId_new (fst (fst e)))"
  proof (cases "\<exists>t d b. op = OpBlob t d (Some b)")
    case True
    then obtain t d b where op: "op = OpBlob t d (Some b)" by blast
    with st1 have "set (st_blobs st1) \<subseteq> insert ((t, d), b) (set (st_blobs st))"
      by (auto simp: bt_insert_def)
    moreover have "is_ok (TenantId_new t)" using Cons.prems(2) op by simp
    moreover have "is_ok (TenantId_new (fst (fst e)))" if "e \<in> set (st_blobs st)" for e
      using Cons.prems(3) that by (rule bspec)
    ultimately show ?thesis by force
  next
    case False
    then have "set (st_blobs st1) \<subseteq> set (st_blobs st)" using apply_blobs[OF st1] by blast
    with Cons.prems(3) show ?thesis by blast
  qed
  with Cons.IH[OF rest] Cons.prems(2) show ?case by simp
qed simp

lemma history_tenants:
  assumes "history_ok h n objects log st"
  shows "\<forall>e \<in> set (st_blobs st). is_ok (TenantId_new (fst (fst e)))"
proof -
  obtain opss where log: "log = map TxOps opss"
    and fold: "try_fold (State_apply h) State_default (concat opss) = Inr st"
    using assms by (auto simp: history_ok_def replay_fold)
  have "list_all op_ok (concat opss)" using assms by (simp add: history_ok_def log all_ops_def)
  from bound_tenants[OF fold this] show ?thesis by (simp add: State_default_def)
qed

lemma clear_snapshots_run:
  "clear_snapshots tx = (Inr (), tx\<lparr>tx_cache := filter (\<lambda>(_, f). case f of
     None \<Rightarrow> False | Some (g, _) \<Rightarrow> g \<in> set (map snd (st_generations (tx_state tx)))) (tx_cache tx)\<rparr>)"
  by (simp add: clear_snapshots_def cmd_simps)

text \<open>The cache files of the generations a state holds.\<close>

definition live_cache :: "State \<Rightarrow> (string, (string \<times> Snapshot) option) btree \<Rightarrow> (string, (string \<times> Snapshot) option) btree" where
  "live_cache st cache = filter (\<lambda>(_, f). case f of
     None \<Rightarrow> False | Some (g, _) \<Rightarrow> g \<in> set (map snd (st_generations st))) cache"

lemma open_checks_run:
  assumes "names_ok (tx_objects tx)" and "live h tx"
    and "\<forall>e \<in> set (st_blobs (tx_state tx)). is_ok (TenantId_new (fst (fst e)))"
  shows "open_checks h tx = (Inr (), tx\<lparr>tx_cache := live_cache (tx_state tx) (tx_cache tx),
    tx_objects := bt_retain (\<lambda>i. i \<in> blob_ids tx) (tx_objects tx)\<rparr>)"
proof -
  define cache where "cache = live_cache (tx_state tx) (tx_cache tx)"
  have cache: "clear_snapshots tx = (Inr (), tx\<lparr>tx_cache := cache\<rparr>)"
    by (simp add: clear_snapshots_run cache_def live_cache_def)
  let ?tx = "tx\<lparr>tx_cache := cache, tx_objects := bt_retain (\<lambda>i. i \<in> blob_ids tx) (tx_objects tx)\<rparr>"
  have clean: "clean_blobs (tx\<lparr>tx_cache := cache\<rparr>) = (Inr (), ?tx)"
    using clean_blobs_run[of "tx\<lparr>tx_cache := cache\<rparr>"] assms(1) by (simp add: blob_ids_def)
  have live: "live h ?tx" using assms(2) live_retain[of h "tx_objects tx" tx] by (simp add: live_live_at)
  have each: "c_each (\<lambda>(t, d). c_bind (c_lift (\<lambda>_. TenantId_new t)) (\<lambda>t'. check_object h (t', d))) ks ?tx = (Inr (), ?tx)"
    if "\<forall>k \<in> set ks. is_ok (TenantId_new (fst k))" for ks
    using that
  proof (induction ks)
    case (Cons k ks)
    obtain t d where k: "k = (t, d)" by (cases k)
    from Cons.prems obtain t' where "TenantId_new t = Inr t'" by (cases "TenantId_new t") (auto simp: k)
    with Cons check_object_run[OF live, of "(t', d)"] show ?case by (simp add: k cmd_simps)
  qed (simp add: cmd_simps)
  have "c_each (\<lambda>(t, d). c_bind (c_lift (\<lambda>_. TenantId_new t)) (\<lambda>t'. check_object h (t', d)))
      (map fst (st_blobs (tx_state ?tx))) ?tx = (Inr (), ?tx)"
    by (rule each) (use assms(3) in auto)
  with cache clean have "open_checks h tx = (Inr (), ?tx)" by (simp add: open_checks_def cmd_simps)
  then show ?thesis by (simp add: cache_def)
qed


section \<open>Entering\<close>

text \<open>
  A transaction finds the directory's object files, but for those nothing references, and the cache
  files of the history's generations.
\<close>

definition finds :: "FileEventStore \<Rightarrow> Transaction \<Rightarrow> bool" where
  "finds s tx \<longleftrightarrow> (\<forall>i b. bt_get (tx_objects tx) i = Some b \<longrightarrow> bt_get (fe_objects s) i = Some b) \<and>
     (tx_cache tx = fe_cache s \<or> tx_cache tx = live_cache (tx_state tx) (fe_cache s))"

text \<open>A transaction as its work finds it: nothing done yet, over the whole committed history.\<close>

definition entry :: "host \<Rightarrow> FileEventStore \<Rightarrow> Transaction \<Rightarrow> bool" where
  "entry h s tx \<longleftrightarrow> tx_log tx = hd_log (fe_head s) \<and> tx_pending tx = [] \<and> tx_written tx = [] \<and>
     tx_staged_blobs tx = [] \<and> \<not> tx_privacy tx \<and> \<not> tx_atomic_content tx \<and> \<not> tx_binds tx \<and>
     tx_inline tx = fe_inline s \<and> tx_permit tx = fe_permit s \<and> tx_content tx = fe_content s \<and>
     tx_tick tx = fe_tick s \<and> names_ok (tx_objects tx) \<and> finds s tx \<and>
     history_ok h (tx_tick tx) (tx_objects tx) (tx_log tx) (tx_state tx)"

lemma entry_history:
  "entry h s tx \<Longrightarrow> history_ok h (tx_tick tx) (tx_objects tx) (hd_log (fe_head s)) (tx_state tx)"
  by (auto simp: entry_def)

definition astray :: "FileEventStore \<Rightarrow> bool" where
  "astray s = (case fe_observed s of None \<Rightarrow> False | Some o1 \<Rightarrow> \<not> extends (fe_head s) o1)"

lemma entry_new:
  assumes "store_inv h s" and "replay h (hd_log (fe_head s)) = Inr st"
  shows "entry h s (new_transaction (s\<lparr>fe_verified := None\<rparr>) (hd_log (fe_head s)) st)"
  using assms by (auto simp: entry_def new_transaction_def store_inv_def history_ok_def finds_def)

lemma enter_complete_run:
  assumes inv: "store_inv h s" and ok: "\<not> astray s"
  shows "\<exists>tx. enter_complete h (s\<lparr>fe_verified := None\<rparr>) = (Inr tx, put_back (s\<lparr>fe_verified := None\<rparr>) tx) \<and> entry h s tx"
proof -
  obtain st where hist: "history_ok h (fe_tick s) (fe_objects s) (hd_log (fe_head s)) st"
    using inv by (auto simp: store_inv_def)
  then have rep: "replay h (hd_log (fe_head s)) = Inr st" by (simp add: history_ok_def)
  define t where "t = new_transaction (s\<lparr>fe_verified := None\<rparr>) (hd_log (fe_head s)) st"
  have t: "entry h s t" unfolding t_def using inv rep by (rule entry_new)
  have sel: "tx_state t = st" by (simp add: t_def new_transaction_def)
  have "names_ok (tx_objects t)" and live: "live h t"
    using t by (simp_all add: entry_def history_ok_def live_live_at)
  moreover have "\<forall>e \<in> set (st_blobs (tx_state t)). is_ok (TenantId_new (fst (fst e)))"
    using history_tenants[OF hist] by (simp add: sel)
  ultimately have run: "open_checks h t = (Inr (), t\<lparr>tx_cache := live_cache st (tx_cache t),
      tx_objects := bt_retain (\<lambda>i. i \<in> blob_ids t) (tx_objects t)\<rparr>)" (is "_ = (_, ?u)")
    using open_checks_run sel by blast
  have "tx_cache t = fe_cache s" by (simp add: t_def new_transaction_def)
  moreover have "finds s t" using t by (simp add: entry_def)
  ultimately have "finds s ?u" by (auto simp: finds_def sel bt_simps split: if_splits)
  moreover
  have "live_at h (tx_objects ?u) (tx_state t)"
    using live_retain[of h "tx_objects t" t] live by (simp add: live_live_at)
  ultimately have "entry h s ?u"
    using t by (auto simp: entry_def history_ok_def names_retain)
  moreover have "enter_complete h (s\<lparr>fe_verified := None\<rparr>) = (Inr ?u, put_back (s\<lparr>fe_verified := None\<rparr>) ?u)"
    using ok run rep by (auto simp: t_def enter_complete_def entered_def astray_def split: option.splits)
  ultimately show ?thesis by blast
qed

lemma enter_resume_run:
  assumes inv: "store_inv h s" and ok: "\<not> astray s" and o1: "fe_observed s = Some o1"
    and v: "usable_view s = Some v"
  shows "\<exists>tx. enter h (Some v) (s\<lparr>fe_verified := None\<rparr>) = (Inr tx, put_back (s\<lparr>fe_verified := None\<rparr>) tx) \<and> entry h s tx"
proof -
  have view: "vf_manifest v = o1" "vf_transactions v = hd_log o1" "replay h (hd_log o1) = Inr (vf_state v)"
    using v o1 inv by (auto simp: usable_view_def store_inv_def view_ok_def split: option.splits if_splits)
  have ext: "extends (fe_head s) o1" using ok o1 by (simp add: astray_def)
  then obtain fresh where log: "hd_log (fe_head s) = hd_log o1 @ fresh"
    by (auto simp: extends_def prefix_def)
  obtain st where hist: "history_ok h (fe_tick s) (fe_objects s) (hd_log (fe_head s)) st"
    using inv by (auto simp: store_inv_def)
  then have rep: "replay h (hd_log (fe_head s)) = Inr st" by (simp add: history_ok_def)
  obtain bs where fold: "fold_fresh h (vf_state v) [] fresh = Inr (st, bs)"
    using fold_fresh_total[OF view(3)] rep log by metis
  let ?t = "new_transaction (s\<lparr>fe_verified := None\<rparr>) (hd_log (fe_head s)) st"
  have t: "entry h s ?t" using inv rep by (rule entry_new)
  then have "live h ?t" by (simp add: entry_def history_ok_def live_live_at)
  then have "resume_checks h bs ?t = (Inr (), ?t)" by (rule resume_checks_run)
  then have "enter h (Some v) (s\<lparr>fe_verified := None\<rparr>) = (Inr ?t, put_back (s\<lparr>fe_verified := None\<rparr>) ?t)"
    using o1 ext view log fold by (simp add: enter_def entered_def)
  with t show ?thesis by blast
qed

lemma enter_run:
  assumes inv: "store_inv h s"
  shows "if astray s then enter h (usable_view s) (s\<lparr>fe_verified := None\<rparr>) = (Inl diverged, s\<lparr>fe_verified := None\<rparr>)
    else \<exists>tx. enter h (usable_view s) (s\<lparr>fe_verified := None\<rparr>) =
      (Inr tx, put_back (s\<lparr>fe_verified := None\<rparr>) tx) \<and> entry h s tx"
proof (cases "astray s")
  case True
  then obtain o1 where "fe_observed s = Some o1" "\<not> extends (fe_head s) o1"
    by (auto simp: astray_def split: option.splits)
  then show ?thesis using True by (auto simp: enter_def enter_complete_def split: option.splits)
next
  case False
  show ?thesis
  proof (cases "fe_observed s")
    case None
    then show ?thesis using enter_complete_run[OF inv False] False by (simp add: enter_def)
  next
    case (Some o1)
    show ?thesis
    proof (cases "usable_view s")
      case None
      then show ?thesis using enter_complete_run[OF inv False] False Some by (simp add: enter_def)
    next
      case v: (Some v)
      show ?thesis using enter_resume_run[OF inv False Some v] False by (simp add: v)
    qed
  qed
qed


section \<open>Leaving\<close>

lemma names_adds: "names_ok (tx_objects s) \<Longrightarrow> adds_objects s s' \<Longrightarrow> names_ok (tx_objects s')"
  unfolding names_ok_def adds_objects_def by metis

lemma history_mono: "history_ok h n objects log st \<Longrightarrow> n \<le> m \<Longrightarrow>
    (\<And>i c. bt_get objects i = Some c \<Longrightarrow> bt_get objects' i = Some c) \<Longrightarrow> history_ok h m objects' log st"
  unfolding history_ok_def live_at_def ids_ok_def by (fastforce simp: lessThan_def)

lemma discard_run:
  assumes "\<forall>i \<in> set (tx_staged_blobs tx @ tx_written tx). validate_object i = Inr ()"
  shows "c_bind cleanup_staged_blobs (\<lambda>_. discard_written) tx = (Inr (),
    tx\<lparr>tx_objects := bt_retain (\<lambda>i. i \<notin> set (tx_staged_blobs tx @ tx_written tx)) (tx_objects tx)\<rparr>)"
proof -
  have loop: "c_each (\<lambda>i. c_bind (c_lift (\<lambda>_. validate_object i)) (\<lambda>_.
      c_modify (\<lambda>s. s\<lparr>tx_objects := bt_remove i (tx_objects s)\<rparr>))) ws t =
      (Inr (), t\<lparr>tx_objects := bt_retain (\<lambda>i. i \<notin> set ws) (tx_objects t)\<rparr>)"
    if "\<forall>i \<in> set ws. validate_object i = Inr ()" for ws t
    using that
  proof (induction ws arbitrary: t)
    case Nil
    then show ?case by (simp add: cmd_simps bt_retain_def)
  next
    case (Cons i ws)
    have "bt_retain (\<lambda>j. j \<notin> set ws) (bt_remove i (tx_objects t)) = bt_retain (\<lambda>j. j \<notin> set (i # ws)) (tx_objects t)"
      by (auto simp: bt_retain_def bt_remove_def intro!: filter_cong)
    with Cons show ?case by (simp add: cmd_simps)
  qed
  have "bt_retain (\<lambda>i. i \<notin> set (tx_written tx)) (bt_retain (\<lambda>i. i \<notin> set (tx_staged_blobs tx)) (tx_objects tx)) =
      bt_retain (\<lambda>i. i \<notin> set (tx_staged_blobs tx @ tx_written tx)) (tx_objects tx)"
    by (auto simp: bt_retain_def intro!: filter_cong)
  then show ?thesis
    using assms loop[of "tx_written tx"
        "tx\<lparr>tx_objects := bt_retain (\<lambda>i. i \<notin> set (tx_staged_blobs tx)) (tx_objects tx)\<rparr>"]
    by (simp add: cleanup_staged_blobs_def discard_written_def cmd_simps)
qed

text \<open>What a refused transaction leaves: the directory it found, and nothing of its own.\<close>

lemma refuse_run:
  assumes inv: "store_inv h s" and t: "entry h s tx" and snd: "sound tx tx1"
    and s1: "s1 = put_back (s\<lparr>fe_verified := None\<rparr>) tx" and run: "refuse s1 tx1 e = (e', s2)"
  shows "e' = e \<and> store_inv h s2 \<and> fe_head s2 = fe_head s \<and>
    (\<forall>i. bt_get (fe_objects s2) i = bt_get (tx_objects tx) i) \<and> (astray s2 \<longrightarrow> astray s) \<and>
    fe_inline s2 = fe_inline s \<and> fe_permit s2 = fe_permit s \<and> fe_frozen s2 = fe_frozen s"
proof -
  have ad: "adds_objects tx tx1" and tr: "tracks tx tx1" using snd by (simp_all add: sound_def)
  then obtain ws gs where w: "tx_written tx1 = ws" "tx_staged_blobs tx1 = gs"
    "\<forall>i \<in> set (ws @ gs). bt_get (tx_objects tx) i = None \<and> bt_get (tx_objects tx1) i \<noteq> None \<and> validate_object i = Inr ()"
    "\<forall>i. i \<notin> set (ws @ gs) \<longrightarrow> bt_get (tx_objects tx1) i = bt_get (tx_objects tx) i"
    using t unfolding adds_objects_def entry_def by auto
  have hist: "history_ok h (tx_tick tx) (tx_objects tx) (hd_log (fe_head s)) (tx_state tx)"
    and nm: "names_ok (tx_objects tx)" and log: "tx_log tx = hd_log (fe_head s)" and pend: "tx_pending tx = []"
    and priv: "\<not> tx_privacy tx" using t by (auto simp: entry_def)
  show ?thesis
  proof (cases "tx_pending tx1 = [] \<and> tx_written tx1 = [] \<and> tx_staged_blobs tx1 = [] \<and> \<not> tx_privacy tx1 \<and>
      \<not> tx_atomic_content tx1")
    case True
    then have s2: "e' = e" "s2 = (put_back s1 tx1)\<lparr>fe_observed := Some (fe_head s1),
        fe_verified := Some \<lparr>vf_manifest = fe_head s1, vf_transactions = tx_log tx1, vf_state = tx_state tx1\<rparr>\<rparr>"
      using run by (auto simp: refuse_def)
    have same: "tx_state tx1 = tx_state tx" "tx_log tx1 = tx_log tx" "tx_tick tx \<le> tx_tick tx1"
      using tr True pend by (auto simp: tracks_def)
    have obj: "bt_get (tx_objects tx1) i = bt_get (tx_objects tx) i" for i using w True by simp
    have "history_ok h (tx_tick tx1) (tx_objects tx1) (hd_log (fe_head s)) (tx_state tx)"
      using history_mono[OF hist same(3)] obj by simp
    then have "store_inv h s2"
      using nm hist obj same log
      by (auto simp: store_inv_def s2 s1 put_back_def view_ok_def names_ok_def history_ok_def)
    moreover have "\<not> astray s2" by (simp add: astray_def extends_def s2 s1 put_back_def)
    ultimately show ?thesis using obj s2 by (simp add: s1 put_back_def)
  next
    case False
    let ?tx = "tx1\<lparr>tx_objects := bt_retain (\<lambda>i. i \<notin> set (gs @ ws)) (tx_objects tx1)\<rparr>"
    have "c_bind cleanup_staged_blobs (\<lambda>_. discard_written) tx1 = (Inr (), ?tx)"
      using discard_run[of tx1] w by auto
    then have s2: "e' = e" "s2 = put_back s1 ?tx"
      using run False by (auto simp: refuse_def)
    have obj: "bt_get (tx_objects ?tx) i = bt_get (tx_objects tx) i" for i
      using w(3,4) by (cases "i \<in> set (ws @ gs)") (auto simp: bt_simps)
    have "history_ok h (tx_tick tx1) (tx_objects ?tx) (hd_log (fe_head s)) (tx_state tx)"
      using history_mono[OF hist, of "tx_tick tx1" "tx_objects ?tx"] tr obj by (simp add: tracks_def)
    then have "store_inv h s2"
      using nm obj by (auto simp: store_inv_def s2 s1 put_back_def view_ok_def names_ok_def)
    then show ?thesis using obj s2 by (simp add: s1 put_back_def astray_def split: option.splits)
  qed
qed

lemma watermark_same: "State_apply h st (OpWatermark (st_next_position st)) = Inr st"
  by simp

lemma history_commit:
  assumes t: "entry h s tx" and g: "good h tx tx1" and ne: "tx_pending tx1 \<noteq> []"
  shows "history_ok h (tx_tick tx1) (tx_objects tx1) (hd_log (fe_head s) @ [TxOps (pending_ops tx1)]) (tx_state tx1)"
proof -
  obtain ops ns where ops: "tx_pending tx1 = ops" "try_fold (State_apply h) (tx_state tx) ops = Inr (tx_state tx1)"
    "list_all op_ok ops" "event_ids ops = map (uuid_at h) ns" "sorted_wrt (<) ns" "set ns \<subseteq> {tx_tick tx..<tx_tick tx1}"
    using t g unfolding good_def records_def entry_def by auto
  have hist: "history_ok h (tx_tick tx) (tx_objects tx) (hd_log (fe_head s)) (tx_state tx)"
    using t by (auto simp: entry_def)
  then obtain ms where ms: "event_ids (all_ops (hd_log (fe_head s))) = map (uuid_at h) ms" "sorted_wrt (<) ms"
    "set ms \<subseteq> {..<tx_tick tx}" unfolding history_ok_def ids_ok_def by blast
  have pend: "pending_ops tx1 = ops @ [OpWatermark (st_next_position (tx_state tx1))]"
    using ops(1) ne by (simp add: pending_ops_def)
  have "try_fold (State_apply h) (tx_state tx) (pending_ops tx1) = Inr (tx_state tx1)"
    using ops(2) watermark_same by (simp add: pend try_fold_append del: State_apply.simps)
  then have "replay h (hd_log (fe_head s) @ [TxOps (pending_ops tx1)]) = Inr (tx_state tx1)"
    using replay_append hist by (simp add: history_ok_def)
  moreover have "live_at h (tx_objects tx1) (tx_state tx1)"
    using g hist t by (auto simp: good_def live_live_at history_ok_def entry_def)
  moreover have "list_all op_ok (all_ops (hd_log (fe_head s)) @ pending_ops tx1)"
    using hist ops(3) by (simp add: pend history_ok_def)
  moreover have "ids_ok h (tx_tick tx1) (all_ops (hd_log (fe_head s)) @ pending_ops tx1)"
  proof -
    have "event_ids (all_ops (hd_log (fe_head s)) @ pending_ops tx1) = map (uuid_at h) (ms @ ns)"
      using ms(1) ops(4) by (simp add: pend)
    moreover have "sorted_wrt (<) (ms @ ns)" using ms(2,3) ops(5,6) by (fastforce simp: sorted_wrt_append)
    moreover have "tx_tick tx \<le> tx_tick tx1" using g by (simp add: good_def records_def)
    then have "set (ms @ ns) \<subseteq> {..<tx_tick tx1}" using ms(3) ops(6) by fastforce
    ultimately show ?thesis unfolding ids_ok_def by blast
  qed
  ultimately show ?thesis by (simp add: history_ok_def)
qed

definition same_handle :: "FileEventStore \<Rightarrow> FileEventStore \<Rightarrow> bool" where
  "same_handle s s2 \<longleftrightarrow> fe_inline s2 = fe_inline s \<and> fe_permit s2 = fe_permit s \<and> fe_frozen s2 = fe_frozen s"

text \<open>What a committed transaction leaves: one more transaction in the history, and its state.\<close>

definition commits :: "host \<Rightarrow> FileEventStore \<Rightarrow> Transaction \<Rightarrow> FileEventStore \<Rightarrow> bool" where
  "commits h s tx s2 \<longleftrightarrow> same_handle s s2 \<and>
     fe_head s2 = (fe_head s)\<lparr>hd_log := hd_log (fe_head s) @
       (if tx_pending tx = [] then [] else [TxOps (pending_ops tx)])\<rparr> \<and>
     history_ok h (fe_tick s2) (fe_objects s2) (hd_log (fe_head s2)) (tx_state tx) \<and>
     fe_observed s2 = Some (fe_head s2) \<and> fe_cache s2 = tx_cache tx \<and> fe_content s2 = tx_content tx \<and>
     fe_tick s2 = tx_tick tx \<and> (\<forall>i \<in> blob_ids tx. bt_get (fe_objects s2) i = bt_get (tx_objects tx) i)"

definition room :: "FileEventStore \<Rightarrow> bool" where
  "room s \<longleftrightarrow> length (hd_log (fe_head s)) + 1 < 2 ^ 64"

lemma view_ok_Some:
  "history_ok h n objects (hd_log m) st \<Longrightarrow> fe_verified s = Some \<lparr>vf_manifest = m, vf_transactions = hd_log m, vf_state = st\<rparr> \<Longrightarrow> view_ok h s"
  by (simp add: view_ok_def history_ok_def)

lemma after_commit_run:
  assumes "names_ok (tx_objects tx)" and "\<not> tx_privacy tx"
  shows "after_commit tx = (Inr (), if tx_pending tx = [] then tx
    else tx\<lparr>tx_objects := bt_retain (\<lambda>i. i \<in> blob_ids tx) (tx_objects tx)\<rparr>)"
  using assms clean_blobs_run[OF assms(1)] by (simp add: after_commit_def)

lemma commit_run:
  assumes inv: "store_inv h s" and t: "entry h s tx" and g: "good h tx tx1" and rm: "tx_pending tx1 = [] \<or> room s"
    and s1: "s1 = put_back (s\<lparr>fe_verified := None\<rparr>) tx"
  shows "\<exists>s2. commit s1 tx1 = (Inr (), s2) \<and> store_inv h s2 \<and> commits h s tx1 s2"
proof -
  have snd: "tracks tx tx1" "adds_objects tx tx1" using g by (simp_all add: good_def sound_def)
  have hist: "history_ok h (tx_tick tx) (tx_objects tx) (hd_log (fe_head s)) (tx_state tx)"
    and nm: "names_ok (tx_objects tx1)" and log: "tx_log tx1 = hd_log (fe_head s)" and priv: "\<not> tx_privacy tx1"
    and head: "fe_head s1 = fe_head s"
    using t snd names_adds by (auto simp: entry_def tracks_def s1 put_back_def)
  let ?tx = "if tx_pending tx1 = [] then tx1
    else tx1\<lparr>tx_objects := bt_retain (\<lambda>i. i \<in> blob_ids tx1) (tx_objects tx1)\<rparr>"
  let ?m = "(fe_head s)\<lparr>hd_log := hd_log (fe_head s) @
      (if tx_pending tx1 = [] then [] else [TxOps (pending_ops tx1)])\<rparr>"
  let ?v = "\<lparr>vf_manifest = ?m, vf_transactions = hd_log ?m, vf_state = tx_state tx1\<rparr>"
  have pub: "publish (fe_head s1) tx1 = Inr (?m, hd_log ?m)"
    using priv rm log by (auto simp: publish_def head journal_append_def room_def)
  define s2 where "s2 = (put_back s1 ?tx)\<lparr>fe_head := ?m, fe_observed := Some ?m, fe_verified := Some ?v\<rparr>"
  have run: "commit s1 tx1 = (Inr (), s2)"
    using pub after_commit_run[OF nm priv] priv by (simp add: commit_def s2_def)
  have H: "history_ok h (tx_tick tx1) (tx_objects ?tx) (hd_log ?m) (tx_state tx1)"
  proof (cases "tx_pending tx1 = []")
    case True
    with g t have "tx_state tx1 = tx_state tx" by (auto simp: good_def sound_def tracks_def entry_def)
    with True history_mono[OF hist, of "tx_tick tx1" "tx_objects tx1"] adds_objects_keep[OF snd(2)] snd(1)
    show ?thesis by (simp add: tracks_def)
  next
    case False
    then show ?thesis
      using history_commit[OF t g False] live_retain[of h "tx_objects tx1" tx1] by (simp add: history_ok_def)
  qed
  have sel: "fe_head s2 = ?m" "fe_tick s2 = tx_tick tx1" "fe_objects s2 = tx_objects ?tx" "fe_verified s2 = Some ?v"
    "fe_observed s2 = Some ?m" "fe_cache s2 = tx_cache tx1" "fe_content s2 = tx_content tx1" "same_handle s s2"
    by (simp_all add: s2_def s1 put_back_def same_handle_def)
  have "names_ok (tx_objects ?tx)" using nm names_retain by simp
  with H view_ok_Some[OF H, of s2] have "store_inv h s2" unfolding store_inv_def sel by blast
  moreover have "\<forall>i \<in> blob_ids tx1. bt_get (tx_objects ?tx) i = bt_get (tx_objects tx1) i"
    by (simp add: bt_simps)
  then have "commits h s tx1 s2" unfolding commits_def sel using H sel(8) by simp
  ultimately show ?thesis using run by blast
qed

text \<open>A full journal refuses the commit and keeps the history.\<close>

lemma commit_full:
  assumes inv: "store_inv h s" and t: "entry h s tx" and g: "good h tx tx1" and full: "tx_pending tx1 \<noteq> []" "\<not> room s"
    and s1: "s1 = put_back (s\<lparr>fe_verified := None\<rparr>) tx"
  shows "\<exists>e s2. commit s1 tx1 = (Inl e, s2) \<and> store_inv h s2 \<and> fe_head s2 = fe_head s \<and> (astray s2 \<longrightarrow> astray s)"
proof -
  have snd: "tracks tx tx1" "adds_objects tx tx1" using g by (simp_all add: good_def sound_def)
  have hist: "history_ok h (tx_tick tx) (tx_objects tx) (hd_log (fe_head s)) (tx_state tx)"
    and nm: "names_ok (tx_objects tx1)" and priv: "\<not> tx_privacy tx1" and head: "fe_head s1 = fe_head s"
    using t snd names_adds by (auto simp: entry_def tracks_def s1 put_back_def)
  obtain e where "publish (fe_head s1) tx1 = Inl e"
    using priv full by (auto simp: publish_def head journal_append_def room_def)
  then have run: "commit s1 tx1 = (Inl e, forget_if_binds tx1 (put_back s1 tx1))" by (simp add: commit_def)
  have "history_ok h (tx_tick tx1) (tx_objects tx1) (hd_log (fe_head s)) (tx_state tx)"
    using history_mono[OF hist] adds_objects_keep[OF snd(2)] snd(1) by (simp add: tracks_def)
  with nm run show ?thesis
    by (auto simp: store_inv_def forget_if_binds_def s1 put_back_def view_ok_def astray_def split: option.splits)
qed

text \<open>The work of an operation that is not a privacy rewrite.\<close>

definition ordinary :: "host \<Rightarrow> 'a txop \<Rightarrow> bool" where
  "ordinary h work \<longleftrightarrow> steps sound work \<and> ok_steps (good h) work"

definition tame :: "host \<Rightarrow> FileEventStore \<Rightarrow> 'a txop \<Rightarrow> bool" where
  "tame h s work \<longleftrightarrow> (\<forall>tx r tx1. entry h s tx \<longrightarrow> work tx = (r, tx1) \<longrightarrow>
     sound tx tx1 \<and> (\<forall>x. r = Inr x \<longrightarrow> good h tx tx1))"

lemma ordinary_tame [intro]: "ordinary h work \<Longrightarrow> tame h s work"
  unfolding ordinary_def tame_def by (auto dest: stepsD[of sound] ok_stepsD[of "good h"])

definition refused :: "FileEventStore \<Rightarrow> Transaction \<Rightarrow> FileEventStore \<Rightarrow> bool" where
  "refused s tx s2 \<longleftrightarrow> same_handle s s2 \<and> fe_head s2 = fe_head s \<and> (astray s2 \<longrightarrow> astray s) \<and>
     (\<forall>i. bt_get (fe_objects s2) i = bt_get (tx_objects tx) i)"

lemma sound_forget: "sound tx tx1 \<Longrightarrow> sound tx (tx1\<lparr>tx_content := c\<rparr>)"
  by (simp add: sound_def tracks_def adds_objects_def)

text \<open>
  One transaction of an ordinary operation, from the invariant: it runs its work on the replayed
  history, and ends committed or refused; an astray handle refuses before any work.
\<close>

lemma transact_run:
  assumes inv: "store_inv h s" and ok: "\<not> astray s" and rm: "room s" and work: "tame h s work"
  obtains tx r tx1 s2 where "entry h s tx" and "work tx = (r, tx1)" and "transact h work s = (r, s2)"
    and "store_inv h s2" and "\<not> astray s2"
    and "case r of Inl _ \<Rightarrow> refused s tx s2 | Inr _ \<Rightarrow> good h tx tx1 \<and> commits h s tx1 s2"
proof -
  let ?s = "s\<lparr>fe_verified := None\<rparr>"
  obtain tx where ent: "enter h (usable_view s) ?s = (Inr tx, put_back ?s tx)" and t: "entry h s tx"
    using enter_run[OF inv] ok by auto
  obtain r tx1 where w: "work tx = (r, tx1)" by (cases "work tx")
  have snd: "sound tx tx1" using work w t by (simp add: tame_def)
  show ?thesis
  proof (cases r)
    case (Inl e)
    let ?u = "if tx_binds tx1 then tx1\<lparr>tx_content := forget (tx_content tx1)\<rparr> else tx1"
    obtain e' s2 where ref: "refuse (put_back ?s tx) ?u e = (e', s2)" by (cases "refuse (put_back ?s tx) ?u e")
    have "sound tx ?u" using snd sound_forget by simp
    from refuse_run[OF inv t this refl ref] have "e' = e" "store_inv h s2" "refused s tx s2"
      by (auto simp: refused_def same_handle_def)
    moreover have "transact h work s = (Inl e', s2)"
      using ent w Inl ref by (simp add: transact_def)
    ultimately show ?thesis using that[OF t w] Inl ok by (auto simp: refused_def)
  next
    case (Inr x)
    have g: "good h tx tx1" using work w Inr t by (simp add: tame_def)
    obtain s2 where c: "commit (put_back ?s tx) tx1 = (Inr (), s2)" and s2: "store_inv h s2" "commits h s tx1 s2"
      using commit_run[OF inv t g _ refl] rm by blast
    have "transact h work s = (Inr x, s2)" using ent w Inr c by (simp add: transact_def)
    moreover have "\<not> astray s2" using s2(2) by (simp add: commits_def astray_def extends_def)
    ultimately show ?thesis using that[OF t w] Inr s2 g by simp
  qed
qed

lemma transact_inv:
  assumes inv: "store_inv h s" and work: "tame h s work"
  shows "store_inv h (snd (transact h work s))"
proof (cases "astray s")
  case True
  then have "transact h work s = (Inl diverged, s\<lparr>fe_verified := None\<rparr>)"
    using enter_run[OF inv] by (simp add: transact_def)
  then show ?thesis using inv by (simp add: store_inv_def view_ok_def)
next
  case ok: False
  show ?thesis
  proof (cases "room s")
    case True
    show ?thesis by (rule transact_run[OF inv ok True work]) simp
  next
    case False
    let ?s = "s\<lparr>fe_verified := None\<rparr>"
    obtain tx where ent: "enter h (usable_view s) ?s = (Inr tx, put_back ?s tx)" and t: "entry h s tx"
      using enter_run[OF inv] ok by auto
    obtain r tx1 where w: "work tx = (r, tx1)" by (cases "work tx")
    have snd: "sound tx tx1" using work w t by (simp add: tame_def)
    show ?thesis
    proof (cases r)
      case (Inl e)
      let ?u = "if tx_binds tx1 then tx1\<lparr>tx_content := forget (tx_content tx1)\<rparr> else tx1"
      obtain e' s2 where ref: "refuse (put_back ?s tx) ?u e = (e', s2)" by (cases "refuse (put_back ?s tx) ?u e")
      have "sound tx ?u" using snd sound_forget by simp
      from refuse_run[OF inv t this refl ref] have "store_inv h s2" by blast
      then show ?thesis using ent w Inl ref by (simp add: transact_def)
    next
      case (Inr x)
      have g: "good h tx tx1" using work w Inr t by (simp add: tame_def)
      obtain r2 s2 where "commit (put_back ?s tx) tx1 = (r2, s2)" "store_inv h s2"
        using commit_run[OF inv t g _ refl] commit_full[OF inv t g _ False refl] by metis
      then show ?thesis using ent w Inr by (cases r2) (simp_all add: transact_def)
    qed
  qed
qed

end
