(* ===== verification/StorePrivacy.thy ===== *)
theory StorePrivacy
  imports StoreInv
begin

text \<open>
  The two privacy operations of the file store. Both replay a rewritten history and publish it under
  a new epoch; neither can leave the store unable to open. The section ends with what erasure and
  redaction guarantee to the data they are asked to remove.
\<close>

section \<open>Owners and ids of the recorded operations\<close>

definition owner_of :: "string \<Rightarrow> TenantId option" where
  "owner_of c = scope_tenant (SOME s. coordinate s = Inr c)"

lemma owner_of_coordinate:
  assumes "coordinate s = Inr c"
  shows "owner_of c = scope_tenant s"
proof -
  have "s' = s" if "coordinate s' = Inr c" for s'
    using coordinate_of_inj[of s' s] assms that by (simp add: coordinate_of_def)
  with assms have "(SOME s'. coordinate s' = Inr c) = s" by (rule some_equality)
  then show ?thesis by (simp add: owner_of_def)
qed

lemma op_ok_labelled: "op_ok op \<Longrightarrow> labelled owner_of op"
  using owner_of_coordinate by (cases op) auto

lemma op_ok_forget: "list_all op_ok ops \<Longrightarrow> list_all op_ok (forget_ops t ops)"
  by (simp add: forget_ops_def list_all_iff)

lemma op_ok_redact: "list_all op_ok ops \<Longrightarrow> list_all op_ok (redact_ops t e ops)"
proof -
  have "op_ok (replace_event e op) = op_ok op" for op by (cases op) auto
  then show "list_all op_ok ops \<Longrightarrow> ?thesis" by (auto simp: redact_ops_def list_all_iff)
qed

lemma ids_filter:
  assumes "event_ids ops = map f ns" and "sorted_wrt (<) (ns :: nat list)"
  shows "\<exists>ms. event_ids (filter P ops) = map f ms \<and> sorted_wrt (<) ms \<and> set ms \<subseteq> set ns"
  using assms
proof (induction ops arbitrary: ns)
  case (Cons op ops)
  show ?case
  proof (cases "event_ids [op]")
    case Nil
    then have "event_ids (op # xs) = event_ids xs" for xs by simp
    with Cons show ?thesis by (auto simp del: event_ids.simps)
  next
    case one: (Cons i rest)
    then have i: "event_ids [op] = [i]" and ops: "event_ids (op # xs) = i # event_ids xs" for xs
      by (auto split: Op.splits)
    with Cons.prems obtain n ns' where ns: "ns = n # ns'" "i = f n" "event_ids ops = map f ns'"
      "sorted_wrt (<) ns'" "\<forall>m \<in> set ns'. n < m" by (cases ns) auto
    obtain ms where ms: "event_ids (filter P ops) = map f ms" "sorted_wrt (<) ms" "set ms \<subseteq> set ns'"
      using Cons.IH[OF ns(3,4)] by blast
    show ?thesis
    proof (cases "P op")
      case True
      have "event_ids (filter P (op # ops)) = map f (n # ms)" using True ops ms(1) ns(2) by simp
      moreover have "sorted_wrt (<) (n # ms)" using ms(2,3) ns(5) by auto
      ultimately show ?thesis using ms(3) ns(1) by (intro exI[of _ "n # ms"]) auto
    next
      case False
      then show ?thesis using ms ns(1) by (intro exI[of _ ms]) auto
    qed
  qed
qed simp

lemma ids_ok_filter: "ids_ok h n ops \<Longrightarrow> ids_ok h n (filter P ops)"
  unfolding ids_ok_def using ids_filter by (metis subset_trans)

lemma ids_replace: "event_ids (map (replace_event e) ops) = event_ids ops"
proof (induction ops)
  case (Cons op ops)
  then show ?case by (cases op) auto
qed simp

lemma all_ops_rewrite:
  "rewrite_log f log = (Inr (), log') \<Longrightarrow> all_ops log' = concat (map f (map tx_ops log))"
proof (induction log arbitrary: log')
  case (Cons tx log)
  then show ?case by (cases tx) (auto simp: all_ops_def split: prod.splits)
qed (simp add: all_ops_def)


section \<open>Publishing a rewritten history\<close>

text \<open>What a privacy rewrite leaves: the rewritten history under the next epoch, only live objects, and
  only snapshots of live generations.\<close>

definition republished :: "host \<Rightarrow> FileEventStore \<Rightarrow> Transaction \<Rightarrow> transaction list \<Rightarrow> FileEventStore \<Rightarrow> bool" where
  "republished h s tx log s2 \<longleftrightarrow> same_handle s s2 \<and> hd_store (fe_head s2) = hd_store (fe_head s) \<and>
     unat (hd_epoch (fe_head s2)) = Suc (unat (hd_epoch (fe_head s))) \<and> hd_log (fe_head s2) = log \<and>
     history_ok h (fe_tick s2) (fe_objects s2) log (tx_state tx) \<and>
     fe_observed s2 = Some (fe_head s2) \<and> fe_content s2 = tx_content tx \<and>
     (\<forall>i. bt_get (fe_objects s2) i \<noteq> None \<longleftrightarrow> i \<in> blob_ids tx) \<and>
     (\<forall>(p, f) \<in> set (fe_cache s2). (p, f) \<in> set (tx_cache tx) \<and>
        (\<exists>g sn. f = Some (g, sn) \<and> g \<in> snd ` set (st_generations (tx_state tx))))"

definition epoch_room :: "FileEventStore \<Rightarrow> bool" where
  "epoch_room s \<longleftrightarrow> unat (hd_epoch (fe_head s)) + 1 < 2 ^ 64"

lemma privacy_commit:
  assumes s1: "s1 = put_back (s\<lparr>fe_verified := None\<rparr>) tx" and nm: "names_ok (tx_objects tx1)" and priv: "tx_privacy tx1"
    and log: "log = tx_log tx1 @ (if pending_ops tx1 = [] then [] else [TxOps (pending_ops tx1)])"
    and hist: "history_ok h (tx_tick tx1) (tx_objects tx1) log (tx_state tx1)" and room: "epoch_room s"
  shows "\<exists>s2. commit s1 tx1 = (Inr (), s2) \<and> store_inv h s2 \<and> republished h s tx1 log s2"
proof -
  obtain e where e: "checked_add (hd_epoch (fe_head s)) 1 = Some e" "unat e = Suc (unat (hd_epoch (fe_head s)))"
  proof -
    have "checked_add (hd_epoch (fe_head s)) 1 \<noteq> None"
      using room unfolding checked_add_None_iff by (simp add: epoch_room_def)
    then obtain e where "checked_add (hd_epoch (fe_head s)) 1 = Some e" by blast
    with that checked_add_SomeD[OF this] show ?thesis by simp
  qed
  define cache where "cache = filter (\<lambda>(_, f). case f of None \<Rightarrow> False
     | Some (g, _) \<Rightarrow> g \<in> set (map snd (st_generations (tx_state tx1)))) (tx_cache tx1)"
  let ?m = "(fe_head s)\<lparr>hd_epoch := e, hd_log := log\<rparr>"
  let ?tx = "tx1\<lparr>tx_cache := cache, tx_objects := bt_retain (\<lambda>i. i \<in> blob_ids tx1) (tx_objects tx1)\<rparr>"
  have pub: "publish (fe_head s1) tx1 = Inr (?m, log)"
    using priv e(1) by (simp add: publish_def journal_privacy_def log s1 put_back_def Let_def)
  have "clean_blobs (tx1\<lparr>tx_cache := cache\<rparr>) = (Inr (), ?tx)"
    using clean_blobs_run[of "tx1\<lparr>tx_cache := cache\<rparr>"] nm by (simp add: blob_ids_def)
  then have aft: "after_commit tx1 = (Inr (), ?tx)"
    using priv clear_snapshots_run[of tx1, folded cache_def] by (simp add: after_commit_def)
  define s2 where "s2 = (put_back s1 ?tx)\<lparr>fe_head := ?m, fe_observed := Some ?m, fe_verified := None\<rparr>"
  have run: "commit s1 tx1 = (Inr (), s2)" using pub aft priv by (simp add: commit_def s2_def)
  have sel: "fe_head s2 = ?m" "fe_tick s2 = tx_tick tx1" "fe_objects s2 = tx_objects ?tx" "fe_verified s2 = None"
    "fe_observed s2 = Some ?m" "fe_cache s2 = cache" "fe_content s2 = tx_content tx1" "same_handle s s2"
    by (simp_all add: s2_def s1 put_back_def same_handle_def)
  have H: "history_ok h (tx_tick tx1) (tx_objects ?tx) log (tx_state tx1)"
    using hist live_retain[of h "tx_objects tx1" tx1] by (simp add: history_ok_def)
  have "names_ok (tx_objects ?tx)" using nm names_retain by simp
  with H have "store_inv h s2" by (auto simp: store_inv_def sel view_ok_def)
  moreover have "bt_get (tx_objects ?tx) i \<noteq> None \<longleftrightarrow> i \<in> blob_ids tx1" for i
  proof -
    have "bt_get (tx_objects tx1) i \<noteq> None" if "i \<in> blob_ids tx1"
      using that hist by (force simp: blob_ids_def history_ok_def live_at_def)
    then show ?thesis by (auto simp: bt_simps)
  qed
  then have "republished h s tx1 log s2"
    using H e(2) by (auto simp: republished_def sel cache_def split: option.splits)
  ultimately show ?thesis using run by blast
qed

lemma transact_rewrite:
  assumes inv: "store_inv h s" and ok: "\<not> astray s" and room: "epoch_room s"
    and work: "\<And>tx. entry h s tx \<Longrightarrow> \<exists>x tx1. work tx = (Inr x, tx1) \<and> P tx x tx1 \<and> tx_privacy tx1 \<and>
      tx_objects tx1 = tx_objects tx \<and> tx_tick tx \<le> tx_tick tx1 \<and> history_ok h (tx_tick tx1) (tx_objects tx1)
        (tx_log tx1 @ (if pending_ops tx1 = [] then [] else [TxOps (pending_ops tx1)])) (tx_state tx1)"
  shows "\<exists>tx x tx1 s2. entry h s tx \<and> P tx x tx1 \<and> transact h work s = (Inr x, s2) \<and> store_inv h s2 \<and> \<not> astray s2 \<and>
    republished h s tx1 (tx_log tx1 @ (if pending_ops tx1 = [] then [] else [TxOps (pending_ops tx1)])) s2"
proof -
  let ?s = "s\<lparr>fe_verified := None\<rparr>"
  obtain tx where ent: "enter h (usable_view s) ?s = (Inr tx, put_back ?s tx)" and t: "entry h s tx"
    using enter_run[OF inv] ok by auto
  obtain x tx1 where w: "work tx = (Inr x, tx1)" "P tx x tx1" "tx_privacy tx1" "tx_objects tx1 = tx_objects tx"
    "history_ok h (tx_tick tx1) (tx_objects tx1)
        (tx_log tx1 @ (if pending_ops tx1 = [] then [] else [TxOps (pending_ops tx1)])) (tx_state tx1)"
    using work[OF t] by blast
  have nm: "names_ok (tx_objects tx1)" using t w(4) by (simp add: entry_def)
  obtain s2 where c: "commit (put_back ?s tx) tx1 = (Inr (), s2)" and s2: "store_inv h s2"
    "republished h s tx1 (tx_log tx1 @ (if pending_ops tx1 = [] then [] else [TxOps (pending_ops tx1)])) s2"
    using privacy_commit[OF refl nm w(3) refl w(5) room] by blast
  have "transact h work s = (Inr x, s2)" using ent w(1) c by (simp add: transact_def)
  moreover have "\<not> astray s2" using s2(2) by (simp add: republished_def astray_def extends_def)
  ultimately show ?thesis using t w(2) s2 by blast
qed

text \<open>An exhausted epoch counter refuses the rewrite and keeps the history.\<close>

lemma transact_rewrite_inv:
  assumes inv: "store_inv h s"
    and work: "\<And>tx. entry h s tx \<Longrightarrow> \<exists>x tx1. work tx = (Inr x, tx1) \<and> P tx x tx1 \<and> tx_privacy tx1 \<and>
      tx_objects tx1 = tx_objects tx \<and> tx_tick tx \<le> tx_tick tx1 \<and> history_ok h (tx_tick tx1) (tx_objects tx1)
        (tx_log tx1 @ (if pending_ops tx1 = [] then [] else [TxOps (pending_ops tx1)])) (tx_state tx1)"
  shows "store_inv h (snd (transact h work s))"
proof -
  let ?s = "s\<lparr>fe_verified := None\<rparr>"
  consider "astray s" | "\<not> astray s" "epoch_room s" | "\<not> astray s" "\<not> epoch_room s" by blast
  then show ?thesis
  proof cases
    case 1
    then have "transact h work s = (Inl diverged, ?s)" using enter_run[OF inv] by (simp add: transact_def)
    then show ?thesis using inv by (simp add: store_inv_def view_ok_def)
  next
    case 2
    obtain x s2 where "transact h work s = (Inr x, s2)" "store_inv h s2"
      using transact_rewrite[OF inv 2, of work P] work by blast
    then show ?thesis by simp
  next
    case 3
    obtain tx where ent: "enter h (usable_view s) ?s = (Inr tx, put_back ?s tx)" and t: "entry h s tx"
      using enter_run[OF inv] 3 by auto
    obtain x tx1 where w: "work tx = (Inr x, tx1)" "tx_privacy tx1" "tx_objects tx1 = tx_objects tx" "tx_tick tx \<le> tx_tick tx1"
      using work[OF t] by blast
    have "checked_add (hd_epoch (fe_head s)) 1 = None"
      using 3 unfolding checked_add_None_iff by (simp add: epoch_room_def)
    then have "commit (put_back ?s tx) tx1 = (Inl corrupt, forget_if_binds tx1 (put_back (put_back ?s tx) tx1))"
      using w(2) by (simp add: commit_def publish_def journal_privacy_def Let_def put_back_def)
    then have run: "snd (transact h work s) = forget_if_binds tx1 (put_back (put_back ?s tx) tx1)"
      using ent w(1) by (simp add: transact_def)
    have "history_ok h (tx_tick tx1) (tx_objects tx1) (hd_log (fe_head s)) (tx_state tx)"
      using history_mono[OF entry_history[OF t] w(4)] w(3) by simp
    then show ?thesis
      using t w(3) unfolding run
      by (auto simp: store_inv_def forget_if_binds_def put_back_def view_ok_def entry_def)
  qed
qed


section \<open>Forgetting a tenant\<close>

lemma tx_rewrite_run:
  "rewrite_log f (tx_log tx) = (Inr (), log) \<Longrightarrow> replay h log = Inr st \<Longrightarrow>
   tx_rewrite h f tx = (Inr (), tx\<lparr>tx_log := log, tx_state := st\<rparr>)"
  by (simp add: tx_rewrite_def)

lemma live_fewer:
  "live_at h objects st \<Longrightarrow> set (st_blobs st') \<subseteq> set (st_blobs st) \<Longrightarrow> live_at h objects st'"
  unfolding live_at_def by blast

lemma restricted_subset: "restricted P m m' \<Longrightarrow> bt_wf m \<Longrightarrow> bt_wf m' \<Longrightarrow> set m' \<subseteq> set m"
  by (auto simp: restricted_def bt_get_mem split: if_splits) (metis bt_get_mem option.distinct(1))

lemma forget_history:
  assumes inj: "keys_injective h" and hist: "history_ok h n objects log st"
  shows "\<exists>log' st'. rewrite_log (forget_ops t) log = (Inr (), log') \<and> history_ok h n objects log' st' \<and>
    erased h t owner_of st st' \<and> all_ops log' = forget_ops t (all_ops log)"
proof -
  have rep: "replay h log = Inr st" and ok: "list_all op_ok (all_ops log)" using hist by (simp_all add: history_ok_def)
  have "list_all (labelled owner_of) (concat (map tx_ops log))"
    using ok op_ok_labelled by (auto simp: all_ops_def list_all_iff)
  from forget_rewrite[OF inj rep this] obtain log' st' where
    rw: "rewrite_log (forget_ops t) log = (Inr (), log')" "replay h log' = Inr st'" "erased h t owner_of st st'" by blast
  have ops: "all_ops log' = forget_ops t (all_ops log)"
    using all_ops_rewrite[OF rw(1)] by (simp add: all_ops_def concat_forget del: map_map)
  have "set (st_blobs st') \<subseteq> set (st_blobs st)"
    using rw(3) replay_inv[OF rep] replay_inv[OF rw(2)]
    by (intro restricted_subset[of "\<lambda>k. fst k \<noteq> t"]) (simp_all add: erased_def erased_books_def state_inv_def)
  then have "live_at h objects st'" using hist live_fewer by (auto simp: history_ok_def)
  then have "history_ok h n objects log' st'"
    using hist rw(2) ops op_ok_forget ids_ok_filter by (simp add: history_ok_def forget_ops_def)
  with rw ops show ?thesis by blast
qed

definition forgot :: "host \<Rightarrow> TenantId \<Rightarrow> Transaction \<Rightarrow> Transaction \<Rightarrow> bool" where
  "forgot h t tx tx1 \<longleftrightarrow> erased h t owner_of (tx_state tx) (tx_state tx1) \<and> tx_pending tx1 = [] \<and>
     all_ops (tx_log tx1) = forget_ops t (all_ops (tx_log tx)) \<and> tx_content tx1 = forget (tx_content tx)"

lemma forget_work:
  assumes inj: "keys_injective h" and t: "entry h s tx"
  shows "\<exists>x tx1. tx_forget_tenant h ten tx = (Inr x, tx1) \<and> forgot h ten tx tx1 \<and> tx_privacy tx1 \<and>
      tx_objects tx1 = tx_objects tx \<and> tx_tick tx \<le> tx_tick tx1 \<and> history_ok h (tx_tick tx1) (tx_objects tx1)
        (tx_log tx1 @ (if pending_ops tx1 = [] then [] else [TxOps (pending_ops tx1)])) (tx_state tx1)"
proof -
  have hist: "history_ok h (tx_tick tx) (tx_objects tx) (tx_log tx) (tx_state tx)"
    and nm: "names_ok (tx_objects tx)" and pend: "tx_pending tx = []"
    using t unfolding entry_def by blast+
  obtain log' st' where rw: "rewrite_log (forget_ops ten) (tx_log tx) = (Inr (), log')"
    "history_ok h (tx_tick tx) (tx_objects tx) log' st'" "erased h ten owner_of (tx_state tx) st'"
    "all_ops log' = forget_ops ten (all_ops (tx_log tx))"
    using forget_history[OF inj hist] by blast
  let ?u = "tx\<lparr>tx_content := forget (tx_content tx), tx_log := log', tx_state := st', tx_privacy := True\<rparr>"
  have "tx_rewrite h (forget_ops ten) (tx\<lparr>tx_content := forget (tx_content tx)\<rparr>) =
      (Inr (), tx\<lparr>tx_content := forget (tx_content tx), tx_log := log', tx_state := st'\<rparr>)"
    using tx_rewrite_run[of "forget_ops ten" "tx\<lparr>tx_content := forget (tx_content tx)\<rparr>" log' h st'] rw(1,2)
    by (simp add: history_ok_def)
  then have "tx_forget_tenant h ten tx = (Inr (), ?u)"
    by (simp add: tx_forget_tenant_def forget_content_def cmd_simps)
  moreover have "forgot h ten tx ?u" using rw(3,4) pend by (simp add: forgot_def)
  ultimately show ?thesis using rw(2) nm pend by (intro exI[of _ "()"] exI[of _ ?u]) (simp add: pending_ops_def)
qed

lemma forget_tenant_run:
  assumes "store_inv h s" and "\<not> astray s" and "epoch_room s" and "keys_injective h"
  shows "\<exists>tx tx1 s2. entry h s tx \<and> forgot h t tx tx1 \<and> forget_tenant h t s = (Inr (), s2) \<and> store_inv h s2 \<and>
    \<not> astray s2 \<and> republished h s tx1 (tx_log tx1) s2"
proof -
  obtain tx x tx1 s2 where *: "entry h s tx" "forgot h t tx tx1" "transact h (tx_forget_tenant h t) s = (Inr x, s2)"
    "store_inv h s2" "\<not> astray s2"
    "republished h s tx1 (tx_log tx1 @ (if pending_ops tx1 = [] then [] else [TxOps (pending_ops tx1)])) s2"
    using transact_rewrite[OF assms(1-3), of "tx_forget_tenant h t" "\<lambda>tx _ tx1. forgot h t tx tx1"]
      forget_work[OF assms(4)] by blast
  have "pending_ops tx1 = []" using *(2) by (simp add: forgot_def pending_ops_def)
  with * show ?thesis by (auto simp: forget_tenant_def)
qed


section \<open>Redacting an event\<close>

lemma values_from_ops:
  assumes "try_fold (State_apply h) st ops = Inr st'" and "state_inv h st"
  shows "set (Events_values (st_events st')) \<subseteq> set (Events_values (st_events st)) \<union> {e. OpEvent e \<in> set ops}"
  using assms
proof (induction ops arbitrary: st)
  case (Cons op ops)
  from Cons.prems(1) obtain st1 where st1: "State_apply h st op = Inr st1"
    and rest: "try_fold (State_apply h) st1 ops = Inr st'" by (auto simp: andthen_Inr_iff)
  have inv: "state_inv h st1" using Cons.prems(2) st1 by (rule state_inv_apply)
  have "set (Events_values (st_events st1)) \<subseteq> set (Events_values (st_events st)) \<union> {e. OpEvent e = op}"
  proof (cases op)
    case (OpEvent e)
    then have "apply_event h st e = Inr st1" using st1 by simp
    then show ?thesis using values_event[OF Cons.prems(2)] OpEvent by auto
  qed (use st1 in \<open>auto split: if_splits\<close>)
  with Cons.IH[OF rest inv] show ?case by auto
qed simp

lemma replay_values:
  assumes "replay h log = Inr st" and "e \<in> set (Events_values (st_events st))"
  shows "OpEvent e \<in> set (all_ops log)"
proof -
  obtain opss where log: "log = map TxOps opss"
    and fold: "try_fold (State_apply h) State_default (concat opss) = Inr st"
    using assms(1) by (auto simp: replay_fold)
  have "Events_values (st_events State_default) = []" by (simp add: State_default_def Events_values_def)
  with values_from_ops[OF fold state_inv_default] assms(2) show ?thesis by (auto simp: log all_ops_def)
qed

lemma of_stream_values:
  "e \<in> set (of_stream h ev stream lo hi) \<Longrightarrow> e \<in> set (Events_values ev)"
  by (force simp: of_stream_def Events_values_def map_filter_def dest: bt_get_SomeD split: option.splits)

lemma event_id_unique:
  assumes "distinct (event_ids ops)" and "OpEvent d \<in> set ops" and "OpEvent e \<in> set ops" and "event_id d = event_id e"
  shows "d = e"
proof -
  have mem: "event_id e \<in> set (event_ids ops)" if "OpEvent e \<in> set ops" for e ops
    using that by (induction ops) auto
  obtain xs ys where ops: "ops = xs @ OpEvent d # ys" using assms(2) by (auto simp: in_set_conv_decomp)
  have "event_id d \<notin> set (event_ids xs)" "event_id d \<notin> set (event_ids ys)"
    using assms(1) by (simp_all add: ops)
  then have "OpEvent e \<notin> set xs" "OpEvent e \<notin> set ys" using mem assms(4) by metis+
  then show ?thesis using assms(3) by (simp add: ops)
qed

lemma ids_distinct: "ids_ok h n ops \<Longrightarrow> inj_on (uuid_at h) {..<n} \<Longrightarrow> distinct (event_ids ops)"
  unfolding ids_ok_def by (auto simp: distinct_map strict_sorted_iff intro: inj_on_subset)

lemma redact_history:
  assumes hist: "history_ok h n objects log st" and inj: "inj_on (uuid_at h) {..<n}"
    and old: "old \<in> set (Events_values (st_events st))" and e: "same_place e old" "event_id e = event_id old"
  shows "\<exists>log' st'. rewrite_log (redact_ops t e) log = (Inr (), log') \<and> history_ok h n objects log' st' \<and>
    redacted t e st st' \<and> all_ops log' = redact_ops t e (all_ops log)"
proof -
  have rep: "replay h log = Inr st" and ids: "ids_ok h n (all_ops log)" using hist by (simp_all add: history_ok_def)
  have "fits e op" if "op \<in> set (all_ops log)" for op
  proof (cases op)
    case (OpEvent d)
    have "d = old" if "event_id d = event_id e"
      using event_id_unique[OF ids_distinct[OF ids inj]] replay_values[OF rep old] \<open>op \<in> set (all_ops log)\<close> OpEvent that e(2)
      by metis
    then have "event_id d = event_id e \<longrightarrow> same_place e d" using e(1) by blast
    then show ?thesis using OpEvent by simp
  qed simp_all
  then have "list_all (fits e) (concat (map tx_ops log))" by (simp add: list_all_iff all_ops_def)
  from redact_rewrite[OF rep this] obtain log' st' where
    rw: "rewrite_log (redact_ops t e) log = (Inr (), log')" "replay h log' = Inr st'" "redacted t e st st'" by blast
  have ops: "all_ops log' = redact_ops t e (all_ops log)"
    using all_ops_rewrite[OF rw(1)] by (simp add: all_ops_def concat_redact del: map_map)
  have "ids_ok h n (map (replace_event e) (all_ops log))" using ids by (simp add: ids_ok_def ids_replace)
  then have "ids_ok h n (all_ops log')" unfolding ops redact_ops_def by (rule ids_ok_filter)
  moreover have "live_at h objects st'"
    using hist rw(3) by (simp add: history_ok_def live_at_def redacted_def redacted_books_def)
  ultimately have "history_ok h n objects log' st'"
    using hist rw(2) ops op_ok_redact by (simp add: history_ok_def)
  with rw ops show ?thesis by blast
qed

text \<open>Every view of the tenant is marked, and the stream's snapshots lose their generation.\<close>

definition marked :: "host \<Rightarrow> StreamId \<Rightarrow> string \<Rightarrow> State \<Rightarrow> State" where
  "marked h stream i st = st\<lparr>st_dirty_views := st_dirty_views st \<union> {sid_tenant stream} \<times> set (map fst (st_projections st)),
     st_generations := bt_insert (stream_key h stream) i (st_generations st)\<rparr>"

definition redacted_by :: "host \<Rightarrow> StreamId \<Rightarrow> u64 \<Rightarrow> string \<Rightarrow> Transaction \<Rightarrow> RecordedEvent \<Rightarrow> Transaction \<Rightarrow> bool" where
  "redacted_by h stream v reason tx e tx1 \<longleftrightarrow>
     (\<exists>old now st' i. hd (of_stream h (st_events (tx_state tx)) stream (Included v) (Included v)) = old \<and>
       e = old\<lparr>data := redaction_tombstone reason, redacted_at := Some now\<rparr> \<and>
       redacted (sid_tenant stream) e (tx_state tx) st' \<and> tx_state tx1 = marked h stream i st' \<and>
       i = uuid_at h (tx_tick tx + 1) \<and>
       all_ops (tx_log tx1) = redact_ops (sid_tenant stream) e (all_ops (tx_log tx))) \<and>
     event_ids (pending_ops tx1) = []"

lemma dirty_fold:
  "try_fold (State_apply h) st (map (\<lambda>n. OpDirtyView t n True) ns) =
     Inr (st\<lparr>st_dirty_views := st_dirty_views st \<union> {t} \<times> set ns\<rparr>)"
  by (induction ns arbitrary: st) (auto simp: insert_Times_insert)

lemma redact_tail:
  assumes pend: "tx_pending tx = []"
  shows "\<exists>ops. c_bind (c_get (\<lambda>s. map fst (st_projections (tx_state s)))
       (c_each (\<lambda>n. tx_record h (OpDirtyView (sid_tenant stream) n True)))) (\<lambda>_.
     c_bind (new_event_id h) (\<lambda>i.
     c_bind (tx_record h (OpGeneration stream i)) (\<lambda>_.
     c_bind (c_modify (\<lambda>s. s\<lparr>tx_privacy := True\<rparr>)) (\<lambda>_. c_return e)))) tx =
    (Inr e, tx\<lparr>tx_pending := ops, tx_tick := Suc (tx_tick tx), tx_privacy := True,
      tx_state := marked h stream (uuid_at h (tx_tick tx)) (tx_state tx)\<rparr>) \<and>
    list_all op_ok ops \<and> event_ids ops = [] \<and>
    try_fold (State_apply h) (tx_state tx) ops = Inr (marked h stream (uuid_at h (tx_tick tx)) (tx_state tx)) \<and> ops \<noteq> []"
proof -
  let ?ns = "map fst (st_projections (tx_state tx))"
  let ?dirty = "map (\<lambda>n. OpDirtyView (sid_tenant stream) n True) ?ns"
  let ?ops = "?dirty @ [OpGeneration stream (uuid_at h (tx_tick tx))]"
  have each: "c_each (\<lambda>n. tx_record h (f n)) ns = c_each (tx_record h) (map f ns)" for f and ns :: "string list"
    by (induction ns) auto
  note run = records_run[OF dirty_fold[of h "tx_state tx" "sid_tenant stream" ?ns]]
  have "list_all op_ok (map (\<lambda>n. OpDirtyView t n True) ns) \<and> event_ids (map (\<lambda>n. OpDirtyView t n True) ns) = []"
    for t and ns :: "string list"
    by (induction ns) auto
  from this[of "sid_tenant stream" ?ns] have "list_all op_ok ?dirty" "event_ids ?dirty = []" by blast+
  moreover have "try_fold (State_apply h) (tx_state tx) ?ops = Inr (marked h stream (uuid_at h (tx_tick tx)) (tx_state tx))"
    using dirty_fold[of h "tx_state tx" "sid_tenant stream" ?ns] by (simp add: try_fold_append marked_def)
  ultimately show ?thesis
    using run pend by (intro exI[of _ ?ops]) (simp add: cmd_simps each new_event_id_def tx_record_def marked_def)
qed

lemma redact_work:
  assumes t: "entry h s tx" and inj: "inj_on (uuid_at h) {..<tx_tick tx}"
    and valid: "validate_field ''redaction reason'' reason = Inr ()"
    and found: "of_stream h (st_events (tx_state tx)) stream (Included v) (Included v) \<noteq> []"
  shows "\<exists>e tx1. tx_redact h stream v reason tx = (Inr e, tx1) \<and> redacted_by h stream v reason tx e tx1 \<and> tx_privacy tx1 \<and>
      tx_objects tx1 = tx_objects tx \<and> tx_tick tx \<le> tx_tick tx1 \<and> history_ok h (tx_tick tx1) (tx_objects tx1)
        (tx_log tx1 @ (if pending_ops tx1 = [] then [] else [TxOps (pending_ops tx1)])) (tx_state tx1)"
proof -
  have hist: "history_ok h (tx_tick tx) (tx_objects tx) (tx_log tx) (tx_state tx)"
    and nm: "names_ok (tx_objects tx)" and pend: "tx_pending tx = []"
    using t unfolding entry_def by blast+
  obtain old rest where of: "of_stream h (st_events (tx_state tx)) stream (Included v) (Included v) = old # rest"
    using found by (auto simp: neq_Nil_conv)
  define e where "e = old\<lparr>data := redaction_tombstone reason, redacted_at := Some (now_at h (tx_tick tx))\<rparr>"
  have place: "same_place e old" "event_id e = event_id old" by (simp_all add: e_def same_place_def)
  have mem: "old \<in> set (Events_values (st_events (tx_state tx)))"
    by (rule of_stream_values[of _ h _ stream "Included v" "Included v"]) (simp add: of)
  obtain log' st' where rw: "rewrite_log (redact_ops (sid_tenant stream) e) (tx_log tx) = (Inr (), log')"
    "history_ok h (tx_tick tx) (tx_objects tx) log' st'" "redacted (sid_tenant stream) e (tx_state tx) st'"
    "all_ops log' = redact_ops (sid_tenant stream) e (all_ops (tx_log tx))"
    using redact_history[OF hist inj mem place] by blast
  have rep: "replay h log' = Inr st'" using rw(2) by (simp add: history_ok_def)
  let ?tx2 = "tx\<lparr>tx_tick := Suc (tx_tick tx), tx_log := log', tx_state := st'\<rparr>"
  let ?i = "uuid_at h (Suc (tx_tick tx))"
  have rew: "tx_rewrite h (redact_ops (sid_tenant stream) e) (tx\<lparr>tx_tick := Suc (tx_tick tx)\<rparr>) = (Inr (), ?tx2)"
    using tx_rewrite_run[of "redact_ops (sid_tenant stream) e" "tx\<lparr>tx_tick := Suc (tx_tick tx)\<rparr>" log' h st'] rw(1) rep by simp
  obtain ops where tail: "c_bind (c_get (\<lambda>s. map fst (st_projections (tx_state s)))
       (c_each (\<lambda>n. tx_record h (OpDirtyView (sid_tenant stream) n True)))) (\<lambda>_.
     c_bind (new_event_id h) (\<lambda>i.
     c_bind (tx_record h (OpGeneration stream i)) (\<lambda>_.
     c_bind (c_modify (\<lambda>s. s\<lparr>tx_privacy := True\<rparr>)) (\<lambda>_. c_return e)))) ?tx2 =
    (Inr e, ?tx2\<lparr>tx_pending := ops, tx_tick := Suc (tx_tick ?tx2), tx_privacy := True,
      tx_state := marked h stream ?i st'\<rparr>)" (is "_ = (_, ?tx1)")
    and ops: "list_all op_ok ops" "event_ids ops = []" "try_fold (State_apply h) st' ops = Inr (marked h stream ?i st')" "ops \<noteq> []"
    using redact_tail[of ?tx2 h stream e] pend by auto
  have run: "tx_redact h stream v reason tx = (Inr e, ?tx1)"
    unfolding tx_redact_def using valid of tail rew
    by (simp add: c_bind_run c_lift_run now_utc_def e_def[symmetric] Let_def)
  have pops: "pending_ops ?tx1 = ops @ [OpWatermark (st_next_position (marked h stream ?i st'))]"
    using ops(4) by (simp add: pending_ops_def)
  have eff: "redacted_by h stream v reason tx e ?tx1"
    unfolding redacted_by_def using rw(3,4) of ops(2) pops
    by (intro conjI exI[of _ old] exI[of _ "now_at h (tx_tick tx)"] exI[of _ st'] exI[of _ ?i]) (simp_all add: e_def)
  have "try_fold (State_apply h) st' (pending_ops ?tx1) = Inr (marked h stream ?i st')"
    unfolding pops using ops(3) watermark_same by (simp add: try_fold_append del: State_apply.simps)
  then have "replay h (log' @ [TxOps (pending_ops ?tx1)]) = Inr (marked h stream ?i st')"
    using replay_append[OF rep] by simp
  moreover have "live_at h (tx_objects tx) (marked h stream ?i st')"
    using rw(2) by (simp add: history_ok_def live_at_def marked_def)
  moreover have "list_all op_ok (all_ops log' @ pending_ops ?tx1)" using rw(2) ops(1) pops by (simp add: history_ok_def)
  moreover have "ids_ok h (Suc (Suc (tx_tick tx))) (all_ops log' @ pending_ops ?tx1)"
    using rw(2) ops(2) pops by (fastforce simp: history_ok_def ids_ok_def)
  ultimately have "history_ok h (tx_tick ?tx1) (tx_objects ?tx1) (tx_log ?tx1 @ [TxOps (pending_ops ?tx1)]) (tx_state ?tx1)"
    by (simp add: history_ok_def)
  with run eff nm pops show ?thesis by (intro exI[of _ e] exI[of _ ?tx1]) simp
qed

lemma forget_tenant_inv:
  assumes "store_inv h s" and "keys_injective h"
  shows "store_inv h (snd (forget_tenant h t s))"
  unfolding forget_tenant_def
  using transact_rewrite_inv[OF assms(1), of "tx_forget_tenant h t" "\<lambda>tx _ tx1. forgot h t tx tx1"]
    forget_work[OF assms(2)] by blast

text \<open>A redaction that is refused has touched nothing.\<close>

lemma redact_refuses:
  assumes "validate_field ''redaction reason'' reason \<noteq> Inr () \<or>
      of_stream h (st_events (tx_state tx)) stream (Included v) (Included v) = []"
  shows "\<exists>e. tx_redact h stream v reason tx = (Inl e, tx) \<and>
    (validate_field ''redaction reason'' reason = Inr () \<longrightarrow> e = NotFound)"
proof (cases "validate_field ''redaction reason'' reason")
  case (Inl e)
  then show ?thesis by (simp add: tx_redact_def cmd_simps)
next
  case (Inr u)
  then show ?thesis using assms by (simp add: tx_redact_def cmd_simps)
qed

lemma entry_state: "entry h s tx \<Longrightarrow> replay h (hd_log (fe_head s)) = Inr st \<Longrightarrow> tx_state tx = st"
  using entry_history[of h s tx] by (simp add: history_ok_def)

definition redactable :: "host \<Rightarrow> StreamId \<Rightarrow> u64 \<Rightarrow> string \<Rightarrow> State \<Rightarrow> bool" where
  "redactable h stream v reason st \<longleftrightarrow> validate_field ''redaction reason'' reason = Inr () \<and>
     of_stream h (st_events st) stream (Included v) (Included v) \<noteq> []"

lemma redact_run:
  assumes "store_inv h s" and "\<not> astray s" and "epoch_room s" and "inj_on (uuid_at h) {..<fe_tick s}"
    and "replay h (hd_log (fe_head s)) = Inr st" and "redactable h stream v reason st"
  shows "\<exists>tx e tx1 s2. entry h s tx \<and> redacted_by h stream v reason tx e tx1 \<and> redact h stream v reason s = (Inr e, s2) \<and>
    store_inv h s2 \<and> \<not> astray s2 \<and>
    republished h s tx1 (tx_log tx1 @ (if pending_ops tx1 = [] then [] else [TxOps (pending_ops tx1)])) s2"
proof -
  have tick: "tx_tick tx = fe_tick s" if "entry h s tx" for tx using that by (simp add: entry_def)
  show ?thesis
    unfolding redact_def
    using transact_rewrite[OF assms(1-3), of "tx_redact h stream v reason" "redacted_by h stream v reason"]
      redact_work[of h s _ reason stream v] entry_state[OF _ assms(5)] assms(4,6) tick
    by (metis redactable_def)
qed

lemma redact_inv:
  assumes inv: "store_inv h s" and inj: "inj_on (uuid_at h) {..<fe_tick s}"
  shows "store_inv h (snd (redact h stream v reason s))"
proof -
  obtain st where st: "replay h (hd_log (fe_head s)) = Inr st" using inv by (auto simp: store_inv_def history_ok_def)
  show ?thesis
  proof (cases "redactable h stream v reason st")
    case True
    have tick: "tx_tick tx = fe_tick s" if "entry h s tx" for tx using that by (simp add: entry_def)
    have "\<exists>x tx1. tx_redact h stream v reason tx = (Inr x, tx1) \<and> redacted_by h stream v reason tx x tx1 \<and> tx_privacy tx1 \<and>
      tx_objects tx1 = tx_objects tx \<and> tx_tick tx \<le> tx_tick tx1 \<and> history_ok h (tx_tick tx1) (tx_objects tx1)
        (tx_log tx1 @ (if pending_ops tx1 = [] then [] else [TxOps (pending_ops tx1)])) (tx_state tx1)"
      if t: "entry h s tx" for tx
      by (rule redact_work[OF t]) (use True inj tick[OF t] entry_state[OF t st] in \<open>simp_all add: redactable_def\<close>)
    then show ?thesis unfolding redact_def by (rule transact_rewrite_inv[OF inv])
  next
    case False
    have "tame h s (tx_redact h stream v reason)"
      unfolding tame_def
    proof (intro allI impI)
      fix tx r tx1
      assume t: "entry h s tx" and w: "tx_redact h stream v reason tx = (r, tx1)"
      from redact_refuses[of reason h tx stream v] False entry_state[OF t st] w have "tx1 = tx" "\<exists>e. r = Inl e"
        by (auto simp: redactable_def)
      then show "sound tx tx1 \<and> (\<forall>x. r = Inr x \<longrightarrow> good h tx tx1)"
        using preorder_sound by (auto simp: preorder_rel_def)
    qed
    then show ?thesis unfolding redact_def by (rule transact_inv[OF inv])
  qed
qed

end
