(* ===== verification/StoreSystem.thy ===== *)
theory StoreSystem
  imports StorePrivacy
begin

text \<open>
  Any number of handles on one directory, each running operations of the file store in any order.
  \<open>store_step\<close> is one operation of one handle, \<open>system\<close> the states the handles can reach together.
  The invariant of \<open>StoreInv\<close> holds in all of them.
\<close>

section \<open>Operations keep the invariant\<close>

lemma ordinaryI: "steps sound c \<Longrightarrow> ok_steps (good h) c \<Longrightarrow> ordinary h c"
  by (simp add: ordinary_def)

lemma ordinary_lift: "ordinary h (c_lift f)"
  by (auto intro: ordinaryI steps_intro preorder_sound preorder_good)

lemmas ordinary_works =
  ordinaryI[OF sound_append_guarded good_append_guarded] ordinaryI[OF sound_group good_group]
  ordinaryI[OF sound_atomic_group good_atomic_group] ordinaryI[OF sound_bind_blobs good_bind_blobs]
  ordinaryI[OF sound_object(2) good_ok(7)] ordinaryI[OF sound_register good_register]
  ordinaryI[OF sound_catch_up good_catch_up] ordinaryI[OF sound_rebuild good_rebuild]
  ordinaryI[OF sound_save_snapshot good_save_snapshot] ordinary_lift

lemma ordinary_reads: "ordinary h (c_map (tx_read h) reads)"
  by (rule ordinaryI) (auto intro!: steps_map ok_steps_map sound_read good_read preorder_sound preorder_good)

lemma ordinary_identity:
  "ordinary h (c_get (\<lambda>s. bt_get (st_identities (tx_state s)) t) (\<lambda>old. case old of
     Some i \<Rightarrow> c_return i
   | None \<Rightarrow> c_bind (new_event_id h) (\<lambda>i. c_bind (tx_record h (OpIdentity t i)) (\<lambda>_. c_return i))))"
  by (rule ordinaryI) (auto intro!: steps_intro preorder_sound preorder_good split: option.splits)

lemma ordinary_generation: "ordinary h (c_bind (tx_generation h stream) (\<lambda>g. c_lift (f g)))"
  by (rule ordinaryI) (auto intro!: steps_intro preorder_sound preorder_good)

lemma ordinary_delete: "ordinary h (c_bind forget_content (\<lambda>_. tx_record h (OpBlob t d None)))"
  unfolding forget_content_def
  by (rule ordinaryI) (auto intro!: steps_intro preorder_sound preorder_good)

lemma ordinary_view:
  "ordinary h (view_get v spec t k)" "ordinary h (view_find h v spec t field value limit)"
  unfolding view_get_def view_find_def by (rule ordinary_lift)+

lemma inv_frozen: "store_inv h (s\<lparr>fe_frozen := b\<rparr>) = store_inv h s"
  by (simp add: store_inv_def view_ok_def)

lemma frozen_inv:
  assumes "store_inv h s" and "\<And>x. ordinary h (work x)"
  shows "store_inv h (snd (c_bind (c_lift (\<lambda>_. r)) (\<lambda>x. c_bind freeze (\<lambda>_. transact h (work x))) s))"
  using assms transact_inv[of h "s\<lparr>fe_frozen := True\<rparr>" "work _"]
  by (cases r) (auto simp: cmd_simps freeze_def inv_frozen)

definition still :: "Transaction \<Rightarrow> Transaction \<Rightarrow> bool" where
  "still s t \<longleftrightarrow> tx_objects t = tx_objects s \<and> tx_tick t = tx_tick s"

lemma preorder_still: "preorder_rel still"
  by (simp add: preorder_rel_def still_def)

lemma register_still: "steps still (tx_register h p)"
proof -
  have rec: "steps still (tx_record h op)" for op
    by (rule stepsI) (auto simp: tx_record_def Let_def still_def split: sum.splits)
  have "steps still (register_loop h names specs)" for names specs
    by (induction specs arbitrary: names) (auto intro!: steps_intro preorder_still rec split: option.splits)
  then show ?thesis by (simp add: tx_register_def)
qed

lemma register_inline_inv:
  assumes inv: "store_inv h s"
  shows "store_inv h (snd (register_inline h p s))"
proof (cases "register_inline h p s")
  case (Pair r s')
  show ?thesis
  proof (cases "s' = s")
    case False
    then obtain st tx m where rep: "replay h (hd_log (fe_head s)) = Inr st"
      and reg: "tx_register h p (new_transaction s (hd_log (fe_head s)) st) = (Inr (), tx)"
      and m: "(if tx_pending tx = [] then Inr (fe_head s) else journal_append (fe_head s) (TxOps (tx_pending tx))) = Inr m"
      and s': "s' = s\<lparr>fe_head := m, fe_observed := Some m, fe_inline := fe_inline s @ [p]\<rparr>"
      using Pair by (auto simp: register_inline_def split: if_splits sum.splits prod.splits)
    define t where "t = new_transaction s (hd_log (fe_head s)) st"
    have t: "tx_pending t = []" "tx_state t = st" "tx_objects t = fe_objects s" "tx_tick t = fe_tick s"
      by (simp_all add: t_def new_transaction_def)
    have hist: "history_ok h (fe_tick s) (fe_objects s) (hd_log (fe_head s)) st"
      using inv rep by (auto simp: store_inv_def history_ok_def)
    have g: "good h t tx" using reg good_register[THEN ok_stepsD] by (simp add: t_def)
    have still: "tx_objects tx = fe_objects s" "tx_tick tx = fe_tick s"
      using register_still[THEN stepsD] reg t by (simp_all add: t_def[symmetric] still_def)
    obtain ops where ops: "tx_pending tx = ops" "try_fold (State_apply h) st ops = Inr (tx_state tx)"
      "list_all op_ok ops" "event_ids ops = []"
      using g t still unfolding good_def records_def by auto
    have "replay h (hd_log m) = Inr (tx_state tx) \<and> all_ops (hd_log m) = all_ops (hd_log (fe_head s)) @ ops"
      using m ops rep replay_append[OF rep] by (auto simp: journal_append_def split: if_splits)
    moreover have "live_at h (fe_objects s) (tx_state tx)"
      using g hist t still by (auto simp: good_def live_live_at history_ok_def)
    ultimately have "history_ok h (fe_tick s) (fe_objects s) (hd_log m) (tx_state tx)"
      using hist ops by (auto simp: history_ok_def ids_ok_def)
    then show ?thesis using inv unfolding Pair s' by (auto simp: store_inv_def view_ok_def)
  qed (use inv Pair in simp)
qed


section \<open>Steps of one handle\<close>

text \<open>
  Each rule is one operation with any arguments. A tenant is a \<open>TenantId\<close>, so it passed \<open>TenantId::new\<close>;
  a redaction finds its event by id, so the ids the host gave so far are distinct.
\<close>

inductive store_step :: "host \<Rightarrow> FileEventStore \<Rightarrow> FileEventStore \<Rightarrow> bool" for h where
  step_append: "store_step h s (snd (append_guarded h stream expected events meta guard s))"
| step_group: "is_ok (TenantId_new (ag_tenant g)) \<Longrightarrow>
    store_step h s (snd (append_group_guarded_with_blobs h g guard blobs s))"
| step_atomic: "is_ok (TenantId_new (ag_tenant (bag_group request))) \<Longrightarrow>
    store_step h s (snd (append_group_with_blobs_guarded h request guard s))"
| step_command: "store_step h s (snd (recorded_command h stream i d s))"
| step_claim: "store_step h s (snd (recorded_claim h t claim s))"
| step_read_stream: "store_step h s (snd (read_stream h stream after limit s))"
| step_read_many: "store_step h s (snd (read_many h reads s))"
| step_stream_version: "store_step h s (snd (stream_version h stream s))"
| step_read_feed: "store_step h s (snd (read_feed h t after limit s))"
| step_identity: "store_step h s (snd (stream_identity h t s))"
| step_generation: "store_step h s (snd (snapshot_generation h stream s))"
| step_save_snapshot: "store_step h s (snd (save_snapshot_checked h stream snapshot g s))"
| step_load_snapshot: "store_step h s (snd (load_snapshot h stream s))"
| step_put_blob: "is_ok (TenantId_new t) \<Longrightarrow> store_step h s (snd (put_blob h t d b s))"
| step_get_blob: "store_step h s (snd (get_blob h t d s))"
| step_delete_blob: "store_step h s (snd (delete_blob h t d s))"
| step_redact: "inj_on (uuid_at h) {..<fe_tick s} \<Longrightarrow> store_step h s (snd (redact h stream v reason s))"
| step_forget: "store_step h s (snd (forget_tenant h t s))"
| step_create: "store_step h s (snd (create_projections h p s))"
| step_register: "store_step h s (snd (register_inline h p s))"
| step_catch_up: "store_step h s (snd (run_catch_up h p t bs s))"
| step_rebuild: "store_step h s (snd (rebuild_projection h p t s))"
| step_get: "store_step h s (snd (projection_get h spec t k s))"
| step_find: "store_step h s (snd (projection_find h spec t field value limit s))"
| step_list: "store_step h s (snd (projection_list h spec t after limit s))"

lemma store_step_inv:
  assumes "store_step h s s'" and "store_inv h s" and "uuid_ok h" and "keys_injective h"
  shows "store_inv h s'"
  using assms(1)
proof cases
  case step_append
  show ?thesis unfolding step_append(1) append_guarded_def by (rule frozen_inv[OF assms(2)]) (rule ordinary_works)
next
  case (step_group g guard blobs)
  show ?thesis unfolding step_group(1) append_group_guarded_with_blobs_def
    by (rule frozen_inv[OF assms(2)]) (rule ordinary_works(2)[OF assms(3,3) step_group(2)])
next
  case (step_atomic request guard)
  show ?thesis unfolding step_atomic(1) append_group_with_blobs_guarded_def
    by (rule frozen_inv[OF assms(2)]) (rule ordinary_works(3)[OF assms(3,3) step_atomic(2)])
next
  case (step_put_blob t d b)
  show ?thesis unfolding step_put_blob(1) put_blob_def
    by (rule transact_inv[OF assms(2)], rule ordinary_tame) (rule ordinary_works(4)[OF assms(3,3) step_put_blob(2)])
next
  case (step_redact stream v reason)
  then show ?thesis using redact_inv[OF assms(2)] by simp
next
  case step_forget
  then show ?thesis using forget_tenant_inv[OF assms(2,4)] by simp
next
  case step_register
  then show ?thesis using register_inline_inv[OF assms(2)] by simp
qed (simp_all only: recorded_command_def recorded_claim_def read_stream_def read_many_def stream_version_def
    read_feed_def stream_identity_def snapshot_generation_def save_snapshot_checked_def load_snapshot_def
    get_blob_def delete_blob_def create_projections_def run_catch_up_def rebuild_projection_def
    projection_get_def projection_find_def projection_list_def,
    (rule transact_inv[OF assms(2)] ordinary_tame ordinary_works ordinary_reads ordinary_identity
      ordinary_generation ordinary_delete ordinary_view)+)


section \<open>Handles that share a directory\<close>

definition share :: "FileEventStore \<Rightarrow> FileEventStore \<Rightarrow> FileEventStore" where
  "share d s = s\<lparr>fe_head := fe_head d, fe_objects := fe_objects d, fe_cache := fe_cache d, fe_tick := fe_tick d\<rparr>"

definition no_history :: "string \<Rightarrow> Head" where
  "no_history name1 = \<lparr>hd_store = name1, hd_epoch = 0, hd_log = []\<rparr>"

inductive system :: "host \<Rightarrow> FileEventStore list \<Rightarrow> bool" for h where
  sys_create: "open_store h permit (no_history name1) [] [] n = (Inr (), s) \<Longrightarrow> system h [s]"
| sys_open: "system h ss \<Longrightarrow> d \<in> set ss \<Longrightarrow>
    open_store h permit (fe_head d) (fe_objects d) (fe_cache d) (fe_tick d) = (Inr (), s) \<Longrightarrow>
    system h (s # map (share s) ss)"
| sys_step: "system h ss \<Longrightarrow> i < length ss \<Longrightarrow> store_step h (ss ! i) s \<Longrightarrow> system h (map (share s) (ss[i := s]))"
| sys_close: "system h ss \<Longrightarrow> system h (filter P ss)"

definition dir_ok :: "host \<Rightarrow> FileEventStore \<Rightarrow> bool" where
  "dir_ok h s \<longleftrightarrow> names_ok (fe_objects s) \<and> (\<exists>st. history_ok h (fe_tick s) (fe_objects s) (hd_log (fe_head s)) st)"

lemma store_inv_split: "store_inv h s \<longleftrightarrow> view_ok h s \<and> dir_ok h s"
  by (simp add: store_inv_def dir_ok_def)

lemma share_inv: "store_inv h d \<Longrightarrow> store_inv h s \<Longrightarrow> store_inv h (share d s)"
  by (simp add: store_inv_split view_ok_def dir_ok_def share_def)

lemma share_same [simp]: "share s s = s"
  by (simp add: share_def)

definition open_handle :: "AdmissionPermit \<Rightarrow> Head \<Rightarrow> (string, bytes) btree \<Rightarrow>
    (string, (string \<times> Snapshot) option) btree \<Rightarrow> nat \<Rightarrow> FileEventStore" where
  "open_handle permit m objects cache n = \<lparr>fe_head = m, fe_objects = objects, fe_cache = cache, fe_tick = n,
     fe_inline = [], fe_frozen = False, fe_observed = Some m, fe_verified = None, fe_permit = permit,
     fe_content = vc_default\<rparr>"

lemma open_run:
  assumes "names_ok objects" and hist: "history_ok h n objects (hd_log m) st"
  shows "\<exists>s. open_store h permit m objects cache n = (Inr (), s) \<and> store_inv h s \<and> fe_head s = m \<and>
    fe_observed s = Some m \<and> fe_inline s = [] \<and> fe_tick s = n \<and> fe_content s = vc_default \<and>
    (\<forall>i b. bt_get (fe_objects s) i = Some b \<longrightarrow> bt_get objects i = Some b) \<and> fe_verified s = Some \<lparr>vf_manifest = m, vf_transactions = hd_log m, vf_state = st\<rparr>"
proof -
  let ?s = "open_handle permit m objects cache n"
  have inv: "store_inv h ?s" using assms by (auto simp: store_inv_def view_ok_def open_handle_def)
  have "\<not> astray ?s" by (simp add: astray_def open_handle_def extends_def)
  then obtain tx where ent: "enter h (usable_view ?s) (?s\<lparr>fe_verified := None\<rparr>) = (Inr tx, put_back (?s\<lparr>fe_verified := None\<rparr>) tx)"
    and t: "entry h ?s tx" using enter_run[OF inv] by auto
  have rep: "replay h (hd_log m) = Inr st" using hist by (simp add: history_ok_def)
  have tx: "tx_pending tx = []" "\<not> tx_privacy tx" "tx_log tx = hd_log m" "tx_state tx = st" "tx_tick tx = n"
    "tx_content tx = vc_default" "\<forall>i b. bt_get (tx_objects tx) i = Some b \<longrightarrow> bt_get objects i = Some b"
    using t entry_state[OF t] rep by (auto simp: entry_def open_handle_def finds_def)
  have g: "good h tx tx" using preorder_good by (simp add: preorder_rel_def)
  have "commit (put_back (?s\<lparr>fe_verified := None\<rparr>) tx) tx = (Inr (), snd (commit (put_back (?s\<lparr>fe_verified := None\<rparr>) tx) tx))"
    and inv2: "store_inv h (snd (commit (put_back (?s\<lparr>fe_verified := None\<rparr>) tx) tx))"
    using commit_run[OF inv t g _ refl] tx(1) by auto
  moreover have "snd (commit (put_back (?s\<lparr>fe_verified := None\<rparr>) tx) tx) =
      (put_back (?s\<lparr>fe_verified := None\<rparr>) tx)\<lparr>fe_observed := Some m,
        fe_verified := Some \<lparr>vf_manifest = m, vf_transactions = hd_log m, vf_state = st\<rparr>\<rparr>"
    using tx by (simp add: commit_def publish_def after_commit_def pending_ops_def put_back_def open_handle_def)
  ultimately have "transact h (c_return ()) ?s = (Inr (), (put_back (?s\<lparr>fe_verified := None\<rparr>) tx)\<lparr>fe_observed := Some m,
        fe_verified := Some \<lparr>vf_manifest = m, vf_transactions = hd_log m, vf_state = st\<rparr>\<rparr>)" and
      "store_inv h ((put_back (?s\<lparr>fe_verified := None\<rparr>) tx)\<lparr>fe_observed := Some m,
        fe_verified := Some \<lparr>vf_manifest = m, vf_transactions = hd_log m, vf_state = st\<rparr>\<rparr>)"
    using ent by (simp_all add: transact_def cmd_simps)
  moreover have "open_store h permit m objects cache n = transact h (c_return ()) ?s"
    using rep by (simp add: open_store_def open_handle_def)
  ultimately show ?thesis using tx(5-7) by (simp add: put_back_def open_handle_def)
qed

lemma no_history_ok: "history_ok h n [] [] State_default"
  by (simp add: history_ok_def replay_def live_at_def ids_ok_def all_ops_def State_default_def)

lemma system_inv:
  assumes "system h ss" and "uuid_ok h" and "keys_injective h"
  shows "(\<forall>s \<in> set ss. store_inv h s) \<and> (\<forall>s \<in> set ss. \<forall>s' \<in> set ss. share s s' = s')"
  using assms(1)
proof induction
  case (sys_create permit name1 n s)
  have "store_inv h s"
    using open_run[of "[]" h n "no_history name1" State_default permit "[]"] no_history_ok sys_create
    by (auto simp: names_ok_def no_history_def)
  then show ?case by simp
next
  case (sys_open ss d permit s)
  then have d: "store_inv h d" by blast
  then obtain st where "names_ok (fe_objects d)" "history_ok h (fe_tick d) (fe_objects d) (hd_log (fe_head d)) st"
    by (auto simp: store_inv_def)
  from open_run[OF this, of permit "fe_cache d"] sys_open.hyps(3) have s: "store_inv h s" by auto
  have "store_inv h (share s x)" if "x \<in> set ss" for x using share_inv[OF s] sys_open.IH that by blast
  with s show ?case by (auto simp: share_def)
next
  case (sys_step ss i s)
  then have "store_inv h (ss ! i)" by simp
  then have s: "store_inv h s" using store_step_inv sys_step.hyps(3) assms(2,3) by blast
  have "store_inv h x" if "x \<in> set (ss[i := s])" for x
    using that s sys_step.IH set_update_subset_insert[of ss i s] by blast
  then show ?case using share_inv[OF s] by (auto simp: share_def)
qed auto

text \<open>
  A directory of the sample host: a handle creates it and appends an event, then a second handle opens
  it and reads.
\<close>

definition sample_writer :: FileEventStore where
  "sample_writer = snd (open_store sample_host 7 (no_history ''s1'') [] [] 0)"

definition sample_appended :: FileEventStore where
  "sample_appended = snd (append_events sample_host sample_stream NoStream [sample_event] sample_meta sample_writer)"

definition sample_reader :: FileEventStore where
  "sample_reader = snd (open_store sample_host 8 (fe_head sample_appended) (fe_objects sample_appended)
     (fe_cache sample_appended) (fe_tick sample_appended))"

lemma digit_hex: "is_ascii_digit c \<Longrightarrow> is_ascii_hexdigit c"
  by (simp add: is_ascii_digit_def is_ascii_hexdigit_def is_hash_char_def)

lemma sample_uuid_ok: "uuid_ok sample_host"
proof -
  have "list_all is_ascii_hexdigit (pad 12 n)" for n using pad_digits[of 12 n] by (auto simp: list_all_iff digit_hex)
  moreover have "length (pad 12 (n mod 1000)) = 12" for n by (rule length_pad) (simp_all add: mod_less_divisor[THEN less_trans])
  ultimately show ?thesis
    by (auto simp: uuid_ok_def sample_host_def sample_uuid_def validate_object_def list_all_iff is_ascii_hexdigit_def is_hash_char_def)
qed

lemma sample_writer_run: "open_store sample_host 7 (no_history ''s1'') [] [] 0 = (Inr (), sample_writer)"
  "fe_observed sample_writer = Some (no_history ''s1'')" "fe_head sample_writer = no_history ''s1''" "store_inv sample_host sample_writer"
  "fe_inline sample_writer = []" "fe_tick sample_writer = 0" "fe_content sample_writer = vc_default"
  "bt_get (fe_objects sample_writer) i = None"
  using open_run[of "[]" sample_host 0 "no_history ''s1''" State_default 7 "[]"] no_history_ok
  by (auto simp: sample_writer_def names_ok_def no_history_def)

lemma sample_appended_system: "system sample_host [sample_appended]"
  using sys_step[OF sys_create[OF sample_writer_run(1)], of 0 sample_appended] step_append
  by (simp add: sample_appended_def append_events_def)

lemma sample_appended_inv: "store_inv sample_host sample_appended"
  using system_inv[OF sample_appended_system sample_uuid_ok sample_keys_injective] by simp

lemma sample_appended_here: "\<not> astray sample_appended" "epoch_room sample_appended"
proof -
  let ?s = "sample_writer\<lparr>fe_frozen := True\<rparr>"
  let ?w = "tx_append_guarded sample_host sample_stream NoStream [sample_event] sample_meta NoGuard"
  have inv: "store_inv sample_host ?s" by (simp add: inv_frozen sample_writer_run)
  have here: "\<not> astray ?s" "room ?s" by (simp_all add: astray_def sample_writer_run extends_def room_def no_history_def)
  have "is_ok (validate_append [sample_event] sample_meta)" by code_simp
  then have run: "sample_appended = snd (transact sample_host ?w ?s)"
    by (auto simp: sample_appended_def append_events_def append_guarded_def cmd_simps freeze_def split: sum.splits)
  obtain tx r tx1 s2 where s2: "transact sample_host ?w ?s = (r, s2)" "\<not> astray s2"
      "case r of Inl _ \<Rightarrow> refused ?s tx s2 | Inr _ \<Rightarrow> good sample_host tx tx1 \<and> commits sample_host ?s tx1 s2"
    using transact_run[OF inv here ordinary_tame[OF ordinary_works(1)]] by metis
  have "hd_epoch (fe_head s2) = 0"
    using s2(3) unfolding commits_def refused_def by (cases r) (simp_all add: sample_writer_run no_history_def)
  then show "\<not> astray sample_appended" "epoch_room sample_appended" unfolding run s2(1)
    using s2(2) by (simp_all add: epoch_room_def)
qed

lemma sample_reader_run: "open_store sample_host 8 (fe_head sample_appended) (fe_objects sample_appended)
     (fe_cache sample_appended) (fe_tick sample_appended) = (Inr (), sample_reader)"
  "fe_observed sample_reader = Some (fe_head sample_appended)" "fe_head sample_reader = fe_head sample_appended"
proof -
  obtain st where "names_ok (fe_objects sample_appended)"
    "history_ok sample_host (fe_tick sample_appended) (fe_objects sample_appended) (hd_log (fe_head sample_appended)) st"
    using sample_appended_inv by (auto simp: store_inv_def)
  note run = open_run[OF this, of 8 "fe_cache sample_appended"]
  show "open_store sample_host 8 (fe_head sample_appended) (fe_objects sample_appended)
     (fe_cache sample_appended) (fe_tick sample_appended) = (Inr (), sample_reader)"
    "fe_observed sample_reader = Some (fe_head sample_appended)" "fe_head sample_reader = fe_head sample_appended"
    using run by (auto simp: sample_reader_def)
qed

lemma sample_system: "system sample_host [sample_reader, share sample_reader sample_appended]"
  using sys_open[OF sample_appended_system _ sample_reader_run(1)] by simp

lemma sample_reader_here: "\<not> astray sample_reader" "\<not> astray (share sample_reader sample_appended)"
    "epoch_room (share sample_reader sample_appended)"
  using sample_appended_here sample_reader_run
  by (simp_all add: astray_def extends_def share_def epoch_room_def split: option.splits)

text \<open>
  C7. Whatever its handles did, in any order and from any number of processes, and however often
  they were refused: the directory can be opened again, and the new handle starts from the replay of
  the committed history.
\<close>

theorem store_always_reopens:
  assumes "system h ss" and "s \<in> set ss" and "uuid_ok h" and "keys_injective h"
  shows "\<exists>s' st. open_store h permit (fe_head s) (fe_objects s) (fe_cache s) (fe_tick s) = (Inr (), s') \<and>
    fe_head s' = fe_head s \<and> replay h (hd_log (fe_head s)) = Inr st \<and>
    fe_verified s' = Some \<lparr>vf_manifest = fe_head s, vf_transactions = hd_log (fe_head s), vf_state = st\<rparr>"
proof -
  have "store_inv h s" using system_inv[OF assms(1,3,4)] assms(2) by blast
  then obtain st where "names_ok (fe_objects s)" and hist: "history_ok h (fe_tick s) (fe_objects s) (hd_log (fe_head s)) st"
    by (auto simp: store_inv_def)
  from open_run[OF this, of permit "fe_cache s"] show ?thesis using hist unfolding history_ok_def by blast
qed

theorem store_always_reopens_witness:
  "\<exists>s' st. open_store sample_host 9 (fe_head sample_reader) (fe_objects sample_reader) (fe_cache sample_reader)
      (fe_tick sample_reader) = (Inr (), s') \<and> replay sample_host (hd_log (fe_head sample_reader)) = Inr st \<and>
    fe_verified s' = Some \<lparr>vf_manifest = fe_head sample_reader, vf_transactions = hd_log (fe_head sample_reader), vf_state = st\<rparr>"
  using store_always_reopens[OF sample_system _ sample_uuid_ok sample_keys_injective, of sample_reader 9] by auto

text \<open>
  C8. The cached view refines the replay. In every reachable state, a transaction that a handle enters,
  from its cached view plus the frames other handles added or from the whole file, works on exactly the
  replay of the committed history; the only refusal is that the history diverged from what the handle
  observed.
\<close>

theorem cached_view_is_replay:
  assumes "system h ss" and "s \<in> set ss" and "uuid_ok h" and "keys_injective h"
    and "enter h (usable_view s) (s\<lparr>fe_verified := None\<rparr>) = (r, s1)"
  shows "case r of
      Inl e \<Rightarrow> e = diverged \<and> astray s \<and> s1 = s\<lparr>fe_verified := None\<rparr>
    | Inr tx \<Rightarrow> tx_log tx = hd_log (fe_head s) \<and> replay h (hd_log (fe_head s)) = Inr (tx_state tx) \<and>
        tx_pending tx = [] \<and> fe_head s1 = fe_head s"
proof -
  have inv: "store_inv h s" using system_inv[OF assms(1,3,4)] assms(2) by blast
  show ?thesis
  proof (cases "astray s")
    case True
    then show ?thesis using enter_run[OF inv] assms(5) by simp
  next
    case False
    then obtain tx where "r = Inr tx" "s1 = put_back (s\<lparr>fe_verified := None\<rparr>) tx" and t: "entry h s tx"
      using enter_run[OF inv] assms(5) by auto
    then show ?thesis using entry_history[OF t] by (auto simp: entry_def history_ok_def put_back_def)
  qed
qed

theorem cached_view_is_replay_witness:
  "case enter sample_host (usable_view sample_reader) (sample_reader\<lparr>fe_verified := None\<rparr>) of
     (Inr tx, s1) \<Rightarrow> replay sample_host (hd_log (fe_head sample_reader)) = Inr (tx_state tx)
   | (Inl e, s1) \<Rightarrow> False"
  using cached_view_is_replay[OF sample_system _ sample_uuid_ok sample_keys_injective, of sample_reader
      "fst (enter sample_host (usable_view sample_reader) (sample_reader\<lparr>fe_verified := None\<rparr>))"
      "snd (enter sample_host (usable_view sample_reader) (sample_reader\<lparr>fe_verified := None\<rparr>))"] sample_reader_here(1)
  by (auto split: prod.splits sum.splits)

text \<open>
  C9. After one handle erased a tenant, no other handle serves what it had cached: every transaction
  of a handle that is not reopened is refused as diverged, whatever its work, and changes nothing.
\<close>

theorem stale_handle_refuses:
  assumes "system h ss" and "s \<in> set ss" and "s' \<in> set ss" and "uuid_ok h" and "keys_injective h"
    and "\<not> astray s" and "epoch_room s" and "fe_observed s' = Some o1" and "\<not> astray s'"
  shows "\<exists>s2. forget_tenant h t s = (Inr (), s2) \<and>
    transact h work (share s2 s') = (Inl diverged, (share s2 s')\<lparr>fe_verified := None\<rparr>)"
proof -
  note inv = system_inv[OF assms(1,4,5)]
  have s: "store_inv h s" and s': "store_inv h s'" using inv assms(2,3) by blast+
  have "fe_head (share s s') = fe_head s" by (simp add: share_def)
  moreover have "share s s' = s'" using inv assms(2,3) by blast
  ultimately have head: "fe_head s' = fe_head s" by simp
  obtain tx1 s2 where run: "forget_tenant h t s = (Inr (), s2)" and s2: "store_inv h s2" "republished h s tx1 (tx_log tx1) s2"
    using forget_tenant_run[OF s assms(6,7,5)] by blast
  have "hd_epoch (fe_head s2) \<noteq> hd_epoch (fe_head s)" using s2(2) by (auto simp: republished_def)
  moreover have "hd_epoch o1 = hd_epoch (fe_head s)" using assms(8,9) head by (simp add: astray_def extends_def)
  ultimately have "astray (share s2 s')" using assms(8) by (simp add: astray_def extends_def share_def)
  then have "transact h work (share s2 s') = (Inl diverged, (share s2 s')\<lparr>fe_verified := None\<rparr>)"
    using enter_run[OF share_inv[OF s2(1) s']] by (simp add: transact_def)
  with run show ?thesis by blast
qed

theorem stale_handle_refuses_witness:
  "\<exists>s2. forget_tenant sample_host ''t1'' (share sample_reader sample_appended) = (Inr (), s2) \<and>
    fst (transact sample_host (c_return ()) (share s2 sample_reader)) = Inl diverged"
  using stale_handle_refuses[OF sample_system _ _ sample_uuid_ok sample_keys_injective sample_reader_here(2,3)
      sample_reader_run(2) sample_reader_here(1), of "''t1''" "c_return ()"] by auto

end
