(* ===== verification/StoreAppend.thy ===== *)
theory StoreAppend
  imports StoreSystem
begin

text \<open>
  What an append does (\<open>append\<close>, \<open>append_guarded\<close> and the group calls of
  \<open>crates/eventlog-file/src/lib.rs\<close>): the events it stores, the history it leaves, what a retry of it
  answers, and when it refuses.
\<close>

section \<open>Callbacks leave the log alone\<close>

text \<open>Everything of a state but its projection rows and its counters.\<close>

definition core where
  "core st = (st_events st, st_commands st, st_claims st, st_groups st, st_identities st, st_generations st,
     st_projections st, st_dirty_views st, st_cursors st, st_blobs st, st_next_position st)"

lemma core_callback: "callback_op v op \<Longrightarrow> State_apply h st op = Inr st' \<Longrightarrow> core st' = core st"
  by (cases op) (auto simp: core_def)

lemma core_callbacks:
  "list_all (callback_op v) ops \<Longrightarrow> try_fold (State_apply h) st ops = Inr st' \<Longrightarrow> core st' = core st"
proof (induction ops arbitrary: st)
  case (Cons op ops)
  then obtain st1 where "State_apply h st op = Inr st1" "try_fold (State_apply h) st1 ops = Inr st'"
    by (auto simp: andthen_Inr_iff)
  then show ?case using Cons core_callback[of v op h st st1] by auto
qed simp

lemma confined_core: "confined h v tx tx' \<Longrightarrow> core (tx_state tx') = core (tx_state tx)"
  unfolding confined_def recorded_def using core_callbacks by blast

lemma confined_inv: "confined h v tx tx' \<Longrightarrow> state_inv h (tx_state tx) \<Longrightarrow> state_inv h (tx_state tx')"
  unfolding confined_def recorded_def using fs.steps_inv by blast

lemma confined_inline: "confined h v tx tx' \<Longrightarrow> tx_inline tx' = tx_inline tx \<and> tx_tick tx' = tx_tick tx"
  unfolding confined_def surroundings_def by blast

definition core_kept :: "host \<Rightarrow> Transaction \<Rightarrow> Transaction \<Rightarrow> bool" where
  "core_kept h tx tx' \<longleftrightarrow> core (tx_state tx') = core (tx_state tx) \<and> tx_inline tx' = tx_inline tx \<and> tx_tick tx' = tx_tick tx \<and>
     (state_inv h (tx_state tx) \<longrightarrow> state_inv h (tx_state tx'))"

lemma preorder_core_kept: "preorder_rel (core_kept h)"
  by (simp add: preorder_rel_def core_kept_def)

lemma core_kept_prog [steps_intro]: "steps (core_kept h) (run_prog h v p)"
  using confined_prog[of h v p] confined_core confined_inv confined_inline
  unfolding steps_def core_kept_def by blast

lemma core_kept_inline: "steps (core_kept h) (c_get tx_inline (c_each (project_inline h t written)))"
  unfolding project_inline_def by (auto intro!: steps_intro preorder_core_kept)


section \<open>The events an append stores\<close>

text \<open>The stored event is the caller's, in the caller's stream, with the caller's metadata.\<close>

definition stored :: "StreamId \<Rightarrow> CommandMeta \<Rightarrow> NewEvent \<Rightarrow> RecordedEvent \<Rightarrow> bool" where
  "stored stream meta e r \<longleftrightarrow>
     tenant r = sid_tenant stream \<and> stream_type r = sid_type stream \<and> stream_id r = sid_id stream \<and>
     name r = ne_name e \<and> schema_version r = ne_schema_version e \<and> data r = ne_data e \<and>
     occurred_at r = cm_occurred_at meta \<and> subject r = cm_subject meta \<and> actor r = cm_actor meta \<and>
     request_id r = cm_request_id meta \<and> trace_id r = cm_trace_id meta \<and>
     causation_id r = cm_causation_id meta \<and> causation_depth r = cm_causation_depth meta \<and>
     redacted_at r = None \<and> digest r = None \<and> parents r = []"

lemma stored_key: "stored stream meta e r \<Longrightarrow> event_key h r = stream_key h stream"
  by (simp add: stored_def event_key_def stream_key_def)

text \<open>
  The state after new events \<open>rs\<close> of a stream: they follow the log at its end, versions continue the
  stream and positions rise above the last one.
\<close>

definition extended :: "host \<Rightarrow> StreamId \<Rightarrow> CommandMeta \<Rightarrow> NewEvent list \<Rightarrow> RecordedEvent list \<Rightarrow> State \<Rightarrow> State \<Rightarrow> bool" where
  "extended h stream meta es rs st st' \<longleftrightarrow>
     Events_values (st_events st') = Events_values (st_events st) @ rs \<and> list_all2 (stored stream meta) es rs \<and>
     map (unat \<circ> version) rs = [Suc (unat (State_head h st stream))..<Suc (unat (State_head h st stream) + length rs)] \<and>
     sorted_wrt (<) (st_next_position st # map global_seq rs) \<and>
     st_next_position st' = last (st_next_position st # map global_seq rs) \<and>
     core st' = core (st\<lparr>st_events := st_events st', st_next_position := st_next_position st'\<rparr>)"

lemma extended_Nil: "extended h stream meta [] [] st st"
  by (simp add: extended_def core_def)

lemma head_after:
  assumes "state_inv h st" and "state_inv h st'" and "extended h stream meta es rs st st'"
  shows "unat (State_head h st' stream) = unat (State_head h st stream) + length rs"
proof -
  have inv: "events_inv h (st_events st) (st_next_position st)" "events_inv h (st_events st') (st_next_position st')"
    using assms(1,2) by (simp_all add: state_inv_def)
  have "\<forall>r \<in> set rs. event_key h r = stream_key h stream"
    using assms(3) stored_key unfolding extended_def by (auto simp: list_all2_conv_all_nth in_set_conv_nth) blast
  then have "stream_log h (stream_key h stream) rs = rs" by (simp add: stream_log_def)
  then show ?thesis
    using assms(3) by (simp add: State_head_def head_length[OF inv(1)] head_length[OF inv(2)] extended_def stream_log_append)
qed

lemma core_trans:
  "core t = core (s\<lparr>st_events := st_events t, st_next_position := st_next_position t\<rparr>) \<Longrightarrow>
   core u = core (t\<lparr>st_events := st_events u, st_next_position := st_next_position u\<rparr>) \<Longrightarrow>
   core u = core (s\<lparr>st_events := st_events u, st_next_position := st_next_position u\<rparr>)"
  by (simp add: core_def)

lemma sorted_chain:
  fixes xs :: "'a::order list"
  assumes "sorted_wrt (<) xs" and "xs \<noteq> []" and "sorted_wrt (<) (last xs # ys)"
  shows "sorted_wrt (<) (xs @ ys)"
proof -
  obtain zs z where xs: "xs = zs @ [z]" using assms(2) by (cases xs rule: rev_cases) auto
  have "x < y" if "x \<in> set zs" "y \<in> set ys" for x y
    using that assms(1,3) by (force simp: xs sorted_wrt_append intro: less_trans)
  then show ?thesis using assms by (auto simp: xs sorted_wrt_append)
qed

lemma upt_join: "b \<le> c \<Longrightarrow> [a..<b] @ [b..<c] = [a..<c]" if "a \<le> b"
  using that upt_add_eq_append[of a b "c - b"] by simp

lemma extended_trans:
  assumes "state_inv h s" and "state_inv h t" and a: "extended h stream meta xs rs s t" and b: "extended h stream meta ys qs t u"
  shows "extended h stream meta (xs @ ys) (rs @ qs) s u"
proof -
  note head = head_after[OF assms(1-3)]
  have "sorted_wrt (<) ((st_next_position s # map global_seq rs) @ map global_seq qs)"
    using a b by (intro sorted_chain) (auto simp: extended_def)
  moreover have "[Suc (unat (State_head h s stream))..<Suc (unat (State_head h s stream) + length rs)] @
      [Suc (unat (State_head h s stream) + length rs)..<Suc (unat (State_head h s stream) + length rs + length qs)] =
      [Suc (unat (State_head h s stream))..<Suc (unat (State_head h s stream) + length rs + length qs)]"
    by (rule upt_join) simp_all
  moreover have "st_next_position u = last (st_next_position s # map global_seq (rs @ qs))"
    using a b by (auto simp: extended_def)
  ultimately show ?thesis
    using a b head core_trans[of t s u] unfolding extended_def
    by (simp add: list_all2_appendI add.assoc del: upt_Suc)
qed

lemma extended_core: "extended h stream meta es rs st st' \<Longrightarrow> core u = core st' \<Longrightarrow> extended h stream meta es rs st u"
  by (auto simp: extended_def core_def)

lemma append_loop_run:
  assumes "append_loop h stream meta first written es tx = (Inr ws, tx')" and "state_inv h (tx_state tx)"
  shows "\<exists>rs. ws = written @ rs \<and> extended h stream meta es rs (tx_state tx) (tx_state tx') \<and>
    state_inv h (tx_state tx') \<and> tx_inline tx' = tx_inline tx \<and> tx_tick tx' = tx_tick tx + 2 * length es"
  using assms
proof (induction es arbitrary: written tx)
  case Nil
  then show ?case by (auto simp: cmd_simps intro: extended_Nil)
next
  case (Cons e es)
  from Cons.prems(1) obtain v p i now tx1 where
    rec: "tx_record h (OpEvent (recorded_event stream meta e v p i now)) (tx\<lparr>tx_tick := Suc (Suc (tx_tick tx))\<rparr>) = (Inr (), tx1)"
    and rest: "append_loop h stream meta first (written @ [recorded_event stream meta e v p i now]) es tx1 = (Inr ws, tx')"
    by (auto simp: c_bind_Inr_iff c_lift_run new_event_id_def now_utc_def Let_def)
  let ?r = "recorded_event stream meta e v p i now"
  have app: "apply_event h (tx_state tx) ?r = Inr (tx_state tx1)" and inl: "tx_inline tx1 = tx_inline tx" "tx_tick tx1 = tx_tick tx + 2"
    using rec by (auto simp: tx_record_Inr)
  have inv1: "state_inv h (tx_state tx1)"
    using state_inv_apply[OF Cons.prems(2), of "OpEvent ?r"] app by simp
  have ev: "events_inv h (st_events (tx_state tx)) (st_next_position (tx_state tx))"
    using Cons.prems(2) by (simp add: state_inv_def)
  have facts: "st_next_position (tx_state tx) < p" "v = State_head h (tx_state tx) stream + 1"
    "tx_state tx1 = (tx_state tx)\<lparr>st_next_position := p, st_events := Events_insert (st_events (tx_state tx)) (stream_key h stream) ?r\<rparr>"
    using app by (auto simp: apply_event_Inr recorded_event_def State_head_def event_key_def stream_key_def)
  have "unat v = Suc (unat (State_head h (tx_state tx) stream))"
    unfolding facts(2) State_head_def by (rule unat_Suc_less[OF head_below_position[OF ev facts(1)]])
  moreover have "stored stream meta e ?r" by (simp add: stored_def recorded_event_def)
  ultimately have one: "extended h stream meta [e] [?r] (tx_state tx) (tx_state tx1)"
    using values_insert[OF ev, of ?r "stream_key h stream"] facts
    by (simp add: extended_def core_def recorded_event_def)
  from Cons.IH[OF rest inv1] obtain rs where rs: "ws = (written @ [?r]) @ rs"
    "extended h stream meta es rs (tx_state tx1) (tx_state tx')" "state_inv h (tx_state tx')"
    "tx_inline tx' = tx_inline tx1" "tx_tick tx' = tx_tick tx1 + 2 * length es" by blast
  from extended_trans[OF Cons.prems(2) inv1 one rs(2)] rs(1,3-5) inl show ?case by auto
qed

lemma tx_append_run:
  assumes run: "tx_append h stream expected events meta tx = (Inr res, tx')" and inv: "state_inv h (tx_state tx)"
  shows "check_head expected (State_head h (tx_state tx) stream) = Inr () \<and>
    extended h stream meta events (ar_events res) (tx_state tx) (tx_state tx') \<and>
    unat (first_version res) = Suc (unat (State_head h (tx_state tx) stream)) \<and>
    unat (last_version res) = unat (State_head h (tx_state tx) stream) + length events \<and>
    \<not> deduplicated res \<and> state_inv h (tx_state tx') \<and> tx_inline tx' = tx_inline tx \<and>
    tx_tick tx' = tx_tick tx + 2 * length events"
proof -
  let ?head = "State_head h (tx_state tx) stream"
  from run obtain first written tx1 where chk: "check_head expected ?head = Inr ()"
    and first: "checked_add ?head 1 = Some first" and loop: "append_loop h stream meta first [] events tx = (Inr written, tx1)"
    and inl: "c_get tx_inline (c_each (project_inline h (sid_tenant stream) written)) tx1 = (Inr (), tx')"
    and res: "res = \<lparr>first_version = first, last_version = ?head + of_nat (length written), ar_events = written, deduplicated = False\<rparr>"
    unfolding tx_append_def
    by (auto simp: c_bind_Inr_iff c_lift_run c_get_run c_return_run ok_or_def split: option.splits)
  from append_loop_run[OF loop inv] have ext: "extended h stream meta events written (tx_state tx) (tx_state tx1)"
    and inv1: "state_inv h (tx_state tx1)" and inl1: "tx_inline tx1 = tx_inline tx" "tx_tick tx1 = tx_tick tx + 2 * length events" by auto
  have kept: "core_kept h tx1 tx'" using core_kept_inline inl by (rule stepsD)
  then have ext': "extended h stream meta events written (tx_state tx) (tx_state tx')"
    using extended_core[OF ext] by (simp add: core_kept_def)
  have len: "length written = length events" using ext unfolding extended_def by (auto dest: list_all2_lengthD)
  have "unat (?head + of_nat (length written)) = unat ?head + length written"
  proof (cases written rule: rev_cases)
    case (snoc ws w)
    have "map (unat \<circ> version) written = [Suc (unat ?head)..<Suc (unat ?head + length written)]"
      using ext by (simp add: extended_def)
    then have "unat (version w) = unat ?head + length written" by (simp add: snoc)
    moreover have "unat (version w) < 2 ^ 64" using unsigned_less[of "version w"] by simp
    ultimately have "unat ?head + length written < 2 ^ 64" by simp
    then show ?thesis by (simp add: unat_word_ariths unat_of_nat)
  qed simp
  then show ?thesis
    using chk ext' checked_add_SomeD[OF first] len kept inv1 inl1 by (simp add: res core_kept_def)
qed

text \<open>The range an append answers reads back what it stored, in every longer log.\<close>

lemma gapless_split:
  assumes "gapless (us @ vs @ ws)"
  shows "\<forall>u \<in> set us. unat u \<le> length us" and "\<forall>w \<in> set ws. length us + length vs < unat w"
    and "\<forall>v \<in> set vs. length us < unat v \<and> unat v \<le> length us + length vs"
proof -
  have "unat (xs ! i) = Suc i" if "gapless xs" "i < length xs" for xs :: "u64 list" and i
    using that nth_map[of i xs unat] nth_upt[of 1 i "Suc (length xs)"] unfolding gapless_def by simp
  note nth = this[OF assms]
  show "\<forall>u \<in> set us. unat u \<le> length us"
  proof
    fix u
    assume "u \<in> set us"
    then obtain i where "i < length us" "u = us ! i" by (auto simp: in_set_conv_nth)
    then show "unat u \<le> length us" using nth[of i] by (simp add: nth_append)
  qed
  show "\<forall>w \<in> set ws. length us + length vs < unat w"
  proof
    fix w
    assume "w \<in> set ws"
    then obtain i where "i < length ws" "w = ws ! i" by (auto simp: in_set_conv_nth)
    then show "length us + length vs < unat w" using nth[of "length us + length vs + i"] by (simp add: nth_append)
  qed
  show "\<forall>v \<in> set vs. length us < unat v \<and> unat v \<le> length us + length vs"
  proof
    fix v
    assume "v \<in> set vs"
    then obtain i where "i < length vs" "v = vs ! i" by (auto simp: in_set_conv_nth)
    then show "length us < unat v \<and> unat v \<le> length us + length vs"
      using nth[of "length us + i"] by (simp add: nth_append)
  qed
qed

lemma range_read:
  assumes inv: "state_inv h st" and log: "Events_values (st_events st) = xs @ rs @ ys"
    and own: "\<forall>r \<in> set rs. event_key h r = stream_key h stream"
    and first: "unat a = Suc (length (stream_log h (stream_key h stream) xs))"
    and last: "unat b = length (stream_log h (stream_key h stream) xs) + length rs"
  shows "of_stream h (st_events st) stream (Included a) (Included b) = rs"
proof -
  let ?k = "stream_key h stream"
  have ev: "events_inv h (st_events st) (st_next_position st)" using inv by (simp add: state_inv_def)
  have rs: "stream_log h ?k rs = rs" using own by (simp add: stream_log_def)
  have "gapless (map version (stream_log h ?k xs) @ map version rs @ map version (stream_log h ?k ys))"
    using ev rs unfolding events_inv_def log stream_log_append map_append by metis
  note g = gapless_split[OF this]
  have "filter (in_range (Included a) (Included b)) (stream_log h ?k xs) = []"
    "filter (in_range (Included a) (Included b)) (stream_log h ?k ys) = []"
    "filter (in_range (Included a) (Included b)) rs = rs"
    using g first last by (auto simp: filter_empty_conv filter_id_conv in_range_def word_le_nat_alt)
  then show ?thesis by (simp add: of_stream_log[OF ev] log stream_log_append rs)
qed

lemma tx_result_extended:
  assumes "state_inv h st" and "state_inv h st'" and "extended h stream meta es rs st st1"
    and "Events_values (st_events st') = Events_values (st_events st1) @ ys"
    and "unat a = Suc (unat (State_head h st stream))" and "unat b = unat (State_head h st stream) + length rs"
  shows "of_stream h (st_events st') stream (Included a) (Included b) = rs"
proof -
  have ev: "events_inv h (st_events st) (st_next_position st)" using assms(1) by (simp add: state_inv_def)
  have "\<forall>r \<in> set rs. event_key h r = stream_key h stream"
    using assms(3) stored_key unfolding extended_def by (auto simp: list_all2_conv_all_nth in_set_conv_nth) blast
  then show ?thesis
    using assms by (intro range_read[of h st' "Events_values (st_events st)" rs ys])
      (simp_all add: extended_def State_head_def head_length[OF ev])
qed


section \<open>One append command\<close>

text \<open>What the store already answers for a command: the claim it made, or its own record.\<close>

definition answered :: "host \<Rightarrow> StreamId \<Rightarrow> CommandMeta \<Rightarrow> State \<Rightarrow> AppendResult option res" where
  "answered h stream meta st = andthen (case cm_claim meta of None \<Rightarrow> Inr None
       | Some claim \<Rightarrow> tx_claim h (sid_tenant stream) claim st) (\<lambda>claimed. case claimed of
     Some r \<Rightarrow> Inr (Some (tx_result h st r True))
   | None \<Rightarrow> tx_command h stream (idempotency_key meta) (request_hash meta) st)"

lemma tx_append_guarded_answered:
  assumes "answered h stream meta (tx_state tx) = Inr (Some res)"
  shows "tx_append_guarded h stream expected events meta guard tx = (Inr res, tx)"
  using assms unfolding answered_def tx_append_guarded_def
  by (auto simp: cmd_simps andthen_Inr_iff split: option.splits)

lemma tx_append_guarded_refuses:
  assumes "answered h stream meta (tx_state tx) = Inl e"
  shows "tx_append_guarded h stream expected events meta guard tx = (Inl e, tx)"
  using assms unfolding answered_def tx_append_guarded_def
  by (auto simp: cmd_simps andthen_Inl_iff split: option.splits sum.splits)

definition tx_fresh_append ::
  "host \<Rightarrow> StreamId \<Rightarrow> Expected \<Rightarrow> NewEvent list \<Rightarrow> CommandMeta \<Rightarrow> Guard \<Rightarrow> AppendResult txop" where
  "tx_fresh_append h stream expected events meta guard =
     c_bind (c_lift (\<lambda>s. check_head expected (State_head h (tx_state s) stream))) (\<lambda>_.
     c_bind (run_prog h (guard_view (sid_tenant stream)) guard) (\<lambda>_.
     c_bind (tx_append h stream expected events meta) (\<lambda>result.
     c_bind (tx_record h (OpCommand stream (idempotency_key meta) (request_hash meta)
       (first_version result) (last_version result))) (\<lambda>_.
     c_bind (case cm_claim meta of None \<Rightarrow> c_return ()
       | Some claim \<Rightarrow> tx_record h (OpClaim (sid_tenant stream) (claim_scope claim) (claim_key claim)
           (claim_digest claim) \<lparr>gr_stream = stream, gr_first = first_version result,
             gr_last = last_version result\<rparr>)) (\<lambda>_.
     c_return result)))))"

lemma tx_append_guarded_fresh:
  assumes "answered h stream meta (tx_state tx) = Inr None"
  shows "tx_append_guarded h stream expected events meta guard tx = tx_fresh_append h stream expected events meta guard tx"
  using assms unfolding answered_def tx_append_guarded_def tx_fresh_append_def[symmetric]
  by (auto simp: cmd_simps andthen_Inr_iff split: option.splits)

lemma tx_fresh_append_run:
  assumes run: "tx_fresh_append h stream expected events meta guard tx = (Inr res, tx')" and inv: "state_inv h (tx_state tx)"
  shows "check_head expected (State_head h (tx_state tx) stream) = Inr ()"
    and "Events_values (st_events (tx_state tx')) = Events_values (st_events (tx_state tx)) @ ar_events res"
    and "\<exists>st1. extended h stream meta events (ar_events res) (tx_state tx) st1 \<and> st_events (tx_state tx') = st_events st1"
    and "answered h stream meta (tx_state tx') = Inr (Some (res\<lparr>deduplicated := True\<rparr>))"
    and "\<not> deduplicated res" and "state_inv h (tx_state tx')" and "tx_pending tx' \<noteq> []"
    and "tx_tick tx' = tx_tick tx + 2 * length events"
proof -
  let ?r = "\<lparr>gr_stream = stream, gr_first = first_version res, gr_last = last_version res\<rparr>"
  let ?cmd = "OpCommand stream (idempotency_key meta) (request_hash meta) (first_version res) (last_version res)"
  let ?rest = "case cm_claim meta of None \<Rightarrow> c_return ()
       | Some claim \<Rightarrow> tx_record h (OpClaim (sid_tenant stream) (claim_scope claim) (claim_key claim) (claim_digest claim) ?r)"
  from run obtain tx1 tx2 tx3 where chk: "check_head expected (State_head h (tx_state tx) stream) = Inr ()"
    and guard: "run_prog h (guard_view (sid_tenant stream)) guard tx = (Inr (), tx1)"
    and app: "tx_append h stream expected events meta tx1 = (Inr res, tx2)"
    and cmd: "tx_record h ?cmd tx2 = (Inr (), tx3)" and cl: "?rest tx3 = (Inr (), tx')"
    unfolding tx_fresh_append_def by (auto simp: c_bind_Inr_iff c_lift_run c_return_run)
  have kept: "core_kept h tx tx1" using core_kept_prog guard by (rule stepsD)
  then have core1: "core (tx_state tx1) = core (tx_state tx)" and inv1: "state_inv h (tx_state tx1)"
    using inv by (simp_all add: core_kept_def)
  note a = tx_append_run[OF app inv1]
  have inv2: "state_inv h (tx_state tx2)" using a by blast
  have st3: "State_apply h (tx_state tx2) ?cmd = Inr (tx_state tx3)" "tx_pending tx3 \<noteq> []" "tx_tick tx3 = tx_tick tx2"
    using cmd by (auto simp: tx_record_Inr simp del: State_apply.simps)
  have st3': "tx_state tx3 = (tx_state tx2)\<lparr>st_commands := bt_insert (key h [stream_key h stream, idempotency_key meta])
      (request_hash meta, ?r) (st_commands (tx_state tx2))\<rparr>" using st3(1) by simp
  have st4: "tx_state tx' = (case cm_claim meta of None \<Rightarrow> tx_state tx3 | Some claim \<Rightarrow> (tx_state tx3)\<lparr>st_claims :=
        bt_insert (key h [sid_tenant stream, claim_scope claim, claim_key claim]) (claim_digest claim, ?r) (st_claims (tx_state tx3))\<rparr>)"
    "tx_pending tx' \<noteq> []" "tx_tick tx' = tx_tick tx3"
    using cl st3(2) by (auto simp: cmd_simps tx_record_Inr split: option.splits)
  have inv': "state_inv h (tx_state tx')"
    using state_inv_apply[OF inv2 st3(1)] st4(1) by (auto simp: state_inv_def split: option.splits)
  have ev: "st_events (tx_state tx') = st_events (tx_state tx2)"
    by (simp add: st4(1) st3' split: option.splits)
  have head: "State_head h (tx_state tx1) stream = State_head h (tx_state tx) stream"
    "st_events (tx_state tx1) = st_events (tx_state tx)" "st_next_position (tx_state tx1) = st_next_position (tx_state tx)"
    using core1 by (auto simp: core_def State_head_def)
  have ext: "extended h stream meta events (ar_events res) (tx_state tx1) (tx_state tx2)" using a by blast
  have "extended h stream meta events (ar_events res) (tx_state tx) (tx_state tx2)"
    using ext core1 unfolding extended_def head by (simp add: core_def)
  then show "\<exists>st1. extended h stream meta events (ar_events res) (tx_state tx) st1 \<and> st_events (tx_state tx') = st_events st1"
    using ev by blast
  show "Events_values (st_events (tx_state tx')) = Events_values (st_events (tx_state tx)) @ ar_events res"
    using ext ev head by (simp add: extended_def)
  have "of_stream h (st_events (tx_state tx')) stream (Included (first_version res)) (Included (last_version res)) = ar_events res"
    using a ev ext unfolding extended_def
    by (intro tx_result_extended[OF inv1 inv' ext, where ys = "[]"]) (auto dest: list_all2_lengthD)
  then have "tx_result h (tx_state tx') ?r True = res\<lparr>deduplicated := True\<rparr>"
    by (simp add: tx_result_def)
  then show "answered h stream meta (tx_state tx') = Inr (Some (res\<lparr>deduplicated := True\<rparr>))"
    by (auto simp: st4(1) st3' answered_def tx_claim_def tx_command_def bt_simps split: option.splits)
  show "check_head expected (State_head h (tx_state tx) stream) = Inr ()" "\<not> deduplicated res"
    "state_inv h (tx_state tx')" "tx_pending tx' \<noteq> []"
    "tx_tick tx' = tx_tick tx + 2 * length events"
    using chk a inv' st4(2,3) st3(3) kept by (auto simp: core_kept_def)
qed


section \<open>Appending to the store\<close>

lemma append_guarded_transact:
  assumes "validate_append events meta = Inr ()"
  shows "append_guarded h stream expected events meta guard s =
    transact h (tx_append_guarded h stream expected events meta guard) (s\<lparr>fe_frozen := True\<rparr>)"
  using assms by (simp add: append_guarded_def cmd_simps freeze_def)

lemma frozen_handle: "astray (s\<lparr>fe_frozen := b\<rparr>) = astray s" "room (s\<lparr>fe_frozen := b\<rparr>) = room s"
  by (simp_all add: astray_def room_def split: option.splits)

lemma commits_log:
  "commits h s tx s2 \<Longrightarrow> replay h (hd_log (fe_head s2)) = Inr (tx_state tx) \<and> fe_observed s2 = Some (fe_head s2)"
  unfolding commits_def history_ok_def by blast

text \<open>An append that nothing refuses: an unused key, the expected head, no guard, no projector, room to count.\<close>

lemma append_loop_total:
  assumes "state_inv h (tx_state tx)" and "field_ok (sid_type stream)" and "field_ok (sid_id stream)"
    and "unat (st_next_position (tx_state tx)) + length es < 2 ^ 64"
    and "unat first + length written = Suc (unat (State_head h (tx_state tx) stream))"
  shows "\<exists>ws tx'. append_loop h stream meta first written es tx = (Inr ws, tx') \<and> tx_inline tx' = tx_inline tx"
  using assms
proof (induction es arbitrary: written tx)
  case (Cons e es)
  let ?st = "tx_state tx"
  have ev: "events_inv h (st_events ?st) (st_next_position ?st)" using Cons.prems(1) by (simp add: state_inv_def)
  have p: "checked_add (st_next_position ?st) 1 = Some (st_next_position ?st + 1)"
    and pos: "st_next_position ?st < st_next_position ?st + 1"
    and pos': "unat (st_next_position ?st + 1) = Suc (unat (st_next_position ?st))"
    using Cons.prems(4) by (auto simp: checked_add_Some_iff word_less_nat_alt unat_word_ariths)
  have v: "unat (State_head h ?st stream + 1) = Suc (unat (State_head h ?st stream))"
    unfolding State_head_def by (rule unat_Suc_less[OF head_below_position[OF ev pos]])
  have lt: "unat first + length written < 2 ^ 64" unfolding Cons.prems(5) v[symmetric]
    using unsigned_less[of "State_head h ?st stream + 1"] by simp
  then have len: "unat (of_nat (length written) :: u64) = length written" by (simp add: unat_of_nat)
  then have vv: "first + of_nat (length written) = State_head h ?st stream + 1"
    using Cons.prems(5) v lt by (simp add: word_unat_eq_iff unat_word_ariths)
  have c: "checked_add first (of_nat (length written)) = Some (State_head h ?st stream + 1)"
    using lt len vv v Cons.prems(5) by (auto simp: checked_add_Some_iff)
  let ?r = "recorded_event stream meta e (State_head h ?st stream + 1) (st_next_position ?st + 1)
      (uuid_at h (tx_tick tx)) (now_at h (Suc (tx_tick tx)))"
  obtain st1 where st1: "apply_event h ?st ?r = Inr st1"
    using Cons.prems(2,3) pos by (auto simp: apply_event_Inr recorded_event_def State_head_def event_key_def stream_key_def)
  let ?tx = "tx\<lparr>tx_tick := Suc (Suc (tx_tick tx)), tx_pending := tx_pending tx @ [OpEvent ?r], tx_state := st1\<rparr>"
  have inv1: "state_inv h st1" using state_inv_apply[OF Cons.prems(1), of "OpEvent ?r"] st1 by simp
  have "st_next_position st1 = st_next_position ?st + 1" and "Events_values (st_events st1) = Events_values (st_events ?st) @ [?r]"
    using st1 values_insert[OF ev, of ?r] pos by (auto simp: apply_event_Inr recorded_event_def)
  moreover have "event_key h ?r = stream_key h stream" by (simp add: recorded_event_def event_key_def stream_key_def)
  moreover have ev1: "events_inv h (st_events st1) (st_next_position st1)" using inv1 by (simp add: state_inv_def)
  ultimately have "unat (State_head h st1 stream) = Suc (unat (State_head h ?st stream))"
    by (simp add: State_head_def head_length[OF ev] head_length[OF ev1] stream_log_append stream_log_single)
  then have "\<exists>ws tx'. append_loop h stream meta first (written @ [?r]) es ?tx = (Inr ws, tx') \<and> tx_inline tx' = tx_inline ?tx"
    using Cons.prems \<open>st_next_position st1 = _\<close> pos' inv1 by (intro Cons.IH) simp_all
  then show ?case
    using c p st1 by (simp add: cmd_simps new_event_id_def now_utc_def tx_record_def Let_def)
qed (simp add: cmd_simps)

lemma tx_append_total:
  assumes inv: "state_inv h (tx_state tx)" and "field_ok (sid_type stream)" and "field_ok (sid_id stream)"
    and room: "unat (st_next_position (tx_state tx)) + length events < 2 ^ 64" and "events \<noteq> []"
    and chk: "check_head expected (State_head h (tx_state tx) stream) = Inr ()" and inl: "tx_inline tx = []"
  shows "\<exists>res tx'. tx_append h stream expected events meta tx = (Inr res, tx')"
proof -
  let ?head = "State_head h (tx_state tx) stream"
  have ev: "events_inv h (st_events (tx_state tx)) (st_next_position (tx_state tx))" using inv by (simp add: state_inv_def)
  have "unat ?head \<le> unat (st_next_position (tx_state tx))"
    using head_length[OF ev, of "stream_key h stream"] length_stream_log[of h "stream_key h stream" "Events_values (st_events (tx_state tx))"] ev
    by (simp add: State_head_def events_inv_def Events_values_def)
  moreover have "0 < length events" using assms(5) by simp
  ultimately have "unat ?head + 1 < 2 ^ 64" using room by linarith
  then have first: "checked_add ?head 1 = Some (?head + 1)" "unat (?head + 1) = Suc (unat ?head)"
    by (auto simp: checked_add_Some_iff unat_word_ariths)
  obtain ws tx1 where "append_loop h stream meta (?head + 1) [] events tx = (Inr ws, tx1)" "tx_inline tx1 = []"
    using append_loop_total[OF inv assms(2,3) room, of "?head + 1" "[]" meta] first inl by auto
  then show ?thesis using chk first by (simp add: tx_append_def cmd_simps)
qed

lemma tx_fresh_append_total:
  assumes "state_inv h (tx_state tx)" and "field_ok (sid_type stream)" and "field_ok (sid_id stream)"
    and "unat (st_next_position (tx_state tx)) + length events < 2 ^ 64" and "events \<noteq> []"
    and chk: "check_head expected (State_head h (tx_state tx) stream) = Inr ()" and "tx_inline tx = []"
  shows "\<exists>res tx'. tx_fresh_append h stream expected events meta NoGuard tx = (Inr res, tx')"
proof -
  obtain res tx2 where "tx_append h stream expected events meta tx = (Inr res, tx2)"
    using tx_append_total[OF assms, of meta] by blast
  then show ?thesis
    using chk by (cases "cm_claim meta") (simp_all add: tx_fresh_append_def cmd_simps NoGuard_def tx_record_def)
qed

lemma validate_append_events: "validate_append events meta = Inr () \<Longrightarrow> events \<noteq> []"
  by (auto simp: validate_append_def)

text \<open>One append, from the replay of the history: what it answers and the history it leaves.\<close>

lemma append_run:
  assumes inv: "store_inv h s" and here: "\<not> astray s" "room s" and ok: "validate_append events meta = Inr ()"
    and rep: "replay h (hd_log (fe_head s)) = Inr st"
    and call: "append_guarded h stream expected events meta guard s = (r, s2)"
  shows "store_inv h s2" and "\<not> astray s2" and "fe_inline s2 = fe_inline s"
    and "\<And>e. r = Inl e \<Longrightarrow> fe_head s2 = fe_head s"
    and "\<And>e. answered h stream meta st = Inl e \<Longrightarrow> r = Inl e"
    and "\<And>a. answered h stream meta st = Inr (Some a) \<Longrightarrow> r = Inr a \<and> fe_head s2 = fe_head s"
    and "\<And>e. answered h stream meta st = Inr None \<Longrightarrow> check_head expected (State_head h st stream) = Inl e \<Longrightarrow> r = Inl e"
    and "\<And>res. answered h stream meta st = Inr None \<Longrightarrow> r = Inr res \<Longrightarrow>
      \<exists>ops st2 st1. hd_log (fe_head s2) = hd_log (fe_head s) @ [TxOps ops] \<and> replay h (hd_log (fe_head s2)) = Inr st2 \<and>
        extended h stream meta events (ar_events res) st st1 \<and> st_events st2 = st_events st1 \<and>
        answered h stream meta st2 = Inr (Some (res\<lparr>deduplicated := True\<rparr>)) \<and> \<not> deduplicated res"
    and "answered h stream meta st = Inr None \<Longrightarrow> guard = NoGuard \<Longrightarrow> fe_inline s = [] \<Longrightarrow>
      field_ok (sid_type stream) \<Longrightarrow> field_ok (sid_id stream) \<Longrightarrow>
      unat (st_next_position st) + length events < 2 ^ 64 \<Longrightarrow>
      check_head expected (State_head h st stream) = Inr () \<Longrightarrow> is_ok r"
    and "\<And>res. r = Inr res \<Longrightarrow> hd_epoch (fe_head s2) = hd_epoch (fe_head s) \<and> fe_tick s2 \<le> fe_tick s + 2 * length events"
proof -
  let ?s = "s\<lparr>fe_frozen := True\<rparr>" and ?w = "tx_append_guarded h stream expected events meta guard"
  have inv': "store_inv h ?s" using inv by (simp add: inv_frozen)
  have here': "\<not> astray ?s" "room ?s" using here by (simp_all add: frozen_handle)
  obtain tx r' tx1 s2' where t: "entry h ?s tx" and w: "?w tx = (r', tx1)" and run: "transact h ?w ?s = (r', s2')"
    and s2': "store_inv h s2'" "\<not> astray s2'" "case r' of Inl _ \<Rightarrow> refused ?s tx s2' | Inr _ \<Rightarrow> good h tx tx1 \<and> commits h ?s tx1 s2'"
    by (rule transact_run[OF inv' here' ordinary_tame[OF ordinary_works(1)]]) blast
  have same: "r' = r" "s2' = s2" using call run by (simp_all add: append_guarded_transact[OF ok])
  note w = w[unfolded same] and s2 = s2'[unfolded same]
  have rep': "replay h (hd_log (fe_head ?s)) = Inr st" using rep by simp
  have st: "tx_state tx = st" by (rule entry_state[OF t rep'])
  have sinv: "state_inv h (tx_state tx)" using replay_inv[OF rep] by (simp add: st)
  have pend: "tx_pending tx = []" and inl: "tx_inline tx = fe_inline s" using t by (simp_all add: entry_def)
  show "store_inv h s2" "\<not> astray s2" by (fact s2)+
  show "fe_inline s2 = fe_inline s" using s2(3) by (cases r) (simp_all add: refused_def commits_def same_handle_def)
  show "fe_head s2 = fe_head s" if "r = Inl e" for e using that s2(3) by (simp add: refused_def)
  show "r = Inl e" if "answered h stream meta st = Inl e" for e
    using w tx_append_guarded_refuses[of h stream meta tx e] that st by simp
  show "r = Inr a \<and> fe_head s2 = fe_head s" if "answered h stream meta st = Inr (Some a)" for a
  proof -
    have "r = Inr a" "tx1 = tx" using w tx_append_guarded_answered[of h stream meta tx a] that st by simp_all
    then show ?thesis using s2(3) pend by (simp add: commits_def)
  qed
  have fresh: "tx_fresh_append h stream expected events meta guard tx = (r, tx1)" if "answered h stream meta st = Inr None"
    using w tx_append_guarded_fresh[of h stream meta tx] that st by simp
  show "r = Inl e" if "answered h stream meta st = Inr None" "check_head expected (State_head h st stream) = Inl e" for e
    using fresh that st by (simp add: tx_fresh_append_def cmd_simps)
  show "\<exists>ops st2 st1. hd_log (fe_head s2) = hd_log (fe_head s) @ [TxOps ops] \<and> replay h (hd_log (fe_head s2)) = Inr st2 \<and>
      extended h stream meta events (ar_events res) st st1 \<and> st_events st2 = st_events st1 \<and>
      answered h stream meta st2 = Inr (Some (res\<lparr>deduplicated := True\<rparr>)) \<and> \<not> deduplicated res"
    if a: "answered h stream meta st = Inr None" and r: "r = Inr res" for res
  proof -
    note f = tx_fresh_append_run[OF fresh[OF a, unfolded r] sinv]
    have com: "commits h ?s tx1 s2" using s2(3) r by simp
    have "hd_log (fe_head s2) = hd_log (fe_head s) @ [TxOps (pending_ops tx1)]"
      using com f(7) by (simp add: commits_def)
    then show ?thesis using commits_log[OF com] f(3-5) st by blast
  qed
  show "hd_epoch (fe_head s2) = hd_epoch (fe_head s) \<and> fe_tick s2 \<le> fe_tick s + 2 * length events" if r: "r = Inr res" for res
  proof -
    have com: "commits h ?s tx1 s2" using s2(3) r by simp
    have "tx_tick tx1 \<le> tx_tick tx + 2 * length events"
    proof (cases "answered h stream meta st")
      case (Inr a)
      show ?thesis
      proof (cases a)
        case None
        then show ?thesis using tx_fresh_append_run(8)[OF fresh[unfolded r] sinv] Inr by simp
      next
        case (Some b)
        then show ?thesis using w tx_append_guarded_answered[of h stream meta tx b] Inr st by simp
      qed
    qed (use w tx_append_guarded_refuses[of h stream meta tx] st r in simp)
    then show ?thesis using com t by (simp add: commits_def entry_def)
  qed
  show "is_ok r" if a: "answered h stream meta st = Inr None" and g: "guard = NoGuard" "fe_inline s = []"
      "field_ok (sid_type stream)" "field_ok (sid_id stream)" "unat (st_next_position st) + length events < 2 ^ 64"
      "check_head expected (State_head h st stream) = Inr ()"
    using tx_fresh_append_total[OF sinv g(3,4), of events expected meta] g fresh[OF a] st inl validate_append_events[OF ok] by auto
qed


section \<open>Claims\<close>

text \<open>A reachable handle whose view the directory still extends, with a transaction number left.\<close>

definition serving :: "host \<Rightarrow> FileEventStore \<Rightarrow> bool" where
  "serving h s \<longleftrightarrow> (\<exists>ss. system h ss \<and> s \<in> set ss) \<and> uuid_ok h \<and> keys_injective h \<and> \<not> astray s \<and> room s"

lemma servingD:
  assumes "serving h s"
  shows "store_inv h s" and "\<not> astray s" and "room s" and "uuid_ok h" and "keys_injective h"
    and "\<exists>st. replay h (hd_log (fe_head s)) = Inr st"
proof -
  show inv: "store_inv h s" using assms system_inv by (auto simp: serving_def)
  then show "\<exists>st. replay h (hd_log (fe_head s)) = Inr st" by (auto simp: store_inv_def history_ok_def)
qed (use assms in \<open>simp_all add: serving_def\<close>)

lemma answered_dedup: "answered h stream meta st = Inr (Some a) \<Longrightarrow> deduplicated a"
  by (auto simp: answered_def tx_result_def tx_command_def andthen_Inr_iff split: option.splits prod.splits if_splits)

text \<open>
  C3. An append that stores anything adds exactly one transaction to the history. The events it answers
  are the caller's events, in order and with the caller's metadata; they follow everything stored
  before, continue the versions of the stream from its head and take positions above every earlier one.
\<close>

theorem append_stores:
  assumes "serving h s" and "replay h (hd_log (fe_head s)) = Inr st"
    and "append_guarded h stream expected events meta guard s = (Inr res, s2)" and "\<not> deduplicated res"
  shows "\<exists>ops st2. hd_log (fe_head s2) = hd_log (fe_head s) @ [TxOps ops] \<and> replay h (hd_log (fe_head s2)) = Inr st2 \<and>
    Events_values (st_events st2) = Events_values (st_events st) @ ar_events res \<and>
    list_all2 (stored stream meta) events (ar_events res) \<and>
    map (unat \<circ> version) (ar_events res) =
      [Suc (unat (State_head h st stream))..<Suc (unat (State_head h st stream) + length events)] \<and>
    sorted_wrt (<) (st_next_position st # map global_seq (ar_events res))"
proof -
  have ok: "validate_append events meta = Inr ()"
    using assms(3) by (cases "validate_append events meta") (simp_all add: append_guarded_def cmd_simps)
  note run = append_run[OF servingD(1-3)[OF assms(1)] ok assms(2,3)]
  have "answered h stream meta st = Inr None"
  proof (cases "answered h stream meta st")
    case (Inr a)
    show ?thesis
    proof (cases a)
      case (Some b)
      then have "deduplicated res" using answered_dedup[of h stream meta st b] run(6) Inr by simp
      then show ?thesis using assms(4) by simp
    qed (use Inr in simp)
  qed (use run(5) in simp)
  from run(8)[OF this refl] obtain ops st2 st1 where
    st2: "hd_log (fe_head s2) = hd_log (fe_head s) @ [TxOps ops]" "replay h (hd_log (fe_head s2)) = Inr st2"
    and ext: "extended h stream meta events (ar_events res) st st1" "st_events st2 = st_events st1" by blast
  moreover have "length (ar_events res) = length events" using ext(1) unfolding extended_def by (auto dest: list_all2_lengthD)
  ultimately show ?thesis unfolding extended_def by auto
qed

text \<open>
  C4. Retrying is safe. Once an append with some metadata was answered, every later append to that
  stream with the same metadata, whatever its events, expectation and guard, answers the same range
  and the same events marked as deduplicated, and stores nothing.
\<close>

theorem append_retry_answers_same:
  assumes "serving h s" and "append_guarded h stream expected events meta guard s = (Inr res, s2)" and "room s2"
    and "validate_append events' meta = Inr ()"
  shows "\<exists>s3. append_guarded h stream expected' events' meta guard' s2 = (Inr (res\<lparr>deduplicated := True\<rparr>), s3) \<and>
    fe_head s3 = fe_head s2"
proof -
  have ok: "validate_append events meta = Inr ()"
    using assms(2) by (cases "validate_append events meta") (simp_all add: append_guarded_def cmd_simps)
  obtain st where st: "replay h (hd_log (fe_head s)) = Inr st" using servingD(6)[OF assms(1)] by blast
  note run = append_run[OF servingD(1-3)[OF assms(1)] ok st assms(2)]
  have "\<exists>st2. replay h (hd_log (fe_head s2)) = Inr st2 \<and> answered h stream meta st2 = Inr (Some (res\<lparr>deduplicated := True\<rparr>))"
  proof (cases "answered h stream meta st")
    case (Inr a)
    show ?thesis
    proof (cases a)
      case None
      then show ?thesis using run(8)[OF _ refl] Inr by auto
    next
      case (Some b)
      then have "res = b" "fe_head s2 = fe_head s" using run(6) Inr by simp_all
      moreover have "b\<lparr>deduplicated := True\<rparr> = b" using answered_dedup[of h stream meta st b] Inr Some by (cases b) simp
      ultimately show ?thesis using Inr Some st by simp
    qed
  qed (use run(5) in simp)
  then obtain st2 where st2: "replay h (hd_log (fe_head s2)) = Inr st2"
    and ans: "answered h stream meta st2 = Inr (Some (res\<lparr>deduplicated := True\<rparr>))" by blast
  obtain r s3 where call: "append_guarded h stream expected' events' meta guard' s2 = (r, s3)"
    by (cases "append_guarded h stream expected' events' meta guard' s2")
  from append_run(6)[OF run(1,2) assms(3,4) st2 call ans] call show ?thesis by simp
qed


text \<open>
  C14. An append that nothing stands against is stored: a valid request under an unused key, at the
  head its caller expects, with no guard and no inline projector, while positions are left.
\<close>

theorem append_succeeds:
  assumes "serving h s" and "replay h (hd_log (fe_head s)) = Inr st" and "validate_append events meta = Inr ()"
    and "is_ok (StreamId_new (sid_tenant stream) (sid_type stream) (sid_id stream))" and "fe_inline s = []"
    and "cm_claim meta = None" and "bt_get (st_commands st) (key h [stream_key h stream, idempotency_key meta]) = None"
    and "wanted_head expected (State_head h st stream) = Inr (State_head h st stream)"
    and "unat (st_next_position st) + length events < 2 ^ 64"
  shows "\<exists>res s2. append_events h stream expected events meta s = (Inr res, s2) \<and> \<not> deduplicated res \<and>
    length (ar_events res) = length events"
proof -
  obtain r s2 where call: "append_guarded h stream expected events meta NoGuard s = (r, s2)"
    by (cases "append_guarded h stream expected events meta NoGuard s")
  note run = append_run[OF servingD(1-3)[OF assms(1)] assms(3,2) call]
  have ans: "answered h stream meta st = Inr None" using assms(6,7) by (simp add: answered_def tx_command_def)
  have "field_ok (sid_type stream)" "field_ok (sid_id stream)"
    using assms(4) by (auto simp: is_ok_def StreamId_new_iff split: sum.splits)
  then have "is_ok r" using run(9)[OF ans refl assms(5)] assms(8,9) by (simp add: check_head_def)
  then obtain res where r: "r = Inr res" by (cases r) simp_all
  from run(8)[OF ans r] obtain st1 where "extended h stream meta events (ar_events res) st st1" "\<not> deduplicated res" by blast
  then show ?thesis using call r unfolding append_events_def extended_def by (auto dest: list_all2_lengthD)
qed


subsection \<open>A concrete append\<close>

lemma sample_writer_serving: "serving sample_host sample_writer"
  using sys_create[OF sample_writer_run(1)] sample_uuid_ok sample_keys_injective
  by (auto simp: serving_def astray_def sample_writer_run extends_def room_def no_history_def intro!: exI[of _ "[sample_writer]"])

lemma sample_writer_replay: "replay sample_host (hd_log (fe_head sample_writer)) = Inr State_default"
  by (simp add: sample_writer_run no_history_def replay_def)

lemma sample_valid: "validate_append [sample_event] sample_meta = Inr ()"
proof -
  have "is_ok (validate_append [sample_event] sample_meta)" by code_simp
  then show ?thesis by (cases "validate_append [sample_event] sample_meta") simp_all
qed

lemma sample_stream_valid: "is_ok (StreamId_new (sid_tenant sample_stream) (sid_type sample_stream) (sid_id sample_stream))"
  by code_simp

lemma sample_no_claim: "cm_claim sample_meta = None"
  by (simp add: sample_meta_def)

theorem append_succeeds_witness:
  "\<exists>res s2. append_events sample_host sample_stream NoStream [sample_event] sample_meta sample_writer = (Inr res, s2) \<and>
    \<not> deduplicated res \<and> length (ar_events res) = 1"
  using append_succeeds[OF sample_writer_serving sample_writer_replay sample_valid sample_stream_valid sample_writer_run(5) sample_no_claim, of NoStream]
  by (simp add: State_default_def wanted_head_def State_head_def Events_head_def)

text \<open>The same append, with the history it leaves.\<close>

lemma sample_append_run:
  obtains res s2 where "append_guarded sample_host sample_stream NoStream [sample_event] sample_meta NoGuard sample_writer = (Inr res, s2)"
    and "\<not> deduplicated res" and "serving sample_host s2" and "epoch_room s2" and "fe_tick s2 \<le> 2"
    and "\<exists>st2 e. replay sample_host (hd_log (fe_head s2)) = Inr st2 \<and> of_stream sample_host (st_events st2) sample_stream (Included 1) (Included 1) = [e]"
    and "fe_inline s2 = []"
proof -
  obtain r s2 where call: "append_guarded sample_host sample_stream NoStream [sample_event] sample_meta NoGuard sample_writer = (r, s2)"
    by (cases "append_guarded sample_host sample_stream NoStream [sample_event] sample_meta NoGuard sample_writer")
  note run = append_run[OF servingD(1-3)[OF sample_writer_serving] sample_valid sample_writer_replay call]
  have ans: "answered sample_host sample_stream sample_meta State_default = Inr None"
    by (simp add: answered_def sample_no_claim tx_command_def State_default_def)
  have "field_ok (sid_type sample_stream)" "field_ok (sid_id sample_stream)"
    using sample_stream_valid by (auto simp: is_ok_def StreamId_new_iff split: sum.splits)
  then have "is_ok r"
    using run(9)[OF ans refl sample_writer_run(5)]
    by (simp add: check_head_def wanted_head_def State_head_def Events_head_def State_default_def)
  then obtain res where r: "r = Inr res" by (cases r) simp_all
  from run(8)[OF ans r] obtain ops st2 st1 where log: "hd_log (fe_head s2) = hd_log (fe_head sample_writer) @ [TxOps ops]"
    and rep: "replay sample_host (hd_log (fe_head s2)) = Inr st2" and same: "st_events st2 = st_events st1"
    and fresh: "\<not> deduplicated res" and ext: "extended sample_host sample_stream sample_meta [sample_event] (ar_events res) State_default st1" by blast
  have len: "length (ar_events res) = 1" using ext unfolding extended_def by (auto dest: list_all2_lengthD)
  have "of_stream sample_host (st_events st2) sample_stream (Included 1) (Included 1) = ar_events res"
    using len same replay_inv[OF rep]
    by (intro tx_result_extended[OF state_inv_default _ ext, where ys = "[]"]) (simp_all add: State_head_def Events_head_def State_default_def)
  then have "\<exists>st2 e. replay sample_host (hd_log (fe_head s2)) = Inr st2 \<and>
      of_stream sample_host (st_events st2) sample_stream (Included 1) (Included 1) = [e]"
    using rep len by (auto simp: length_Suc_conv)
  moreover have sys: "system sample_host [s2]"
    using sys_step[OF sys_create[OF sample_writer_run(1)], of 0 s2]
      step_append[of sample_host sample_writer sample_stream NoStream "[sample_event]" sample_meta NoGuard] call by simp
  moreover have "room s2" using log by (simp add: room_def sample_writer_run no_history_def)
  moreover have "epoch_room s2" "fe_tick s2 \<le> 2"
    using run(10)[OF r] by (simp_all add: epoch_room_def sample_writer_run no_history_def)
  moreover have "s2 \<in> set [s2]" by simp
  moreover have "fe_inline s2 = []" using run(3) sample_writer_run(5) by simp
  ultimately show ?thesis
    using that[of res s2] call r fresh run(2) sample_uuid_ok sample_keys_injective unfolding serving_def by blast
qed

theorem append_stores_witness:
  "\<exists>res s2 ops. append_guarded sample_host sample_stream NoStream [sample_event] sample_meta NoGuard sample_writer = (Inr res, s2) \<and>
    hd_log (fe_head s2) = [TxOps ops] \<and> list_all2 (stored sample_stream sample_meta) [sample_event] (ar_events res)"
proof -
  obtain res s2 where run: "append_guarded sample_host sample_stream NoStream [sample_event] sample_meta NoGuard sample_writer = (Inr res, s2)"
    and fresh: "\<not> deduplicated res" by (rule sample_append_run)
  from append_stores[OF sample_writer_serving sample_writer_replay run fresh] run show ?thesis
    by (auto simp: sample_writer_run no_history_def)
qed

theorem append_retry_answers_same_witness:
  "\<exists>res s2 s3. append_guarded sample_host sample_stream NoStream [sample_event] sample_meta NoGuard sample_writer = (Inr res, s2) \<and>
    append_guarded sample_host sample_stream NoStream [sample_event] sample_meta NoGuard s2 = (Inr (res\<lparr>deduplicated := True\<rparr>), s3) \<and>
    fe_head s3 = fe_head s2"
proof -
  obtain res s2 where run: "append_guarded sample_host sample_stream NoStream [sample_event] sample_meta NoGuard sample_writer = (Inr res, s2)"
    and sv: "serving sample_host s2" by (rule sample_append_run)
  from append_retry_answers_same[OF sample_writer_serving run servingD(3)[OF sv] sample_valid, of NoStream NoGuard] run
  show ?thesis by blast
qed


end
