(* ===== verification/StoreGroup.thy ===== *)
theory StoreGroup
  imports StoreAppend
begin

text \<open>
  Append groups of the file store (\<open>group\<close>, \<open>append_atomic_group\<close> in \<open>crates/eventlog-file/src/lib.rs\<close>):
  several streams, the blobs they bind and one record, in one transaction.
\<close>

section \<open>Binding blobs leaves the log alone\<close>

definition log_kept :: "host \<Rightarrow> Transaction \<Rightarrow> Transaction \<Rightarrow> bool" where
  "log_kept h tx tx' \<longleftrightarrow> st_events (tx_state tx') = st_events (tx_state tx) \<and>
     st_next_position (tx_state tx') = st_next_position (tx_state tx) \<and>
     st_groups (tx_state tx') = st_groups (tx_state tx) \<and>
     (state_inv h (tx_state tx) \<longrightarrow> state_inv h (tx_state tx'))"

lemma preorder_log_kept: "preorder_rel (log_kept h)"
  by (simp add: preorder_rel_def log_kept_def)

lemma log_kept_same: "tx_state tx' = tx_state tx \<Longrightarrow> log_kept h tx tx'"
  by (simp add: log_kept_def)

lemma log_kept_prog [steps_intro]: "steps (log_kept h) (run_prog h v p)"
  using core_kept_prog[of h v p] unfolding steps_def core_kept_def log_kept_def core_def by blast

lemma log_kept_blob_op [steps_intro]: "steps (log_kept h) (tx_record h (OpBlob t d o1))"
  by (rule stepsI) (auto simp: tx_record_def log_kept_def state_inv_def Let_def split: option.splits)

lemma log_kept_ids [steps_intro]: "steps (log_kept h) (new_event_id h)" "steps (log_kept h) (now_utc h)"
  by (auto intro!: stepsI log_kept_same simp: new_event_id_def now_utc_def)

lemma log_kept_blob [steps_intro]: "steps (log_kept h) (tx_blob h t d)"
proof (rule stepsI)
  fix s r s'
  assume "tx_blob h t d s = (r, s')"
  then have "confined h (plain_view t) s s'" using confined_blob by (rule stepsD[rotated])
  then show "log_kept h s s'"
    using confined_core confined_inv by (auto simp: log_kept_def core_def)
qed

lemma log_kept_create [steps_intro]: "steps (log_kept h) (create_object i b)"
  by (auto intro!: stepsI log_kept_same simp: create_object_def split: if_splits)

lemma log_kept_plan [steps_intro]: "steps (log_kept h) (plan_blobs h t fresh es)"
proof (induction es arbitrary: fresh)
  case (Cons e es)
  then show ?case
    by (auto intro!: steps_intro preorder_log_kept log_kept_same split: prod.splits option.splits simp: Let_def)
qed (auto intro!: steps_intro preorder_log_kept)

lemma log_kept_bind_blobs [steps_intro]: "steps (log_kept h) (tx_bind_blobs h t blobs)"
  unfolding tx_bind_blobs_def write_object_def
  by (auto intro!: steps_intro preorder_log_kept log_kept_same split: prod.splits)

lemma log_kept_bind_blob [steps_intro]: "steps (log_kept h) (tx_bind_blob h t w)"
  unfolding tx_bind_blob_def
  by (auto intro!: steps_intro preorder_log_kept log_kept_same split: option.splits simp: Let_def)


section \<open>The members\<close>

text \<open>What the group answers for one member: the range of its stream and the events stored there.\<close>

definition member_stored :: "CommandMeta \<Rightarrow> StreamAppend \<Rightarrow> GroupRange \<times> AppendResult \<Rightarrow> bool" where
  "member_stored meta m r \<longleftrightarrow> gr_stream (fst r) = sa_stream m \<and>
     gr_first (fst r) = first_version (snd r) \<and> gr_last (fst r) = last_version (snd r) \<and>
     list_all2 (stored (sa_stream m) meta) (sa_events m) (ar_events (snd r)) \<and> \<not> deduplicated (snd r)"

definition reads_back :: "host \<Rightarrow> State \<Rightarrow> GroupRange \<times> AppendResult \<Rightarrow> bool" where
  "reads_back h st r \<longleftrightarrow> tx_result h st (fst r) True = (snd r)\<lparr>deduplicated := True\<rparr>"

lemma members_run:
  assumes "c_map (tx_member h meta) entries tx = (Inr rs, tx')" and "state_inv h (tx_state tx)"
  shows "list_all2 (member_stored meta) entries rs \<and> state_inv h (tx_state tx') \<and>
    Events_values (st_events (tx_state tx')) = Events_values (st_events (tx_state tx)) @ concat (map (ar_events \<circ> snd) rs) \<and>
    (\<forall>st ys. state_inv h st \<longrightarrow> Events_values (st_events st) = Events_values (st_events (tx_state tx')) @ ys \<longrightarrow>
      list_all (reads_back h st) rs)"
  using assms
proof (induction entries arbitrary: tx rs)
  case Nil
  then show ?case by (simp add: cmd_simps)
next
  case (Cons e es)
  from Cons.prems(1) obtain r rs' tx1 where one: "tx_member h meta e tx = (Inr r, tx1)"
    and more: "c_map (tx_member h meta) es tx1 = (Inr rs', tx')" and rs: "rs = r # rs'"
    by (auto simp: c_bind_Inr_iff c_return_run)
  from one obtain res where app: "tx_append h (sa_stream e) (sa_expected e) (sa_events e) meta tx = (Inr res, tx1)"
    and r: "r = (\<lparr>gr_stream = sa_stream e, gr_first = first_version res, gr_last = last_version res\<rparr>, res)"
    by (auto simp: tx_member_def c_bind_Inr_iff c_return_run)
  note a = tx_append_run[OF app Cons.prems(2)]
  then have ext: "extended h (sa_stream e) meta (sa_events e) (ar_events res) (tx_state tx) (tx_state tx1)"
    and inv1: "state_inv h (tx_state tx1)" by blast+
  note b = Cons.IH[OF more inv1]
  have len: "length (ar_events res) = length (sa_events e)" using ext unfolding extended_def by (auto dest: list_all2_lengthD)
  have "member_stored meta e r" using ext a by (simp add: member_stored_def r extended_def)
  moreover have "reads_back h st r" if "state_inv h st" "Events_values (st_events st) = Events_values (st_events (tx_state tx')) @ ys" for st ys
  proof -
    have "of_stream h (st_events st) (sa_stream e) (Included (first_version res)) (Included (last_version res)) = ar_events res"
      using a b that len by (intro tx_result_extended[OF Cons.prems(2) that(1) ext, where ys = "concat (map (ar_events \<circ> snd) rs') @ ys"]) (simp_all add: comp_def)
    then show ?thesis by (simp add: reads_back_def r tx_result_def)
  qed
  moreover have "Events_values (st_events (tx_state tx1)) = Events_values (st_events (tx_state tx)) @ ar_events res"
    using ext by (simp add: extended_def)
  ultimately show ?case using b by (auto simp: rs r)
qed


section \<open>The group\<close>

text \<open>A group that is not recorded yet: what it stores and what it records for a retry.\<close>

lemma tx_members_run:
  assumes run: "tx_members h g dg blobs tx = (Inr res, tx')" and inv: "state_inv h (tx_state tx)"
  shows "\<exists>rs. list_all2 (member_stored (ag_meta g)) (ag_appends g) rs \<and>
      res = \<lparr>agr_appends = map snd rs, agr_deduplicated = False\<rparr> \<and>
      Events_values (st_events (tx_state tx')) = Events_values (st_events (tx_state tx)) @ concat (map ar_events (agr_appends res)) \<and>
      bt_get (st_groups (tx_state tx')) (group_key h g) = Some (dg, map fst rs, blobs) \<and>
      map (\<lambda>r. tx_result h (tx_state tx') (fst r) True) rs = map (\<lambda>r. (snd r)\<lparr>deduplicated := True\<rparr>) rs \<and>
      tx_pending tx' \<noteq> []"
proof -
  from run obtain rs tx1 where mem: "c_map (tx_member h (ag_meta g)) (ag_appends g) tx = (Inr rs, tx1)"
    and rec: "tx_record h (OpGroup (ag_tenant g) (idempotency_key (ag_meta g)) dg (map fst rs) blobs) tx1 = (Inr (), tx')"
    and res: "res = \<lparr>agr_appends = map snd rs, agr_deduplicated = False\<rparr>"
    unfolding tx_members_def by (auto simp: c_bind_Inr_iff c_return_run)
  note m = members_run[OF mem inv]
  have tx': "tx_state tx' = (tx_state tx1)\<lparr>st_groups := bt_insert (group_key h g) (dg, map fst rs, blobs) (st_groups (tx_state tx1))\<rparr>"
    "tx_pending tx' \<noteq> []"
    using rec by (auto simp: tx_record_Inr group_key_def)
  have "state_inv h (tx_state tx')" using m tx' by (auto simp: state_inv_def)
  then have "list_all (reads_back h (tx_state tx')) rs" using m tx'(1) by auto
  then have "map (\<lambda>r. tx_result h (tx_state tx') (fst r) True) rs = map (\<lambda>r. (snd r)\<lparr>deduplicated := True\<rparr>) rs"
    by (simp add: list_all_iff reads_back_def)
  then show ?thesis using m res tx' by (intro exI[of _ rs]) (simp add: bt_simps comp_def)
qed

lemma tx_group_fresh_run:
  assumes run: "tx_group h g dg guard blobs tx = (Inr res, tx')" and inv: "state_inv h (tx_state tx)"
    and fresh: "bt_get (st_groups (tx_state tx)) (group_key h g) = None"
  shows "\<exists>rs. list_all2 (member_stored (ag_meta g)) (ag_appends g) rs \<and>
      res = \<lparr>agr_appends = map snd rs, agr_deduplicated = False\<rparr> \<and>
      Events_values (st_events (tx_state tx')) = Events_values (st_events (tx_state tx)) @ concat (map ar_events (agr_appends res)) \<and>
      bt_get (st_groups (tx_state tx')) (group_key h g) = Some (dg, map fst rs, batch (map fst blobs)) \<and>
      map (\<lambda>r. tx_result h (tx_state tx') (fst r) True) rs = map (\<lambda>r. (snd r)\<lparr>deduplicated := True\<rparr>) rs \<and>
      tx_pending tx' \<noteq> []"
proof -
  from run fresh obtain tx1 tx2 where "run_prog h (guard_view (ag_tenant g)) guard tx = (Inr (), tx1)"
    and "tx_bind_blobs h (ag_tenant g) blobs tx1 = (Inr (), tx2)"
    and mem: "tx_members h g dg (batch (map fst blobs)) tx2 = (Inr res, tx')"
    unfolding tx_group_def by (auto simp: c_get_run c_bind_Inr_iff)
  then have "log_kept h tx tx1" "log_kept h tx1 tx2"
    using log_kept_prog log_kept_bind_blobs by (blast intro: stepsD)+
  then have "state_inv h (tx_state tx2)" "st_events (tx_state tx2) = st_events (tx_state tx)"
    using inv by (simp_all add: log_kept_def)
  with tx_members_run[OF mem] show ?thesis by metis
qed

lemma tx_group_known_run:
  assumes run: "tx_group h g dg guard blobs tx = (r, tx')"
    and known: "bt_get (st_groups (tx_state tx)) (group_key h g) = Some (old, ranges, bound1)"
  shows "st_events (tx_state tx') = st_events (tx_state tx)"
    and "blobs = [] \<Longrightarrow> old = dg \<Longrightarrow> r = Inr \<lparr>agr_appends = map (\<lambda>r. tx_result h (tx_state tx) r True) ranges, agr_deduplicated = True\<rparr> \<and> tx' = tx"
    and "blobs = [] \<Longrightarrow> old \<noteq> dg \<Longrightarrow> blob_fingerprint h g [] \<noteq> Some old \<Longrightarrow> r = Inl (IdempotencyMismatch (idempotency_key (ag_meta g)))"
    and "r = Inr res \<Longrightarrow> agr_deduplicated res"
proof -
  have keep: "steps (log_kept h) (c_bind (if blobs \<noteq> [] then run_prog h (guard_view (ag_tenant g)) guard else c_return ()) (\<lambda>_.
           if old \<noteq> dg \<and> blob_fingerprint h g blobs = Some old then group_answer h ranges
           else if old \<noteq> dg then c_fail (IdempotencyMismatch (idempotency_key (ag_meta g)))
           else c_bind (tx_verify_batch h (ag_tenant g) blobs bound1 (idempotency_key (ag_meta g)))
                  (\<lambda>_. group_answer h ranges)))"
    unfolding tx_verify_batch_def group_answer_def
    by (auto intro!: steps_intro preorder_log_kept split: option.splits prod.splits)
  have "log_kept h tx tx'" using run known by (intro stepsD[OF keep, of _ r]) (simp add: tx_group_def c_get_run)
  then show "st_events (tx_state tx') = st_events (tx_state tx)" by (simp add: log_kept_def)
  show "r = Inr \<lparr>agr_appends = map (\<lambda>r. tx_result h (tx_state tx) r True) ranges, agr_deduplicated = True\<rparr> \<and> tx' = tx"
    if "blobs = []" "old = dg"
    using run known that by (auto simp: tx_group_def cmd_simps group_answer_def tx_verify_batch_def)
  show "r = Inl (IdempotencyMismatch (idempotency_key (ag_meta g)))" if "blobs = []" "old \<noteq> dg" "blob_fingerprint h g [] \<noteq> Some old"
    using run known that by (auto simp: tx_group_def cmd_simps)
  show "agr_deduplicated res" if "r = Inr res"
    using run known that by (auto simp: tx_group_def c_get_run c_bind_Inr_iff group_answer_def c_return_run c_fail_run split: if_splits)
qed


section \<open>Claims\<close>

lemma group_run:
  assumes "serving h s" and tenant: "is_ok (TenantId_new (ag_tenant g))" and fp: "group_fingerprint h g = Inr dg"
    and rep: "replay h (hd_log (fe_head s)) = Inr st"
    and call: "append_group_guarded_with_blobs h g guard blobs s = (r, s2)"
  obtains tx tx1 where "tx_group h g dg guard blobs tx = (r, tx1)" and "tx_state tx = st" and "state_inv h (tx_state tx)"
    and "store_inv h s2" and "\<not> astray s2" and "fe_inline s2 = fe_inline s"
    and "case r of Inl _ \<Rightarrow> fe_head s2 = fe_head s | Inr _ \<Rightarrow> replay h (hd_log (fe_head s2)) = Inr (tx_state tx1) \<and>
      fe_head s2 = (fe_head s)\<lparr>hd_log := hd_log (fe_head s) @ (if tx_pending tx1 = [] then [] else [TxOps (pending_ops tx1)])\<rparr>"
    and "tx_pending tx = []" and "tx_inline tx = fe_inline s"
proof -
  let ?s = "s\<lparr>fe_frozen := True\<rparr>" and ?w = "tx_group h g dg guard blobs"
  note sv = servingD[OF assms(1)]
  have inv': "store_inv h ?s" using sv by (simp add: inv_frozen)
  have here': "\<not> astray ?s" "room ?s" using sv by (simp_all add: frozen_handle)
  obtain tx r' tx1 s2' where t: "entry h ?s tx" and w: "?w tx = (r', tx1)" and run: "transact h ?w ?s = (r', s2')"
    and s2': "store_inv h s2'" "\<not> astray s2'" "case r' of Inl _ \<Rightarrow> refused ?s tx s2' | Inr _ \<Rightarrow> good h tx tx1 \<and> commits h ?s tx1 s2'"
    by (rule transact_run[OF inv' here' ordinary_tame[OF ordinary_works(2)[OF sv(4) sv(4) tenant]]]) blast
  have same: "r' = r" "s2' = s2"
    using call run fp by (simp_all add: append_group_guarded_with_blobs_def cmd_simps freeze_def)
  have st: "tx_state tx = st" by (rule entry_state[OF t]) (simp add: rep)
  show ?thesis
  proof (rule that[of tx tx1])
    show "tx_group h g dg guard blobs tx = (r, tx1)" using w same by simp
    show "state_inv h (tx_state tx)" using replay_inv[OF rep] by (simp add: st)
    show "store_inv h s2" "\<not> astray s2" using s2' same by simp_all
    show "fe_inline s2 = fe_inline s" using s2'(3) same by (cases r) (simp_all add: refused_def commits_def same_handle_def)
    show "tx_pending tx = []" "tx_inline tx = fe_inline s" using t by (simp_all add: entry_def)
    show "case r of Inl _ \<Rightarrow> fe_head s2 = fe_head s | Inr _ \<Rightarrow> replay h (hd_log (fe_head s2)) = Inr (tx_state tx1) \<and>
      fe_head s2 = (fe_head s)\<lparr>hd_log := hd_log (fe_head s) @ (if tx_pending tx1 = [] then [] else [TxOps (pending_ops tx1)])\<rparr>"
    proof (cases r)
      case Inl
      then show ?thesis using s2'(3) same by (simp add: refused_def)
    next
      case (Inr res)
      then have c: "commits h ?s tx1 s2" using s2'(3) same by simp
      then have "fe_head s2 = (fe_head s)\<lparr>hd_log := hd_log (fe_head s) @ (if tx_pending tx1 = [] then [] else [TxOps (pending_ops tx1)])\<rparr>"
        by (simp add: commits_def)
      then show ?thesis unfolding Inr sum.case using commits_log[OF c] by blast
    qed
  qed (fact st)
qed

lemma group_fingerprint_needed:
  "append_group_guarded_with_blobs h g guard blobs s = (Inr res, s2) \<Longrightarrow> \<exists>dg. group_fingerprint h g = Inr dg"
  by (cases "group_fingerprint h g") (simp_all add: append_group_guarded_with_blobs_def cmd_simps)


text \<open>
  C6. Retrying a group is safe: once a group was answered, the same group answers the same ranges and
  events marked as deduplicated, with no second admission, and leaves the history as it is.
\<close>

theorem group_retry_answers_same:
  assumes "serving h s" and "is_ok (TenantId_new (ag_tenant g))" and "append_group_guarded h g guard s = (Inr res, s2)"
    and "serving h s2"
  shows "\<exists>s3. append_group_guarded h g guard' s2 =
      (Inr \<lparr>agr_appends = map (\<lambda>a. a\<lparr>deduplicated := True\<rparr>) (agr_appends res), agr_deduplicated = True\<rparr>, s3) \<and>
    fe_head s3 = fe_head s2"
proof -
  note call = assms(3)[unfolded append_group_guarded_def]
  obtain dg where fp: "group_fingerprint h g = Inr dg" using group_fingerprint_needed[OF call] by blast
  obtain st where st: "replay h (hd_log (fe_head s)) = Inr st" using servingD(6)[OF assms(1)] by blast
  obtain tx tx1 where w: "tx_group h g dg guard [] tx = (Inr res, tx1)" and inv: "state_inv h (tx_state tx)"
    and "case (Inr res :: AppendGroupResult res) of Inl _ \<Rightarrow> fe_head s2 = fe_head s | Inr _ \<Rightarrow> replay h (hd_log (fe_head s2)) = Inr (tx_state tx1) \<and>
      fe_head s2 = (fe_head s)\<lparr>hd_log := hd_log (fe_head s) @ (if tx_pending tx1 = [] then [] else [TxOps (pending_ops tx1)])\<rparr>"
    by (rule group_run[OF assms(1,2) fp st call]) blast
  then have s2: "replay h (hd_log (fe_head s2)) = Inr (tx_state tx1)" unfolding sum.case by blast
  have ans: "\<exists>old ranges bound1. bt_get (st_groups (tx_state tx1)) (group_key h g) = Some (old, ranges, bound1) \<and>
      (old = dg \<or> blob_fingerprint h g [] = Some old) \<and>
      map (\<lambda>r. tx_result h (tx_state tx1) r True) ranges = map (\<lambda>a. a\<lparr>deduplicated := True\<rparr>) (agr_appends res)"
  proof (cases "bt_get (st_groups (tx_state tx)) (group_key h g)")
    case None
    from tx_group_fresh_run[OF w inv None] obtain rs where "res = \<lparr>agr_appends = map snd rs, agr_deduplicated = False\<rparr>"
      "bt_get (st_groups (tx_state tx1)) (group_key h g) = Some (dg, map fst rs, batch (map fst ([] :: (string \<times> bytes) list)))"
      "map (\<lambda>r. tx_result h (tx_state tx1) (fst r) True) rs = map (\<lambda>r. (snd r)\<lparr>deduplicated := True\<rparr>) rs" by blast
    then show ?thesis by (simp add: comp_def)
  next
    case (Some known)
    obtain old ranges bound1 where k: "known = (old, ranges, bound1)" by (cases known)
    have "tx1 = tx \<and> (old = dg \<or> blob_fingerprint h g [] = Some old) \<and> agr_appends res = map (\<lambda>r. tx_result h (tx_state tx) r True) ranges"
      using w Some k by (auto simp: tx_group_def cmd_simps group_answer_def tx_verify_batch_def split: if_splits)
    then show ?thesis using Some k by (simp add: tx_result_def comp_def)
  qed
  then obtain old ranges bound1 where known: "bt_get (st_groups (tx_state tx1)) (group_key h g) = Some (old, ranges, bound1)"
    and old: "old = dg \<or> blob_fingerprint h g [] = Some old"
    and same: "map (\<lambda>r. tx_result h (tx_state tx1) r True) ranges = map (\<lambda>a. a\<lparr>deduplicated := True\<rparr>) (agr_appends res)" by blast
  obtain r s3 where call3: "append_group_guarded_with_blobs h g guard' [] s2 = (r, s3)"
    by (cases "append_group_guarded_with_blobs h g guard' [] s2")
  obtain tx2 tx3 where w3: "tx_group h g dg guard' [] tx2 = (r, tx3)" and st2: "tx_state tx2 = tx_state tx1" and pend: "tx_pending tx2 = []"
    and s3: "case r of Inl _ \<Rightarrow> fe_head s3 = fe_head s2 | Inr _ \<Rightarrow> replay h (hd_log (fe_head s3)) = Inr (tx_state tx3) \<and>
      fe_head s3 = (fe_head s2)\<lparr>hd_log := hd_log (fe_head s2) @ (if tx_pending tx3 = [] then [] else [TxOps (pending_ops tx3)])\<rparr>"
    by (rule group_run[OF assms(4,2) fp s2 call3]) blast
  have "r = Inr \<lparr>agr_appends = map (\<lambda>r. tx_result h (tx_state tx2) r True) ranges, agr_deduplicated = True\<rparr> \<and> tx3 = tx2"
    using w3 known old st2 by (auto simp: tx_group_def cmd_simps group_answer_def tx_verify_batch_def split: if_splits)
  then show ?thesis using s3 pend st2 same call3 by (simp add: append_group_guarded_def)
qed


subsection \<open>A concrete group\<close>

lemma sample_tenant: "is_ok (TenantId_new (ag_tenant sample_group))"
  by code_simp

lemma sample_fingerprint: "\<exists>dg. group_fingerprint sample_host sample_group = Inr dg"
proof -
  have "cm_claim (ag_meta sample_group) = None" "ag_appends sample_group \<noteq> []" by (simp_all add: sample_group_def sample_meta_def)
  then show ?thesis using sample_group_checked by (auto simp: group_fingerprint_def request_hash_of_def)
qed

lemma sample_group_tx:
  assumes "tx_state tx = State_default" and "tx_inline tx = []"
  shows "\<exists>res tx'. tx_group sample_host sample_group dg NoGuard [] tx = (Inr res, tx')"
proof -
  let ?tx = "tx\<lparr>tx_binds := True\<rparr>"
  have "field_ok (sid_type sample_stream)" "field_ok (sid_id sample_stream)"
    using sample_stream_valid by (auto simp: is_ok_def StreamId_new_iff split: sum.splits)
  then obtain res tx1 where "tx_append sample_host sample_stream NoStream [sample_event] sample_meta ?tx = (Inr res, tx1)"
    using tx_append_total[of sample_host ?tx sample_stream "[sample_event]" NoStream sample_meta] assms state_inv_default
    by (auto simp: State_default_def check_head_def wanted_head_def State_head_def Events_head_def)
  then have mem: "c_map (tx_member sample_host sample_meta) (ag_appends sample_group) ?tx =
      (Inr [(\<lparr>gr_stream = sample_stream, gr_first = first_version res, gr_last = last_version res\<rparr>, res)], tx1)"
    by (simp add: sample_group_def cmd_simps tx_member_def)
  have "bt_get (st_groups (tx_state tx)) (group_key sample_host sample_group) = None"
    using assms by (simp add: State_default_def)
  moreover have "ag_meta sample_group = sample_meta" by (simp add: sample_group_def)
  ultimately show ?thesis
    using mem by (simp add: tx_group_def cmd_simps NoGuard_def tx_bind_blobs_def tx_members_def tx_record_def)
qed

lemma sample_group_run:
  obtains res s2 where "append_group_guarded_with_blobs sample_host sample_group NoGuard [] sample_writer = (Inr res, s2)"
    and "serving sample_host s2"
proof -
  obtain dg where fp: "group_fingerprint sample_host sample_group = Inr dg" using sample_fingerprint by blast
  obtain r s2 where call: "append_group_guarded_with_blobs sample_host sample_group NoGuard [] sample_writer = (r, s2)"
    by (cases "append_group_guarded_with_blobs sample_host sample_group NoGuard [] sample_writer")
  obtain tx tx1 where w: "tx_group sample_host sample_group dg NoGuard [] tx = (r, tx1)" and st: "tx_state tx = State_default"
    and inl: "tx_inline tx = fe_inline sample_writer" and s2: "\<not> astray s2"
    and head: "case r of Inl _ \<Rightarrow> fe_head s2 = fe_head sample_writer | Inr _ \<Rightarrow> replay sample_host (hd_log (fe_head s2)) = Inr (tx_state tx1) \<and>
      fe_head s2 = (fe_head sample_writer)\<lparr>hd_log := hd_log (fe_head sample_writer) @ (if tx_pending tx1 = [] then [] else [TxOps (pending_ops tx1)])\<rparr>"
    by (rule group_run[OF sample_writer_serving sample_tenant fp sample_writer_replay call]) blast
  obtain res where r: "r = Inr res"
    using sample_group_tx[OF st, of dg] w inl by (auto simp: sample_writer_run)
  have "length (hd_log (fe_head s2)) \<le> 1" using head by (simp add: r sample_writer_run no_history_def)
  then have "room s2" by (simp add: room_def)
  moreover have "system sample_host [s2]"
    using sys_step[OF sys_create[OF sample_writer_run(1)], of 0 s2] step_group[OF sample_tenant, of sample_host sample_writer NoGuard "[]"] call
    by simp
  ultimately have "serving sample_host s2"
    using s2 sample_uuid_ok sample_keys_injective by (auto simp: serving_def intro!: exI[of _ "[s2]"])
  then show ?thesis using that call r by blast
qed


theorem group_retry_answers_same_witness:
  "\<exists>res s2 s3. append_group_guarded sample_host sample_group NoGuard sample_writer = (Inr res, s2) \<and>
    append_group_guarded sample_host sample_group NoGuard s2 =
      (Inr \<lparr>agr_appends = map (\<lambda>a. a\<lparr>deduplicated := True\<rparr>) (agr_appends res), agr_deduplicated = True\<rparr>, s3)"
proof -
  obtain res s2 where "append_group_guarded_with_blobs sample_host sample_group NoGuard [] sample_writer = (Inr res, s2)"
    and sv: "serving sample_host s2" by (rule sample_group_run)
  then have run: "append_group_guarded sample_host sample_group NoGuard sample_writer = (Inr res, s2)"
    by (simp add: append_group_guarded_def)
  from group_retry_answers_same[OF sample_writer_serving sample_tenant run sv] run show ?thesis by blast
qed

end
