(* ===== verification/StoreContent.thy ===== *)
theory StoreContent
  imports StoreAppend
begin

text \<open>
  Blobs and snapshots of the file store, and what erasing does to them (\<open>put_blob\<close>, \<open>get_blob\<close>,
  \<open>delete_blob\<close>, \<open>save_snapshot_checked\<close>, \<open>load_snapshot\<close>, \<open>redact\<close> and \<open>forget_tenant\<close> in
  \<open>crates/eventlog-file/src/lib.rs\<close>).
\<close>

section \<open>One call of a handle\<close>

lemma transact_call:
  assumes "store_inv h s" and "\<not> astray s" and "room s" and "ordinary h work" and "transact h work s = (r, s2)"
  shows "\<exists>tx tx1. entry h s tx \<and> work tx = (r, tx1) \<and> store_inv h s2 \<and> \<not> astray s2 \<and>
    (case r of Inl _ \<Rightarrow> refused s tx s2 | Inr _ \<Rightarrow> good h tx tx1 \<and> commits h s tx1 s2)"
  by (rule transact_run[OF assms(1-3) ordinary_tame[OF assms(4)]]) (use assms(5) in auto)

lemma read_only_call:
  assumes "store_inv h s" and "\<not> astray s" and "room s" and "ordinary h work"
    and "\<And>tx. entry h s tx \<Longrightarrow> \<exists>c. work tx = (Inr (f tx), tx\<lparr>tx_content := c\<rparr>)"
  shows "\<exists>tx s2. entry h s tx \<and> transact h work s = (Inr (f tx), s2) \<and> fe_head s2 = fe_head s"
proof -
  obtain r s2 where call: "transact h work s = (r, s2)" by (cases "transact h work s")
  from transact_call[OF assms(1-4) call] obtain tx tx1 where tx: "entry h s tx" "work tx = (r, tx1)"
    and c: "case r of Inl _ \<Rightarrow> refused s tx s2 | Inr _ \<Rightarrow> good h tx tx1 \<and> commits h s tx1 s2" by blast
  obtain d where "work tx = (Inr (f tx), tx\<lparr>tx_content := d\<rparr>)" using assms(5)[OF tx(1)] by blast
  then have r: "r = Inr (f tx)" "tx1 = tx\<lparr>tx_content := d\<rparr>" using tx(2) by simp_all
  have "tx_pending tx = []" using tx(1) by (simp add: entry_def)
  then have "fe_head s2 = fe_head s" using c r by (simp add: commits_def)
  then show ?thesis using tx call r by blast
qed


section \<open>Blobs\<close>

text \<open>The bytes a binding names.\<close>

definition bound_bytes :: "(string, bytes) btree \<Rightarrow> State \<Rightarrow> TenantId \<Rightarrow> string \<Rightarrow> bytes option" where
  "bound_bytes objects st t d = Option.bind (bt_get (st_blobs st) (t, d)) (\<lambda>b. bt_get objects (blob_id b))"

lemma tx_blob_live:
  assumes live: "live h tx" and "\<not> lock_poisoned (tx_content tx)"
  shows "\<exists>c. tx_blob h t d tx = (Inr (bound_bytes (tx_objects tx) (tx_state tx) t d), tx\<lparr>tx_content := c\<rparr>) \<and>
    \<not> lock_poisoned c"
proof (cases "bt_get (st_blobs (tx_state tx)) (t, d)")
  case None
  then show ?thesis using assms(2) by (auto simp: tx_blob_def tx_object_def bound_bytes_def intro: exI[of _ "tx_content tx"])
next
  case (Some b)
  then have "((t, d), b) \<in> set (st_blobs (tx_state tx))" by (rule bt_get_SomeD)
  then obtain c where c: "validate_object (blob_id b) = Inr ()" "bt_get (tx_objects tx) (blob_id b) = Some c"
    "blob_integrity_sha256 h c = blob_hash b" using live by (auto simp: live_def)
  have "\<exists>m. check_recorded [] [] c (blob_hash b) (\<lambda>x. blob_integrity_sha256 h x = blob_hash b) (tx_content tx) = (Inr True, m) \<and>
      \<not> lock_poisoned m"
    using assms(2) c(3)
    by (auto simp: check_recorded_def look_up_def count_full_check_def settle_def vc_insert_def Let_def)
  then show ?thesis using Some c by (auto simp: tx_blob_def tx_object_def bound_bytes_def Let_def)
qed

lemma plan_one:
  assumes "live h tx" and "\<not> lock_poisoned (tx_content tx)" and "validate_field ''blob digest'' d = Inr ()"
  shows "case bound_bytes (tx_objects tx) (tx_state tx) t d of
      Some c \<Rightarrow> \<exists>m. plan_blobs h t [] [(d, b)] tx = (if c = b then Inr [] else Inl different_content, tx\<lparr>tx_content := m\<rparr>) \<and> \<not> lock_poisoned m
    | None \<Rightarrow> \<exists>m. plan_blobs h t [] [(d, b)] tx =
        (Inr [(\<lparr>blob_id = uuid_at h (tx_tick tx), blob_hash = blob_integrity_sha256 h b\<rparr>, d, b)],
         tx\<lparr>tx_tick := Suc (tx_tick tx), tx_content := m\<rparr>) \<and> \<not> lock_poisoned m"
proof -
  obtain c where "tx_blob h t d tx = (Inr (bound_bytes (tx_objects tx) (tx_state tx) t d), tx\<lparr>tx_content := c\<rparr>)"
    and "\<not> lock_poisoned c"
    using tx_blob_live[OF assms(1,2), of t d] by blast
  then show ?thesis
    using assms(3) by (auto simp: cmd_simps new_event_id_def Let_def remember_def vc_insert_def split: option.splits)
qed

lemma bind_one:
  assumes "live h tx" and "\<not> lock_poisoned (tx_content tx)" and run: "tx_bind_blobs h t [(d, b)] tx = (r, tx')"
  shows "r = Inr () \<Longrightarrow> bound_bytes (tx_objects tx') (tx_state tx') t d = Some b \<and> \<not> lock_poisoned (tx_content tx')"
    and "validate_field ''blob digest'' d = Inr () \<Longrightarrow> bound_bytes (tx_objects tx) (tx_state tx) t d = Some c \<Longrightarrow> c \<noteq> b \<Longrightarrow>
      r = Inl different_content"
proof -
  let ?tx = "tx\<lparr>tx_binds := True\<rparr>"
  have live: "live h ?tx" "\<not> lock_poisoned (tx_content ?tx)" using assms(1,2) by (simp_all add: live_def)
  have run': "c_bind (plan_blobs h t [] [(d, b)]) (\<lambda>fresh. if fresh = [] then c_return ()
       else c_bind (c_each write_object fresh) (\<lambda>_.
            c_each (\<lambda>(object, d, _). tx_record h (OpBlob t d (Some object))) fresh)) ?tx = (r, tx')"
    using run by (simp add: tx_bind_blobs_def cmd_simps del: plan_blobs.simps)
  show "bound_bytes (tx_objects tx') (tx_state tx') t d = Some b \<and> \<not> lock_poisoned (tx_content tx')" if r: "r = Inr ()"
  proof -
    have v: "validate_field ''blob digest'' d = Inr ()"
      using run' r by (cases "validate_field ''blob digest'' d") (simp_all add: cmd_simps)
    note plan = plan_one[OF live v, of t b]
    show ?thesis
    proof (cases "bound_bytes (tx_objects ?tx) (tx_state ?tx) t d")
      case (Some c)
      then obtain m where "plan_blobs h t [] [(d, b)] ?tx = (if c = b then Inr [] else Inl different_content, ?tx\<lparr>tx_content := m\<rparr>)"
        "\<not> lock_poisoned m" using plan by auto
      then have "c = b" "tx' = ?tx\<lparr>tx_content := m\<rparr>" "\<not> lock_poisoned m"
        using run' r by (auto simp: c_bind_run c_return_run split: if_splits)
      then show ?thesis using Some by simp
    next
      case None
      let ?o = "\<lparr>blob_id = uuid_at h (tx_tick tx), blob_hash = blob_integrity_sha256 h b\<rparr>"
      from None obtain m where "plan_blobs h t [] [(d, b)] ?tx = (Inr [(?o, d, b)], ?tx\<lparr>tx_tick := Suc (tx_tick tx), tx_content := m\<rparr>)"
        "\<not> lock_poisoned m" using plan by auto
      then have "st_blobs (tx_state tx') = bt_insert (t, d) ?o (st_blobs (tx_state tx))"
        "tx_objects tx' = bt_insert (blob_id ?o) b (tx_objects tx)" "tx_content tx' = m"
        using run' r by (auto simp: c_bind_run c_return_run cmd_simps write_object_run tx_record_def Let_def split: if_splits)
      then show ?thesis using \<open>\<not> lock_poisoned m\<close> by (simp add: bound_bytes_def bt_simps)
    qed
  qed
  show "r = Inl different_content"
    if v: "validate_field ''blob digest'' d = Inr ()" and c: "bound_bytes (tx_objects tx) (tx_state tx) t d = Some c" "c \<noteq> b"
  proof -
    have "\<exists>m. plan_blobs h t [] [(d, b)] ?tx = (Inl different_content, ?tx\<lparr>tx_content := m\<rparr>)"
      using plan_one[OF live v, of t b] c by auto
    then show ?thesis using run' by (auto simp: c_bind_run)
  qed
qed

lemma entry_live: "entry h s tx \<Longrightarrow> live h tx"
  by (simp add: entry_def history_ok_def live_live_at)

text \<open>What a handle reads for a binding is what the directory holds for it.\<close>

lemma entry_bound:
  assumes "entry h s tx" and "replay h (hd_log (fe_head s)) = Inr st"
  shows "bound_bytes (tx_objects tx) (tx_state tx) t d = bound_bytes (fe_objects s) st t d"
proof -
  have st: "tx_state tx = st" using assms by (rule entry_state)
  show ?thesis
  proof (cases "bt_get (st_blobs st) (t, d)")
    case (Some b)
    then have "((t, d), b) \<in> set (st_blobs (tx_state tx))" using st by (simp add: bt_get_SomeD)
    then obtain c where "bt_get (tx_objects tx) (blob_id b) = Some c" using entry_live[OF assms(1)] by (auto simp: live_def)
    moreover from this have "bt_get (fe_objects s) (blob_id b) = Some c" using assms(1) by (auto simp: entry_def finds_def)
    ultimately show ?thesis using Some st by (simp add: bound_bytes_def)
  qed (simp add: bound_bytes_def st)
qed

lemma get_blob_run:
  assumes "store_inv h s" and "\<not> astray s" and "room s" and "replay h (hd_log (fe_head s)) = Inr st"
    and "\<not> lock_poisoned (fe_content s)"
  shows "\<exists>s2. get_blob h t d s = (Inr (bound_bytes (fe_objects s) st t d), s2) \<and> fe_head s2 = fe_head s"
proof -
  have "\<exists>tx s2. entry h s tx \<and> transact h (tx_blob h t d) s = (Inr (bound_bytes (tx_objects tx) (tx_state tx) t d), s2) \<and> fe_head s2 = fe_head s"
  proof (rule read_only_call[OF assms(1-3) ordinary_works(5)])
    fix tx
    assume t: "entry h s tx"
    then have "\<not> lock_poisoned (tx_content tx)" using assms(5) by (simp add: entry_def)
    then show "\<exists>c. tx_blob h t d tx = (Inr (bound_bytes (tx_objects tx) (tx_state tx) t d), tx\<lparr>tx_content := c\<rparr>)"
      using tx_blob_live[OF entry_live[OF t]] by blast
  qed
  then show ?thesis using entry_bound[OF _ assms(4)] by (auto simp: get_blob_def)
qed

text \<open>
  C29. A blob that was put is read back, byte for byte, and its digest keeps naming those bytes: a put
  of other bytes under it is refused and changes nothing.
\<close>

theorem blob_roundtrip:
  assumes "serving h s" and "\<not> lock_poisoned (fe_content s)" and "is_ok (TenantId_new t)"
    and "put_blob h t d b s = (Inr (), s2)" and "room s2"
  shows "(\<exists>s3. get_blob h t d s2 = (Inr (Some b), s3)) \<and>
    (\<forall>b'. b' \<noteq> b \<longrightarrow> (\<exists>s3. put_blob h t d b' s2 = (Inl different_content, s3) \<and> fe_head s3 = fe_head s2))"
proof -
  note sv = servingD[OF assms(1)]
  have ord: "ordinary h (tx_bind_blobs h t bs)" for bs by (rule ordinary_works(4)[OF sv(4) sv(4) assms(3)])
  from transact_call[OF sv(1-3) ord assms(4)[unfolded put_blob_def]] obtain tx tx1 where t: "entry h s tx"
    and w: "tx_bind_blobs h t [(d, b)] tx = (Inr (), tx1)" and s2: "store_inv h s2" "\<not> astray s2" and com: "commits h s tx1 s2" by auto
  have np: "\<not> lock_poisoned (tx_content tx)" using assms(2) t by (simp add: entry_def)
  note one = bind_one(1)[OF entry_live[OF t] np w refl]
  have rep: "replay h (hd_log (fe_head s2)) = Inr (tx_state tx1)" using commits_log[OF com] by blast
  have np2: "\<not> lock_poisoned (fe_content s2)" using com one by (simp add: commits_def)
  obtain o1 where o1: "bt_get (st_blobs (tx_state tx1)) (t, d) = Some o1" "bt_get (tx_objects tx1) (blob_id o1) = Some b"
    using one by (auto simp: bound_bytes_def bind_eq_Some_conv)
  then have "blob_id o1 \<in> blob_ids tx1" by (force simp: blob_ids_def dest: bt_get_SomeD)
  then have "bt_get (fe_objects s2) (blob_id o1) = Some b" using com o1 by (simp add: commits_def)
  then have here: "bound_bytes (fe_objects s2) (tx_state tx1) t d = Some b" using o1 by (simp add: bound_bytes_def)
  have v: "validate_field ''blob digest'' d = Inr ()"
    using w by (cases "validate_field ''blob digest'' d") (simp_all add: tx_bind_blobs_def cmd_simps)
  have "\<exists>s3. put_blob h t d b' s2 = (Inl different_content, s3) \<and> fe_head s3 = fe_head s2" if "b' \<noteq> b" for b'
  proof -
    obtain r s3 where call: "put_blob h t d b' s2 = (r, s3)" by (cases "put_blob h t d b' s2")
    from transact_call[OF s2 assms(5) ord call[unfolded put_blob_def]] obtain tx2 tx3 where t2: "entry h s2 tx2"
      and w2: "tx_bind_blobs h t [(d, b')] tx2 = (r, tx3)" and out: "case r of Inl _ \<Rightarrow> refused s2 tx2 s3 | Inr _ \<Rightarrow> good h tx2 tx3 \<and> commits h s2 tx3 s3" by blast
    have "\<not> lock_poisoned (tx_content tx2)" using np2 t2 by (simp add: entry_def)
    from bind_one(2)[OF entry_live[OF t2] this w2 v] entry_bound[OF t2 rep] here that
    have "r = Inl different_content" by simp
    then show ?thesis using call out by (simp add: refused_def)
  qed
  then show ?thesis using get_blob_run[OF s2 assms(5) rep np2, of t d] here by auto
qed


section \<open>Snapshots\<close>

lemma live_cache_get:
  assumes "bt_get cache p = Some (Some (g, sn))" and "g \<in> set (map snd (st_generations st))"
  shows "bt_get (live_cache st cache) p = Some (Some (g, sn))"
  using assms unfolding bt_get_def live_cache_def by (induction cache) (auto simp del: set_map)

lemma load_snapshot_run:
  assumes "store_inv h s" and "\<not> astray s" and "room s"
  shows "\<exists>tx s2. entry h s tx \<and> load_snapshot h stream s = (Inr (tx_load_snapshot h stream tx), s2) \<and> fe_head s2 = fe_head s"
  unfolding load_snapshot_def
proof (rule read_only_call[OF assms ordinary_works(10)])
  fix tx
  show "\<exists>c. c_lift (\<lambda>s. Inr (tx_load_snapshot h stream s)) tx = (Inr (tx_load_snapshot h stream tx), tx\<lparr>tx_content := c\<rparr>)"
    by (rule exI[of _ "tx_content tx"]) (simp add: cmd_simps)
qed

text \<open>
  C30. A snapshot saved under the stream's current generation is the one the next load returns; one
  offered under any other generation is not kept and reported so.
\<close>

theorem snapshot_roundtrip:
  assumes "serving h s" and "replay h (hd_log (fe_head s)) = Inr st"
  shows "\<exists>kept s2. save_snapshot_checked h stream sn g s = (Inr kept, s2) \<and> fe_head s2 = fe_head s \<and>
    (kept \<longleftrightarrow> bt_get (st_generations st) (stream_key h stream) = Some g) \<and>
    (kept \<longrightarrow> (\<exists>s3. load_snapshot h stream s2 = (Inr (Some sn), s3)))"
proof -
  note sv = servingD[OF assms(1)]
  let ?kept = "bt_get (st_generations st) (stream_key h stream) = Some g"
  obtain r s2 where call: "save_snapshot_checked h stream sn g s = (r, s2)" by (cases "save_snapshot_checked h stream sn g s")
  from transact_call[OF sv(1-3) ordinary_works(9) call[unfolded save_snapshot_checked_def]] obtain tx tx1 where t: "entry h s tx"
    and w: "tx_save_snapshot h stream sn g tx = (r, tx1)" and s2: "store_inv h s2" "\<not> astray s2"
    and out: "case r of Inl _ \<Rightarrow> refused s tx s2 | Inr _ \<Rightarrow> good h tx tx1 \<and> commits h s tx1 s2" by blast
  have st: "tx_state tx = st" by (rule entry_state[OF t assms(2)])
  have r: "r = Inr ?kept" and pend: "tx_pending tx1 = tx_pending tx" and st1: "tx_state tx1 = st"
    and cache: "?kept \<Longrightarrow> tx_cache tx1 = bt_insert (snapshot_path h stream) (Some (g, sn)) (tx_cache tx)"
    using w st by (auto simp: tx_save_snapshot_def cmd_simps split: if_splits)
  have com: "commits h s tx1 s2" using out r by simp
  have head: "fe_head s2 = fe_head s" using com pend t by (simp add: commits_def entry_def)
  have "room s2" using sv(3) head by (simp add: room_def)
  have "\<exists>s3. load_snapshot h stream s2 = (Inr (Some sn), s3)" if ?kept
  proof -
    obtain tx2 s3 where t2: "entry h s2 tx2" and load: "load_snapshot h stream s2 = (Inr (tx_load_snapshot h stream tx2), s3)"
      using load_snapshot_run[OF s2 \<open>room s2\<close>, of stream] by blast
    have st2: "tx_state tx2 = st" using entry_state[OF t2] assms(2) head by simp
    have here: "bt_get (fe_cache s2) (snapshot_path h stream) = Some (Some (g, sn))"
      using com cache[OF that] by (simp add: commits_def bt_simps)
    have "g \<in> set (map snd (st_generations st))" using bt_get_SomeD[OF that] by force
    note kept = live_cache_get[OF here this]
    have "tx_cache tx2 = fe_cache s2 \<or> tx_cache tx2 = live_cache st (fe_cache s2)"
      using t2 unfolding entry_def finds_def st2 by blast
    then have "bt_get (tx_cache tx2) (snapshot_path h stream) = Some (Some (g, sn))" using here kept by auto
    then show ?thesis using load that by (simp add: tx_load_snapshot_def st2)
  qed
  then show ?thesis using call r head by auto
qed



section \<open>Erasing\<close>


lemma no_events: "event_ids ops = [] \<Longrightarrow> list_all (\<lambda>op. \<forall>d. op \<noteq> OpEvent d) ops"
proof (induction ops)
  case (Cons op ops)
  then show ?case by (cases op) auto
qed simp

text \<open>
  C11. Redacting an event replaces its body everywhere and nothing else of the log: the event keeps its
  place, every other event is as it was, no operation of the history holds the old event, the tenant's
  derived rows and cursors are gone, and each of its views must be rebuilt before it is read.
\<close>

theorem redact_erases:
  assumes "serving h s" and "epoch_room s" and "inj_on (uuid_at h) {..<fe_tick s}"
    and "replay h (hd_log (fe_head s)) = Inr st" and "validate_field ''redaction reason'' reason = Inr ()"
    and "of_stream h (st_events st) stream (Included v) (Included v) = old # rest"
  shows "\<exists>e s2 st2. redact h stream v reason s = (Inr e, s2) \<and> replay h (hd_log (fe_head s2)) = Inr st2 \<and>
    data e = redaction_tombstone reason \<and> redacted_at e \<noteq> None \<and> same_place e old \<and>
    Events_values (st_events st2) = map (repl e) (Events_values (st_events st)) \<and>
    list_all (\<lambda>op. \<forall>d. op = OpEvent d \<longrightarrow> event_id d = event_id old \<longrightarrow> d = e) (all_ops (hd_log (fe_head s2))) \<and>
    restricted (\<lambda>k. fst k \<noteq> sid_tenant stream) (st_rows st) (st_rows st2) \<and>
    restricted (\<lambda>k. fst k \<noteq> sid_tenant stream) (st_cursors st) (st_cursors st2) \<and>
    (\<forall>n \<in> set (map fst (st_projections st2)). (sid_tenant stream, n) \<in> st_dirty_views st2)"
proof -
  note sv = servingD[OF assms(1)]
  have "redactable h stream v reason st" using assms(5,6) by (simp add: redactable_def)
  from redact_run[OF sv(1,2) assms(2,3,4) this] obtain tx e tx1 s2 where t: "entry h s tx"
    and by1: "redacted_by h stream v reason tx e tx1" and run: "redact h stream v reason s = (Inr e, s2)"
    and rp: "republished h s tx1 (tx_log tx1 @ (if pending_ops tx1 = [] then [] else [TxOps (pending_ops tx1)])) s2" by blast
  have st: "tx_state tx = st" by (rule entry_state[OF t assms(4)])
  from by1 obtain now st' i where e: "e = old\<lparr>data := redaction_tombstone reason, redacted_at := Some now\<rparr>"
    and red: "redacted (sid_tenant stream) e st st'" and st1: "tx_state tx1 = marked h stream i st'"
    and ops: "all_ops (tx_log tx1) = redact_ops (sid_tenant stream) e (all_ops (tx_log tx))"
    using assms(6) unfolding redacted_by_def st by auto
  have rep: "replay h (hd_log (fe_head s2)) = Inr (tx_state tx1)"
    and log: "hd_log (fe_head s2) = tx_log tx1 @ (if pending_ops tx1 = [] then [] else [TxOps (pending_ops tx1)])"
    using rp unfolding republished_def history_ok_def by auto
  have "event_ids (pending_ops tx1) = []" using by1 by (simp add: redacted_by_def)
  then have pend: "list_all (\<lambda>op. \<forall>d. op \<noteq> OpEvent d) (pending_ops tx1)" by (rule no_events)
  have "list_all (\<lambda>op. \<forall>d. op = OpEvent d \<longrightarrow> event_id d = event_id old \<longrightarrow> d = e) (all_ops (tx_log tx1))"
    unfolding ops redact_ops_def list_all_iff
  proof (intro ballI allI impI)
    fix op d
    assume "op \<in> set (filter (\<lambda>op. \<not> derived_of (sid_tenant stream) op) (map (replace_event e) (all_ops (tx_log tx))))"
      and "op = OpEvent d" and id: "event_id d = event_id old"
    then obtain op' where "OpEvent d = replace_event e op'" by auto
    then show "d = e" using id by (cases op') (auto simp: e split: if_splits)
  qed
  then have "list_all (\<lambda>op. \<forall>d. op = OpEvent d \<longrightarrow> event_id d = event_id old \<longrightarrow> d = e) (all_ops (hd_log (fe_head s2)))"
    using pend by (auto simp: log list_all_iff)
  moreover have "same_place e old" by (simp add: e same_place_def)
  ultimately show ?thesis
    using run rep red e by (intro exI[of _ e] exI[of _ s2] exI[of _ "tx_state tx1"])
      (auto simp: st1 marked_def redacted_def redacted_books_def)
qed



subsection \<open>Concrete content\<close>

lemma sample_put:
  assumes "entry sample_host sample_writer tx"
  shows "\<exists>tx'. tx_bind_blobs sample_host ''acme'' [(''d1'', [1, 2])] tx = (Inr (), tx')"
proof -
  let ?tx = "tx\<lparr>tx_binds := True\<rparr>"
  have np: "\<not> lock_poisoned (tx_content ?tx)" using assms by (simp add: entry_def sample_writer_run vc_default_def)
  have st: "tx_state tx = State_default" using assms sample_writer_replay by (rule entry_state)
  have none: "bound_bytes (tx_objects ?tx) (tx_state ?tx) ''acme'' ''d1'' = None" by (simp add: bound_bytes_def st State_default_def)
  have v: "validate_field ''blob digest'' ''d1'' = Inr ()"
  proof -
    have "is_ok (validate_field ''blob digest'' ''d1'')" by code_simp
    then show ?thesis by (cases "validate_field ''blob digest'' ''d1''") simp_all
  qed
  have "live sample_host ?tx" using entry_live[OF assms] by (simp add: live_def)
  from plan_one[OF this np v, of "''acme''" "[1, 2]"] none obtain m where
    plan: "plan_blobs sample_host ''acme'' [] [(''d1'', [1, 2])] ?tx =
      (Inr [(\<lparr>blob_id = uuid_at sample_host (tx_tick tx), blob_hash = blob_integrity_sha256 sample_host [1, 2]\<rparr>, ''d1'', [1, 2])],
       ?tx\<lparr>tx_tick := Suc (tx_tick tx), tx_content := m\<rparr>)" by auto
  have "bt_get (tx_objects tx) i = None" for i
  proof (cases "bt_get (tx_objects tx) i")
    case (Some b)
    then have "bt_get (fe_objects sample_writer) i = Some b" using assms by (auto simp: entry_def finds_def)
    then show ?thesis by (simp add: sample_writer_run)
  qed
  then show ?thesis
    using plan by (simp add: tx_bind_blobs_def c_bind_run c_modify_run cmd_simps write_object_run tx_record_def Let_def del: plan_blobs.simps)
qed

lemma sample_acme: "is_ok (TenantId_new ''acme'')"
  by code_simp

lemma sample_put_run:
  obtains s2 where "put_blob sample_host ''acme'' ''d1'' [1, 2] sample_writer = (Inr (), s2)" and "room s2"
proof -
  note sv = servingD[OF sample_writer_serving]
  obtain r s2 where call: "put_blob sample_host ''acme'' ''d1'' [1, 2] sample_writer = (r, s2)"
    by (cases "put_blob sample_host ''acme'' ''d1'' [1, 2] sample_writer")
  from transact_call[OF sv(1-3) ordinary_works(4)[OF sv(4) sv(4) sample_acme] call[unfolded put_blob_def]] obtain tx tx1
    where t: "entry sample_host sample_writer tx" and w: "tx_bind_blobs sample_host ''acme'' [(''d1'', [1, 2])] tx = (r, tx1)"
      and out: "case r of Inl _ \<Rightarrow> refused sample_writer tx s2 | Inr _ \<Rightarrow> good sample_host tx tx1 \<and> commits sample_host sample_writer tx1 s2" by blast
  have r: "r = Inr ()" using sample_put[OF t] w by auto
  have "room s2" using out by (simp add: r commits_def room_def sample_writer_run no_history_def)
  then show ?thesis using that call r by blast
qed

theorem blob_roundtrip_witness:
  "\<exists>s2 s3. put_blob sample_host ''acme'' ''d1'' [1, 2] sample_writer = (Inr (), s2) \<and>
    get_blob sample_host ''acme'' ''d1'' s2 = (Inr (Some [1, 2]), s3) \<and>
    fst (put_blob sample_host ''acme'' ''d1'' [3] s2) = Inl different_content"
proof -
  obtain s2 where run: "put_blob sample_host ''acme'' ''d1'' [1, 2] sample_writer = (Inr (), s2)" and rm: "room s2" by (rule sample_put_run)
  have np: "\<not> lock_poisoned (fe_content sample_writer)" by (simp add: sample_writer_run vc_default_def)
  from blob_roundtrip[OF sample_writer_serving np sample_acme run rm] obtain s3 where
    "get_blob sample_host ''acme'' ''d1'' s2 = (Inr (Some [1, 2]), s3)"
    "\<forall>b'. b' \<noteq> [1, 2] \<longrightarrow> (\<exists>s3. put_blob sample_host ''acme'' ''d1'' b' s2 = (Inl different_content, s3) \<and> fe_head s3 = fe_head s2)" by blast
  then show ?thesis using run by (auto dest: spec[of _ "[3]"])
qed

theorem snapshot_roundtrip_witness:
  "\<exists>kept s2. save_snapshot_checked sample_host sample_stream \<lparr>snap_version = 1, state_schema_version = 1, snap_state = JNull, snap_recorded_at = 7\<rparr> ''g'' sample_writer =
      (Inr kept, s2) \<and> fe_head s2 = fe_head sample_writer"
  using snapshot_roundtrip[OF sample_writer_serving sample_writer_replay] by blast


theorem redact_erases_witness:
  "\<exists>res s1 e s2. append_guarded sample_host sample_stream NoStream [sample_event] sample_meta NoGuard sample_writer = (Inr res, s1) \<and>
    redact sample_host sample_stream 1 ''gdpr'' s1 = (Inr e, s2) \<and> data e = redaction_tombstone ''gdpr''"
proof -
  obtain res s1 where run: "append_guarded sample_host sample_stream NoStream [sample_event] sample_meta NoGuard sample_writer = (Inr res, s1)"
    and sv: "serving sample_host s1" and er: "epoch_room s1" and tick: "fe_tick s1 \<le> 2"
    and "\<exists>st2 e. replay sample_host (hd_log (fe_head s1)) = Inr st2 \<and> of_stream sample_host (st_events st2) sample_stream (Included 1) (Included 1) = [e]"
    by (rule sample_append_run)
  then obtain st2 e where st2: "replay sample_host (hd_log (fe_head s1)) = Inr st2"
    and e: "of_stream sample_host (st_events st2) sample_stream (Included 1) (Included 1) = [e]" by blast
  have "inj_on (uuid_at sample_host) {..<fe_tick s1}" by (rule sample_ids) (use tick in simp)
  moreover have "validate_field ''redaction reason'' ''gdpr'' = Inr ()"
  proof -
    have "is_ok (validate_field ''redaction reason'' ''gdpr'')" by code_simp
    then show ?thesis by (cases "validate_field ''redaction reason'' ''gdpr''") simp_all
  qed
  ultimately show ?thesis using redact_erases[OF sv er _ st2 _ e] run by blast
qed

end
