(* ===== verification/StoreProject.thy ===== *)
theory StoreProject
  imports StoreContent StoreReads
begin

text \<open>
  Driving projections: what a guard or projector can change, one catch-up pass and a rebuild of the
  file store, and the \<open>CatchUpRunner\<close> of \<open>crates/eventlog-core/src/projection.rs\<close>.
\<close>

section \<open>The runner\<close>

record CatchUpRunner =
  cr_projector :: Projector
  cr_batch :: nat

definition CatchUpRunner_new :: "host \<Rightarrow> Projector \<Rightarrow> CatchUpRunner storeop" where
  "CatchUpRunner_new h p = c_get (is_inline (pj_name p)) (\<lambda>driven.
     if driven then c_fail (Invalid (''projection '' @ pj_name p @ '' is already driven inline''))
     else c_bind (create_projections h p) (\<lambda>_. c_return \<lparr>cr_projector = p, cr_batch = 200\<rparr>))"

definition with_batch :: "nat \<Rightarrow> CatchUpRunner \<Rightarrow> CatchUpRunner" where
  "with_batch n r = r\<lparr>cr_batch := n\<rparr>"

definition run_once :: "host \<Rightarrow> CatchUpRunner \<Rightarrow> TenantId \<Rightarrow> CatchUpProgress storeop" where
  "run_once h r t = run_catch_up h (cr_projector r) t (cr_batch r)"

text \<open>The loop of \<open>drain\<close>; a loop that never left it would be \<open>None\<close>.\<close>

partial_function (option) drain_loop ::
  "host \<Rightarrow> CatchUpRunner \<Rightarrow> TenantId \<Rightarrow> u64 \<Rightarrow> FileEventStore \<Rightarrow> (u64 res \<times> FileEventStore) option" where
  "drain_loop h r t done_so_far s = (case run_once h r t s of
     (Inl e, s1) \<Rightarrow> Some (Inl e, s1)
   | (Inr progress, s1) \<Rightarrow>
       let done_so_far = done_so_far + applied progress in
       if \<not> more_waiting progress \<or> applied progress = 0 then Some (Inr done_so_far, s1)
       else drain_loop h r t done_so_far s1)"

definition drain :: "host \<Rightarrow> CatchUpRunner \<Rightarrow> TenantId \<Rightarrow> FileEventStore \<Rightarrow> (u64 res \<times> FileEventStore) option" where
  "drain h r t s = drain_loop h r t 0 s"


section \<open>Callbacks are confined\<close>

text \<open>The counters a callback may name.\<close>

definition own_counter :: "View \<Rightarrow> string \<Rightarrow> bool" where
  "own_counter v c \<longleftrightarrow> v_admission v \<and> (\<exists>s. belongs_to s (v_tenant v) \<and> coordinate s = Inr c)"

definition beyond :: "View \<Rightarrow> State \<Rightarrow> State \<Rightarrow> bool" where
  "beyond v st st' \<longleftrightarrow> core st' = core st \<and>
     (\<forall>k. fst k \<noteq> v_tenant v \<longrightarrow> bt_get (st_rows st') k = bt_get (st_rows st) k) \<and>
     (\<forall>c. \<not> own_counter v c \<longrightarrow> bt_get (st_counters st') c = bt_get (st_counters st) c)"

lemma beyond_op: "callback_op v op \<Longrightarrow> State_apply h st op = Inr st' \<Longrightarrow> beyond v st st'"
  by (cases op) (auto simp: beyond_def core_def own_counter_def bt_simps split: option.splits)

lemma beyond_ops:
  "list_all (callback_op v) ops \<Longrightarrow> try_fold (State_apply h) st ops = Inr st' \<Longrightarrow> beyond v st st'"
proof (induction ops arbitrary: st)
  case (Cons op ops)
  then obtain st1 where "State_apply h st op = Inr st1" "try_fold (State_apply h) st1 ops = Inr st'"
    by (auto simp: andthen_Inr_iff)
  then show ?case using Cons beyond_op[of v op h st st1] by (auto simp: beyond_def)
qed (simp add: beyond_def)

text \<open>
  C17. Whatever a guard or projector does, successful or not, it only reaches its own tenant: the log,
  the commands, claims, groups, bindings, cursors and registrations, the object files, the snapshots
  and the host's clock are as before, as are the rows of every other tenant; and it only moves admission
  counters when it is a guard, and then only those of its tenant or of the deployment.
\<close>

theorem callback_confined:
  assumes "run_prog h v p tx = (r, tx')"
  shows "tx_log tx' = tx_log tx \<and> tx_objects tx' = tx_objects tx \<and> tx_cache tx' = tx_cache tx \<and> tx_tick tx' = tx_tick tx \<and>
    core (tx_state tx') = core (tx_state tx) \<and>
    (\<forall>t n k. t \<noteq> v_tenant v \<longrightarrow> bt_get (st_rows (tx_state tx')) (t, n, k) = bt_get (st_rows (tx_state tx)) (t, n, k)) \<and>
    (\<forall>c. \<not> (v_admission v \<and> (\<exists>s. belongs_to s (v_tenant v) \<and> coordinate s = Inr c)) \<longrightarrow>
      bt_get (st_counters (tx_state tx')) c = bt_get (st_counters (tx_state tx)) c)"
proof -
  have c: "confined h v tx tx'" by (rule stepsD[OF confined_prog assms])
  then have "beyond v (tx_state tx) (tx_state tx')" unfolding confined_def recorded_def using beyond_ops by blast
  then show ?thesis using c by (simp add: beyond_def own_counter_def confined_def surroundings_def)
qed


section \<open>One pass\<close>

definition cursor_of :: "Projector \<Rightarrow> TenantId \<Rightarrow> State \<Rightarrow> u64" where
  "cursor_of p t st = (case bt_get (st_cursors st) (t, pj_name p) of None \<Rightarrow> 0 | Some n \<Rightarrow> n)"

text \<open>The events a catch-up projection has still to see.\<close>

definition waiting :: "Projector \<Rightarrow> TenantId \<Rightarrow> State \<Rightarrow> RecordedEvent list" where
  "waiting p t st = tenant_events t (cursor_of p t st) st"

definition apply_all :: "host \<Rightarrow> Projector \<Rightarrow> TenantId \<Rightarrow> RecordedEvent list \<Rightarrow> unit txop" where
  "apply_all h p t = c_each (\<lambda>e. run_prog h (plain_view t) (pj_apply p e))"

lemma apply_all_kept: "apply_all h p t es tx = (r, tx') \<Longrightarrow> core_kept h tx tx'"
  unfolding apply_all_def by (erule stepsD[rotated]) (auto intro!: steps_intro preorder_core_kept)

lemma core_eqD:
  assumes "core st' = core st"
  shows "st_events st' = st_events st" and "st_cursors st' = st_cursors st" and "st_dirty_views st' = st_dirty_views st"
    and "st_projections st' = st_projections st"
  using assms by (simp_all add: core_def)

lemma tenant_events_window:
  assumes "state_inv h st" and "page = take (bounded_limit n) (tenant_events t a st)"
    and "b = (if page = [] then a else global_seq (last page))"
  shows "page @ tenant_events t b st = tenant_events t a st"
    and "bounded_limit n < length (tenant_events t a st) \<longleftrightarrow> tenant_events t b st \<noteq> []"
proof -
  let ?xs = "filter (\<lambda>e. tenant e = t) (Events_values (st_events st))"
  have evs: "tenant_events t c st = filter (\<lambda>e. c < global_seq e) ?xs" for c
    by (simp add: tenant_events_def conj_commute)
  have "sorted_wrt (<) (map global_seq (Events_values (st_events st)))"
    using assms(1) positions_sorted by (auto simp: state_inv_def)
  then have "sorted_wrt (<) (map global_seq ?xs)" by (auto simp: sorted_wrt_map intro: sorted_wrt_filter)
  note w = window_splits[OF this bounded_limit_pos[of n] evs[of a] _ assms(3)]
  show "page @ tenant_events t b st = tenant_events t a st" unfolding evs[of b] by (rule w(1)) (simp add: assms(2))
  have "bounded_limit n < length (take (bounded_limit n + 1) (tenant_events t a st)) \<longleftrightarrow> tenant_events t b st \<noteq> []"
    unfolding evs[of b] by (rule w(2)) (simp add: assms(2))
  then show "bounded_limit n < length (tenant_events t a st) \<longleftrightarrow> tenant_events t b st \<noteq> []" by simp
qed

text \<open>A pass as a whole: the events it gives the projector, the cursor it leaves, what is left.\<close>

definition passed :: "host \<Rightarrow> Projector \<Rightarrow> TenantId \<Rightarrow> nat \<Rightarrow> CatchUpProgress \<Rightarrow> Transaction \<Rightarrow> Transaction \<Rightarrow> State \<Rightarrow> bool" where
  "passed h p t n pr tx tx1 st2 \<longleftrightarrow>
     (let page = take (bounded_limit n) (waiting p t (tx_state tx)) in
      apply_all h p t page tx = (Inr (), tx1) \<and>
      st2 = (tx_state tx1)\<lparr>st_cursors := bt_insert (t, pj_name p) (cu_position pr) (st_cursors (tx_state tx1))\<rparr> \<and>
      applied pr = of_nat (length page) \<and> waiting p t (tx_state tx) = page @ waiting p t st2 \<and>
      (more_waiting pr \<longleftrightarrow> waiting p t st2 \<noteq> []))"

lemma tx_catch_up_run:
  assumes "tx_catch_up h p t n tx = (Inr pr, tx')" and inv: "state_inv h (tx_state tx)"
  shows "\<exists>tx1. passed h p t n pr tx tx1 (tx_state tx')"
proof -
  let ?st = "tx_state tx"
  define page where "page = take (bounded_limit n) (waiting p t ?st)"
  define b where "b = (if page = [] then cursor_of p t ?st else global_seq (last page))"
  have pages: "take (bounded_limit n) (take (bounded_limit n + 1) (tenant_events t (cursor_of p t ?st) ?st)) = page"
    by (simp add: page_def waiting_def)
  obtain tx1 where run: "apply_all h p t page tx = (Inr (), tx1)"
    and rec: "tx_record h (OpCursor t (pj_name p) b) tx1 = (Inr (), tx')"
    and pr: "pr = \<lparr>applied = of_nat (length page), cu_position = b,
      more_waiting = bounded_limit n < length (take (bounded_limit n + 1) (tenant_events t (cursor_of p t ?st) ?st))\<rparr>"
    using assms(1) unfolding tx_catch_up_def Let_def cursor_of_def[symmetric] c_get_run id_apply pages b_def apply_all_def
    by (auto simp: c_bind_Inr_iff c_fail_run c_return_run split: if_splits)
  have st2: "tx_state tx' = (tx_state tx1)\<lparr>st_cursors := bt_insert (t, pj_name p) b (st_cursors (tx_state tx1))\<rparr>"
    using rec by (auto simp: tx_record_def Let_def)
  have "st_events (tx_state tx1) = st_events ?st"
    using apply_all_kept[OF run] core_eqD(1) unfolding core_kept_def by blast
  then have left: "waiting p t (tx_state tx') = tenant_events t b ?st"
    by (simp add: waiting_def cursor_of_def st2 bt_simps tenant_events_def)
  note w = tenant_events_window[OF inv page_def[unfolded waiting_def] b_def]
  show ?thesis
    unfolding passed_def Let_def page_def[symmetric] left
    by (rule exI[of _ tx1]) (use run st2 pr w in \<open>auto simp: waiting_def\<close>)
qed

lemma run_catch_up_run:
  assumes "store_inv h s" and "\<not> astray s" and "room s" and "replay h (hd_log (fe_head s)) = Inr st"
    and "run_catch_up h p t n s = (r, s2)"
  shows "store_inv h s2" and "\<not> astray s2"
    and "r = Inl e \<Longrightarrow> fe_head s2 = fe_head s"
    and "r = Inr pr \<Longrightarrow> \<exists>tx tx1 st2. tx_state tx = st \<and> passed h p t n pr tx tx1 st2 \<and>
      replay h (hd_log (fe_head s2)) = Inr st2 \<and> length (hd_log (fe_head s2)) \<le> Suc (length (hd_log (fe_head s)))"
proof -
  from transact_call[OF assms(1-3) ordinary_works(7) assms(5)[unfolded run_catch_up_def]] obtain tx tx1 where t: "entry h s tx"
    and w: "tx_catch_up h p t n tx = (r, tx1)" and s2: "store_inv h s2" "\<not> astray s2"
    and out: "case r of Inl _ \<Rightarrow> refused s tx s2 | Inr _ \<Rightarrow> good h tx tx1 \<and> commits h s tx1 s2" by blast
  show "store_inv h s2" "\<not> astray s2" by (fact s2)+
  show "fe_head s2 = fe_head s" if "r = Inl e" using out that by (simp add: refused_def)
  show "\<exists>tx tx1 st2. tx_state tx = st \<and> passed h p t n pr tx tx1 st2 \<and>
      replay h (hd_log (fe_head s2)) = Inr st2 \<and> length (hd_log (fe_head s2)) \<le> Suc (length (hd_log (fe_head s)))" if r: "r = Inr pr"
  proof -
    have st: "tx_state tx = st" by (rule entry_state[OF t assms(4)])
    have com: "commits h s tx1 s2" using out r by simp
    have len: "length (hd_log (fe_head s2)) \<le> Suc (length (hd_log (fe_head s)))" using com by (simp add: commits_def)
    have "state_inv h (tx_state tx)" using replay_inv[OF assms(4)] st by simp
    then obtain tx0 where "passed h p t n pr tx tx0 (tx_state tx1)" using tx_catch_up_run[OF w[unfolded r]] by blast
    then show ?thesis using st len commits_log[OF com] by blast
  qed
qed

text \<open>
  C12. A pass gives the projector exactly the oldest events after its cursor, in order and at most a
  batch of them, and commits what the projector wrote together with the cursor behind the last of
  them: nothing is skipped, nothing is given twice, and the flag says whether events are left.
\<close>

theorem catch_up_exactly_once:
  assumes "serving h s" and "replay h (hd_log (fe_head s)) = Inr st" and "run_catch_up h p t n s = (Inr pr, s2)"
  shows "\<exists>tx tx1 st2 page. replay h (hd_log (fe_head s2)) = Inr st2 \<and> tx_state tx = st \<and>
    page = take (bounded_limit n) (waiting p t st) \<and>
    c_each (\<lambda>e. run_prog h (plain_view t) (pj_apply p e)) page tx = (Inr (), tx1) \<and>
    st_rows st2 = st_rows (tx_state tx1) \<and> st_events st2 = st_events st \<and>
    bt_get (st_cursors st2) (t, pj_name p) = Some (cu_position pr) \<and>
    waiting p t st = page @ waiting p t st2 \<and> applied pr = of_nat (length page) \<and>
    (more_waiting pr \<longleftrightarrow> waiting p t st2 \<noteq> [])"
proof -
  from run_catch_up_run(4)[OF servingD(1-3)[OF assms(1)] assms(2,3) refl] obtain tx tx1 st2 where st: "tx_state tx = st"
    and p: "passed h p t n pr tx tx1 st2" and rep: "replay h (hd_log (fe_head s2)) = Inr st2" by blast
  let ?page = "take (bounded_limit n) (waiting p t st)"
  from p have run: "apply_all h p t ?page tx = (Inr (), tx1)"
    and st2: "st2 = (tx_state tx1)\<lparr>st_cursors := bt_insert (t, pj_name p) (cu_position pr) (st_cursors (tx_state tx1))\<rparr>"
    and rest: "applied pr = of_nat (length ?page)" "waiting p t st = ?page @ waiting p t st2" "more_waiting pr \<longleftrightarrow> waiting p t st2 \<noteq> []"
    unfolding passed_def Let_def st by blast+
  have "st_events st2 = st_events st"
    using core_eqD(1) apply_all_kept[OF run] unfolding core_kept_def st2 st by auto
  moreover have "st_rows st2 = st_rows (tx_state tx1)" "bt_get (st_cursors st2) (t, pj_name p) = Some (cu_position pr)"
    by (simp_all add: st2 bt_simps)
  ultimately show ?thesis using run rep st rest unfolding apply_all_def by blast
qed

section \<open>Draining\<close>

lemma passed_progress:
  assumes "passed h p t n pr tx tx1 st2" and "more_waiting pr"
  shows "applied pr \<noteq> 0" and "length (waiting p t st2) < length (waiting p t (tx_state tx))"
proof -
  let ?page = "take (bounded_limit n) (waiting p t (tx_state tx))"
  have w: "waiting p t (tx_state tx) = ?page @ waiting p t st2" and ne: "waiting p t st2 \<noteq> []"
    and a: "applied pr = of_nat (length ?page)"
    using assms unfolding passed_def Let_def by blast+
  have pos: "0 < length ?page" using w ne bounded_limit_pos[of n] by (auto simp: Suc_le_eq)
  have "length ?page \<le> 1000" by (simp add: bounded_limit_def MAX_READ_LIMIT_def)
  then show "applied pr \<noteq> 0" using pos unfolding a by (simp add: word_of_nat_eq_0_iff dvd_imp_le nat_dvd_not_less)
  show "length (waiting p t st2) < length (waiting p t (tx_state tx))" using w pos by (metis length_append less_add_same_cancel2)
qed

lemma drain_loop_ends:
  assumes "store_inv h s" and "\<not> astray s" and "replay h (hd_log (fe_head s)) = Inr st"
    and "length (hd_log (fe_head s)) + length (waiting (cr_projector r) t st) + 1 < 2 ^ 64"
  shows "\<exists>res s2 st2. drain_loop h r t n s = Some (res, s2) \<and> replay h (hd_log (fe_head s2)) = Inr st2 \<and>
    st_events st2 = st_events st \<and> (\<exists>past. waiting (cr_projector r) t st = past @ waiting (cr_projector r) t st2) \<and>
    (\<forall>m. res = Inr m \<longrightarrow> m = n + of_nat (length (waiting (cr_projector r) t st)) \<and> waiting (cr_projector r) t st2 = [])"
  using assms
proof (induction "length (waiting (cr_projector r) t st)" arbitrary: n s st rule: less_induct)
  case less
  let ?p = "cr_projector r"
  have rm: "room s" using less.prems(4) by (simp add: room_def)
  obtain q s1 where once: "run_catch_up h ?p t (cr_batch r) s = (q, s1)" by (cases "run_catch_up h ?p t (cr_batch r) s")
  note run = run_catch_up_run[OF less.prems(1,2) rm less.prems(3) once]
  show ?case
  proof (cases q)
    case (Inl e)
    then have "drain_loop h r t n s = Some (Inl e, s1)"
      using once by (subst drain_loop.simps) (simp add: run_once_def)
    then show ?thesis using less.prems(3) run(3)[OF Inl] by auto
  next
    case (Inr pr)
    from run(4)[OF Inr] obtain tx tx1 st1 where st: "tx_state tx = st" and p: "passed h ?p t (cr_batch r) pr tx tx1 st1"
      and rep: "replay h (hd_log (fe_head s1)) = Inr st1" and len: "length (hd_log (fe_head s1)) \<le> Suc (length (hd_log (fe_head s)))" by blast
    let ?page = "take (bounded_limit (cr_batch r)) (waiting ?p t st)"
    have w: "waiting ?p t st = ?page @ waiting ?p t st1" and a: "applied pr = of_nat (length ?page)"
      and m: "more_waiting pr \<longleftrightarrow> waiting ?p t st1 \<noteq> []" and ev: "st_events st1 = st_events st"
      using p apply_all_kept[of h ?p t ?page tx "Inr ()" tx1] core_eqD(1)[of "tx_state tx1" st]
      unfolding passed_def Let_def st core_kept_def by auto
    show ?thesis
    proof (cases "more_waiting pr")
      case False
      then have "drain_loop h r t n s = Some (Inr (n + applied pr), s1)"
        using once Inr by (subst drain_loop.simps) (simp add: run_once_def)
      moreover have "waiting ?p t st1 = []" "applied pr = of_nat (length (waiting ?p t st))" using False m w a by auto
      ultimately show ?thesis using rep ev by auto
    next
      case True
      note more = passed_progress[OF p True, unfolded st]
      from less.hyps[OF more(2) run(1,2) rep, of "n + applied pr"] more(2) len less.prems(4)
      obtain res s2 st2 where loop: "drain_loop h r t (n + applied pr) s1 = Some (res, s2)"
        and rest: "replay h (hd_log (fe_head s2)) = Inr st2" "st_events st2 = st_events st1"
        "\<exists>past. waiting ?p t st1 = past @ waiting ?p t st2"
        "\<forall>m. res = Inr m \<longrightarrow> m = n + applied pr + of_nat (length (waiting ?p t st1)) \<and> waiting ?p t st2 = []" by auto
      have "drain_loop h r t n s = Some (res, s2)"
        using once Inr True more(1) loop by (subst drain_loop.simps) (simp add: run_once_def)
      moreover have "applied pr + of_nat (length (waiting ?p t st1)) = of_nat (length (waiting ?p t st))"
        unfolding a of_nat_add[symmetric] length_append[symmetric] w[symmetric] by (rule refl)
      moreover have "\<exists>past. waiting ?p t st = past @ waiting ?p t st2" using rest(3) w by (metis append_assoc)
      ultimately show ?thesis using rest ev by (intro exI[of _ res] exI[of _ s2] exI[of _ st2]) (auto simp: add.assoc)
    qed
  qed
qed

text \<open>
  C15. Draining ends, whatever the projector does and however small the batch: it returns after
  finitely many passes, either with the error of the pass that failed or, with no error, having applied
  everything that was waiting. The log is as before and the cursor only ever moved over waiting events.
\<close>

theorem drain_ends:
  assumes "serving h s" and "replay h (hd_log (fe_head s)) = Inr st"
    and "length (hd_log (fe_head s)) + length (waiting (cr_projector r) t st) + 1 < 2 ^ 64"
  shows "\<exists>res s2 st2. drain h r t s = Some (res, s2) \<and> replay h (hd_log (fe_head s2)) = Inr st2 \<and>
    st_events st2 = st_events st \<and> (\<exists>past. waiting (cr_projector r) t st = past @ waiting (cr_projector r) t st2) \<and>
    (\<forall>m. res = Inr m \<longrightarrow> m = of_nat (length (waiting (cr_projector r) t st)) \<and> waiting (cr_projector r) t st2 = [])"
  using drain_loop_ends[OF servingD(1,2)[OF assms(1)] assms(2,3), of 0] unfolding drain_def by simp


section \<open>Rebuilding\<close>

text \<open>A state whose views of a tenant were emptied and made readable; \<open>ns\<close> are their names.\<close>

definition cleared :: "TenantId \<Rightarrow> string set \<Rightarrow> State \<Rightarrow> State \<Rightarrow> bool" where
  "cleared t ns st st' \<longleftrightarrow> st_events st' = st_events st \<and> st_cursors st' = st_cursors st \<and>
     restricted (\<lambda>(u, n, _). \<not> (u = t \<and> n \<in> ns)) (st_rows st) (st_rows st') \<and>
     st_dirty_views st' = st_dirty_views st - {t} \<times> ns"

lemma register_cleared:
  "register_loop h names specs tx = (Inr (), tx') \<Longrightarrow> cleared t {} (tx_state tx) (tx_state tx')"
proof (induction specs arbitrary: names tx)
  case Nil
  then show ?case by (simp add: c_return_run cleared_def restricted_def)
next
  case (Cons spec specs)
  from Cons.prems obtain tx1 where loop: "register_loop h (insert (spec_name spec) names) specs tx1 = (Inr (), tx')"
    and "tx1 = tx \<or> tx_record h (OpProjection (spec_name spec) (spec_indexed spec)) tx = (Inr (), tx1)"
    by (auto simp: c_bind_Inr_iff c_lift_run c_get_run c_fail_run c_return_run split: if_splits option.splits)
  then have "st_events (tx_state tx1) = st_events (tx_state tx)" "st_cursors (tx_state tx1) = st_cursors (tx_state tx)"
    "st_rows (tx_state tx1) = st_rows (tx_state tx)" "st_dirty_views (tx_state tx1) = st_dirty_views (tx_state tx)"
    by (auto simp: tx_record_def Let_def split: sum.splits if_splits option.splits)
  then show ?case using Cons.IH[OF loop] by (simp add: cleared_def)
qed

lemma clear_views_run:
  "c_each (clear_view h t) specs tx = (Inr (), tx') \<Longrightarrow> cleared t (spec_name ` set specs) (tx_state tx) (tx_state tx')"
proof (induction specs arbitrary: tx)
  case Nil
  then show ?case by (simp add: c_return_run cleared_def restricted_def)
next
  case (Cons spec specs)
  from Cons.prems obtain tx1 where one: "clear_view h t spec tx = (Inr (), tx1)"
    and loop: "c_each (clear_view h t) specs tx1 = (Inr (), tx')" by (auto simp: c_bind_Inr_iff)
  have "cleared t {spec_name spec} (tx_state tx) (tx_state tx1)"
    using one by (auto simp: clear_view_def c_bind_Inr_iff tx_record_def Let_def cleared_def restricted_def bt_simps)
  with Cons.IH[OF loop] show ?case
    unfolding cleared_def restricted_def by auto
qed

text \<open>All events of a tenant, in log order.\<close>

definition log_of :: "TenantId \<Rightarrow> State \<Rightarrow> RecordedEvent list" where
  "log_of t st = filter (\<lambda>e. tenant e = t) (Events_values (st_events st))"

lemma log_of_end:
  assumes "state_inv h st"
  shows "tenant_events t (if log_of t st = [] then 0 else global_seq (last (log_of t st))) st = []"
proof (cases "log_of t st = []")
  case True
  then show ?thesis by (auto simp: log_of_def tenant_events_def filter_empty_conv)
next
  case False
  have "sorted_wrt (<) (map global_seq (Events_values (st_events st)))"
    using assms positions_sorted by (auto simp: state_inv_def)
  then have "sorted_wrt (<) (map global_seq (log_of t st))" by (auto simp: log_of_def sorted_wrt_map intro: sorted_wrt_filter)
  then have "filter (\<lambda>e. global_seq (last (log_of t st)) < global_seq e) (log_of t st) = []"
    using filter_above_last[of global_seq "log_of t st" "length (log_of t st)"] False by simp
  moreover have "tenant_events t a st = filter (\<lambda>e. a < global_seq e) (log_of t st)" for a
    by (simp add: tenant_events_def log_of_def conj_commute)
  ultimately show ?thesis using False by simp
qed

lemma tx_rebuild_run:
  assumes "tx_rebuild h p t tx = (Inr n, tx')" and "es = filter (\<lambda>e. tenant e = t) (Events_values (st_events (tx_state tx)))"
  shows "\<exists>tx0 tx1. cleared t (spec_name ` set (pj_projections p)) (tx_state tx) (tx_state tx0) \<and>
    apply_all h p t es tx0 = (Inr (), tx1) \<and> n = of_nat (length es) \<and>
    tx_state tx' = (tx_state tx1)\<lparr>st_cursors := bt_insert (t, pj_name p) (if es = [] then 0 else global_seq (last es))
      (st_cursors (tx_state tx1))\<rparr>"
proof -
  let ?es = "\<lambda>s. filter (\<lambda>e. tenant e = t) (Events_values (st_events (tx_state s)))"
  from assms(1) obtain txr tx0 tx1 where reg: "register_loop h {} (pj_projections p) tx = (Inr (), txr)"
    and cl: "c_each (clear_view h t) (pj_projections p) txr = (Inr (), tx0)"
    and run: "apply_all h p t (?es tx0) tx0 = (Inr (), tx1)"
    and rec: "tx_record h (OpCursor t (pj_name p) (if ?es tx0 = [] then 0 else global_seq (last (?es tx0)))) tx1 = (Inr (), tx')"
    and n: "n = of_nat (length (?es tx0))"
    unfolding tx_rebuild_def tx_register_def apply_all_def by (auto simp: c_bind_Inr_iff c_get_run c_return_run)
  have "cleared t (spec_name ` set (pj_projections p)) (tx_state tx) (tx_state tx0)"
    using register_cleared[OF reg, of t] clear_views_run[OF cl] unfolding cleared_def restricted_def by auto
  moreover from this have "?es tx0 = es" by (simp add: cleared_def assms(2))
  moreover have "tx_state tx' = (tx_state tx1)\<lparr>st_cursors := bt_insert (t, pj_name p) (if es = [] then 0 else global_seq (last es))
      (st_cursors (tx_state tx1))\<rparr>"
    using rec \<open>?es tx0 = es\<close> by (auto simp: tx_record_def Let_def)
  ultimately show ?thesis using run n by auto
qed

text \<open>
  C16. A rebuild makes the views of a projector what its tenant's whole log says: it empties them, and
  them only, gives the projector every event of the tenant in log order, and leaves the cursor behind
  the last one, so nothing is waiting and no view of the projector is left to rebuild.
\<close>

theorem rebuild_replays:
  assumes "serving h s" and "replay h (hd_log (fe_head s)) = Inr st" and "rebuild_projection h p t s = (Inr n, s2)"
  shows "\<exists>tx tx1 st2. replay h (hd_log (fe_head s2)) = Inr st2 \<and>
    restricted (\<lambda>(u, m, _). \<not> (u = t \<and> m \<in> spec_name ` set (pj_projections p))) (st_rows st) (st_rows (tx_state tx)) \<and>
    c_each (\<lambda>e. run_prog h (plain_view t) (pj_apply p e)) (log_of t st) tx = (Inr (), tx1) \<and>
    st_rows st2 = st_rows (tx_state tx1) \<and> st_events st2 = st_events st \<and> n = of_nat (length (log_of t st)) \<and>
    waiting p t st2 = [] \<and> (\<forall>spec \<in> set (pj_projections p). (t, spec_name spec) \<notin> st_dirty_views st2)"
proof -
  note sv = servingD[OF assms(1)]
  let ?ns = "spec_name ` set (pj_projections p)"
  from transact_call[OF sv(1-3) ordinary_works(8) assms(3)[unfolded rebuild_projection_def]] obtain tx tx' where t: "entry h s tx"
    and w: "tx_rebuild h p t tx = (Inr n, tx')" and com: "commits h s tx' s2" by auto
  have st: "tx_state tx = st" by (rule entry_state[OF t assms(2)])
  have inv: "state_inv h st" by (rule replay_inv[OF assms(2)])
  from tx_rebuild_run[OF w refl] obtain tx0 tx1 where cl: "cleared t ?ns st (tx_state tx0)"
    and run: "apply_all h p t (log_of t st) tx0 = (Inr (), tx1)" and n: "n = of_nat (length (log_of t st))"
    and st2: "tx_state tx' = (tx_state tx1)\<lparr>st_cursors := bt_insert (t, pj_name p)
      (if log_of t st = [] then 0 else global_seq (last (log_of t st))) (st_cursors (tx_state tx1))\<rparr>"
    unfolding st log_of_def[symmetric] by blast
  have core: "core (tx_state tx1) = core (tx_state tx0)" using apply_all_kept[OF run] unfolding core_kept_def by blast
  have ev: "st_events (tx_state tx') = st_events st" using core_eqD(1)[OF core] cl by (simp add: st2 cleared_def)
  have "waiting p t (tx_state tx') = []"
    using log_of_end[OF inv, of t] ev by (simp add: waiting_def cursor_of_def st2 bt_simps tenant_events_def log_of_def)
  moreover have "(t, spec_name spec) \<notin> st_dirty_views (tx_state tx')" if "spec \<in> set (pj_projections p)" for spec
    using core_eqD(3)[OF core] cl that by (simp add: st2 cleared_def)
  ultimately show ?thesis
    using cl run n ev commits_log[OF com] st2 unfolding cleared_def apply_all_def
    by (intro exI[of _ tx0] exI[of _ tx1] exI[of _ "tx_state tx'"]) auto
qed


section \<open>Concrete passes\<close>

definition sample_projector :: Projector where
  "sample_projector = \<lparr>pj_name = ''tally'', pj_projections = [], pj_apply = (\<lambda>_. NoGuard)\<rparr>"

theorem callback_confined_witness:
  "\<exists>r tx'. run_prog sample_host (guard_view ''acme'') (Reserve 7 [sample_reservation] (\<lambda>_. NoGuard)) sample_tx = (r, tx') \<and>
    bt_get (st_rows (tx_state tx')) (''zeta'', ''tally'', ''k'') = bt_get (st_rows (tx_state sample_tx)) (''zeta'', ''tally'', ''k'')"
proof -
  obtain r tx' where run: "run_prog sample_host (guard_view ''acme'') (Reserve 7 [sample_reservation] (\<lambda>_. NoGuard)) sample_tx = (r, tx')"
    by (metis surj_pair)
  then show ?thesis using callback_confined[OF run] by (simp add: guard_view_def)
qed

lemma quiet_apply: "apply_all h sample_projector t es tx = (Inr (), tx)"
  by (induction es) (simp_all add: apply_all_def sample_projector_def NoGuard_def cmd_simps)

lemma sample_pass:
  assumes "serving h s" and "fe_inline s = []"
  shows "\<exists>pr s2. run_catch_up h sample_projector t n s = (Inr pr, s2)"
proof -
  obtain r s2 where call: "run_catch_up h sample_projector t n s = (r, s2)" by (cases "run_catch_up h sample_projector t n s")
  from transact_call[OF servingD(1-3)[OF assms(1)] ordinary_works(7) call[unfolded run_catch_up_def]] obtain tx tx1 where
    t: "entry h s tx" and w: "tx_catch_up h sample_projector t n tx = (r, tx1)" by blast
  have "tx_inline tx = []" using t assms(2) by (simp add: entry_def)
  then have "is_ok r" using w unfolding tx_catch_up_def Let_def apply_all_def[symmetric]
    by (auto simp: cmd_simps quiet_apply tx_record_def Let_def)
  then show ?thesis using call by (cases r) auto
qed

theorem catch_up_exactly_once_witness:
  "\<exists>s pr s2 st2. run_catch_up sample_host sample_projector ''acme'' 5 s = (Inr pr, s2) \<and>
    replay sample_host (hd_log (fe_head s2)) = Inr st2 \<and>
    bt_get (st_cursors st2) (''acme'', ''tally'') = Some (cu_position pr)"
proof -
  obtain s where sv: "serving sample_host s" and inl: "fe_inline s = []" by (rule sample_append_run)
  obtain st where st: "replay sample_host (hd_log (fe_head s)) = Inr st" using servingD(6)[OF sv] by blast
  obtain pr s2 where run: "run_catch_up sample_host sample_projector ''acme'' 5 s = (Inr pr, s2)"
    using sample_pass[OF sv inl] by blast
  from catch_up_exactly_once[OF sv st run] run show ?thesis by (auto simp: sample_projector_def)
qed

theorem drain_ends_witness:
  "\<exists>res s2. drain sample_host \<lparr>cr_projector = sample_projector, cr_batch = 1\<rparr> ''acme'' sample_writer = Some (res, s2)"
proof -
  have "waiting sample_projector ''acme'' State_default = []"
    by (simp add: waiting_def tenant_events_def State_default_def Events_values_def)
  then show ?thesis
    using drain_ends[OF sample_writer_serving sample_writer_replay, of "\<lparr>cr_projector = sample_projector, cr_batch = 1\<rparr>" "''acme''"]
    by (auto simp: sample_writer_run no_history_def)
qed

theorem rebuild_replays_witness:
  "\<exists>n s2 st2. rebuild_projection sample_host sample_projector ''acme'' sample_writer = (Inr n, s2) \<and>
    replay sample_host (hd_log (fe_head s2)) = Inr st2 \<and> waiting sample_projector ''acme'' st2 = []"
proof -
  obtain r s2 where call: "rebuild_projection sample_host sample_projector ''acme'' sample_writer = (r, s2)"
    by (cases "rebuild_projection sample_host sample_projector ''acme'' sample_writer")
  from transact_call[OF servingD(1-3)[OF sample_writer_serving] ordinary_works(8) call[unfolded rebuild_projection_def]]
  obtain tx tx1 where w: "tx_rebuild sample_host sample_projector ''acme'' tx = (r, tx1)" by blast
  have "pj_projections sample_projector = []" by (simp add: sample_projector_def)
  then have "is_ok r" using w unfolding tx_rebuild_def tx_register_def apply_all_def[symmetric]
    by (auto simp: cmd_simps quiet_apply tx_record_def Let_def)
  then obtain n where "r = Inr n" by (cases r) simp_all
  with call rebuild_replays[OF sample_writer_serving sample_writer_replay, of sample_projector "''acme''" n s2] show ?thesis by blast
qed

end
