(* ===== verification/Journal.thy ===== *)
theory Journal
  imports FileStore
begin

text \<open>
  The journal of the file store (\<open>crates/eventlog-file/src/journal.rs\<close>): manifest, frames and their
  digest chain, the directory with its recovery intents, and the operations that open, append to,
  rewrite and resume a history.

  A file is what its path leads to, a directory is the record of the names the journal uses. Every
  change of the directory, each prefix of a written buffer included, is kept in \<open>w_past\<close>: these are
  the states a process that dies can leave behind. What a storage device loses after a power failure
  is not modelled, so the synchronization calls have no effect here; the writers' lock is held by the
  one operation that runs. Inode stamps appear only as the answer whether a kept stamp still matches.
\<close>

section \<open>Manifest and frames\<close>

definition FORMAT :: string where "FORMAT = ''eventlog-file/1''"
definition SEGMENTED_FORMAT :: string where "SEGMENTED_FORMAT = ''eventlog-file/2''"
definition DEFAULT_SEAL_AT :: u64 where "DEFAULT_SEAL_AT = 256 * 1024"
definition ZERO :: string where "ZERO = replicate 64 (CHR ''0'')"

datatype FileLayout = Single | Segmented u64

definition segmented :: FileLayout where "segmented = Segmented DEFAULT_SEAL_AT"

record Segments =
  sg_seal_at :: u64
  sg_sealed :: "u64 list"

record Manifest =
  mf_format :: string
  mf_store :: string
  mf_epoch :: u64
  mf_sequence :: u64
  mf_length :: u64
  mf_digest :: string
  mf_segments :: "Segments option"

definition known :: "Manifest \<Rightarrow> bool" where
  "known m = (case mf_segments m of
     None \<Rightarrow> mf_format m = FORMAT
   | Some s \<Rightarrow> mf_format m = SEGMENTED_FORMAT \<and> sg_seal_at s \<ge> 1 \<and> list_all (\<lambda>l. l > 0) (sg_sealed s) \<and>
       (case try_fold (\<lambda>a l. ok_or () (checked_add a l)) 0 (sg_sealed s) of
          Inl _ \<Rightarrow> False | Inr n \<Rightarrow> n \<le> mf_length m))"

definition sealed :: "Manifest \<Rightarrow> u64 list" where
  "sealed m = (case mf_segments m of None \<Rightarrow> [] | Some s \<Rightarrow> sg_sealed s)"

definition saturating_sub :: "u64 \<Rightarrow> u64 \<Rightarrow> u64" where
  "saturating_sub a b = (if b \<le> a then a - b else 0)"

definition active_length :: "Manifest \<Rightarrow> u64" where
  "active_length m = saturating_sub (mf_length m) (foldl saturating_add 0 (sealed m))"

definition seal_at :: "Manifest \<Rightarrow> u64 option" where
  "seal_at m = map_option sg_seal_at (mf_segments m)"

definition segment_name :: "nat \<Rightarrow> string" where
  "segment_name i = pad 10 i @ ''.jsonl''"

record 'v Frame =
  fr_format :: string
  fr_store :: string
  fr_epoch :: u64
  fr_sequence :: u64
  fr_previous :: string
  fr_transaction :: 'v
  fr_digest :: string

record PrivacyIntent =
  pi_before :: Manifest
  pi_after :: Manifest
  replacement_digest :: string

record AppendIntent =
  ai_before :: Manifest
  ai_after :: Manifest
  ai_frame :: bytes

text \<open>
  The JSON library: the text of a frame, and the frame a line holds. What the journal relies on is
  stated on the frames in play by \<open>reads_back\<close> below.
\<close>

record 'v codec =
  frame_text :: "'v Frame \<Rightarrow> bytes"
  frame_parse :: "bytes \<Rightarrow> 'v Frame option"

definition newline :: byte where "newline = 10"

definition journal_hash :: "host \<Rightarrow> bytes \<Rightarrow> string" where
  "journal_hash h b = hex (sha256 h b)"

definition plain_frame :: "Manifest \<Rightarrow> u64 \<Rightarrow> string \<Rightarrow> 'v \<Rightarrow> 'v Frame" where
  "plain_frame m sq previous t = \<lparr>fr_format = mf_format m, fr_store = mf_store m, fr_epoch = mf_epoch m,
     fr_sequence = sq, fr_previous = previous, fr_transaction = t, fr_digest = []\<rparr>"

definition encode :: "host \<Rightarrow> 'v codec \<Rightarrow> Manifest \<Rightarrow> u64 \<Rightarrow> string \<Rightarrow> 'v \<Rightarrow> bytes \<times> string" where
  "encode h c m sq previous t =
     (let frame = plain_frame m sq previous t;
          dg = journal_hash h (frame_text c frame)
      in (frame_text c (frame\<lparr>fr_digest := dg\<rparr>) @ [newline], dg))"

text \<open>\<open>split_inclusive\<close> at newlines.\<close>

function split_lines :: "bytes \<Rightarrow> bytes list" where
  "split_lines b = (if b = [] then [] else
     case dropWhile (\<lambda>x. x \<noteq> newline) b of
       [] \<Rightarrow> [b]
     | _ # rest \<Rightarrow> (takeWhile (\<lambda>x. x \<noteq> newline) b @ [newline]) # split_lines rest)"
  by pat_completeness auto
termination
proof (relation "measure length")
  fix b :: bytes and x rest
  assume "dropWhile (\<lambda>x. x \<noteq> newline) b = x # rest"
  then have "length (x # rest) \<le> length b" by (metis length_dropWhile_le)
  then show "(rest, b) \<in> measure length" by simp
qed simp

declare split_lines.simps [simp del]

primrec decode_frames ::
  "host \<Rightarrow> 'v codec \<Rightarrow> Manifest \<Rightarrow> u64 \<Rightarrow> string \<Rightarrow> bytes list \<Rightarrow> (u64 \<times> string \<times> 'v list) res" where
  "decode_frames h c m sq previous [] = Inr (sq, previous, [])"
| "decode_frames h c m sq previous (line # lines) =
     andthen (ok_or corrupt (frame_parse c line)) (\<lambda>frame.
     andthen (ok_or corrupt (checked_add sq 1)) (\<lambda>sq'.
       if fr_format frame \<noteq> mf_format m \<or> fr_store frame \<noteq> mf_store m \<or> fr_epoch frame \<noteq> mf_epoch m \<or>
          fr_sequence frame \<noteq> sq' \<or> fr_previous frame \<noteq> previous
       then Inl corrupt
       else if journal_hash h (frame_text c (frame\<lparr>fr_digest := []\<rparr>)) \<noteq> fr_digest frame then Inl corrupt
       else andthen (decode_frames h c m sq' (fr_digest frame) lines) (\<lambda>(n, d, ts).
              Inr (n, d, fr_transaction frame # ts))))"

definition decode_chain :: "host \<Rightarrow> 'v codec \<Rightarrow> bytes \<Rightarrow> Manifest \<Rightarrow> u64 \<Rightarrow> string \<Rightarrow> 'v list res" where
  "decode_chain h c b m sq previous =
     (if b \<noteq> [] \<and> last b \<noteq> newline then Inl corrupt
      else andthen (decode_frames h c m sq previous (split_lines b)) (\<lambda>(n, d, ts).
        if n \<noteq> mf_sequence m \<or> d \<noteq> mf_digest m then Inl corrupt else Inr ts))"

definition decode :: "host \<Rightarrow> 'v codec \<Rightarrow> bytes \<Rightarrow> Manifest \<Rightarrow> 'v list res" where
  "decode h c b m = (if of_nat (length b) \<noteq> mf_length m then Inl corrupt else decode_chain h c b m 0 ZERO)"


section \<open>The directory\<close>

datatype 'a node = Missing | Dangling | Directory | Regular 'a
datatype 'a doc = Malformed | Doc 'a
datatype segment_dir = NoSegments | OtherSegments | SegmentDir "(string, bytes node) btree"
datatype root_dir = NoRoot | RootLink | RootDir

text \<open>\<open>d_staging\<close> are the names \<open>.write-...\<close>, each with whether it is a regular file.\<close>

record Files =
  d_root :: root_dir
  d_tree :: bool
  d_lock :: "unit node"
  d_manifest :: "Manifest doc node"
  d_events :: "bytes node"
  d_segments :: segment_dir
  d_append :: "AppendIntent doc node"
  d_privacy :: "PrivacyIntent doc node"
  d_next :: "bytes node"
  d_staging :: "(string, bool) btree"

record World =
  w_files :: Files
  w_past :: "Files list"
  w_tick :: nat

type_synonym 'a fsop = "(World, EventLogError, 'a) cmd"

text \<open>An operating system error; its text is not modelled.\<close>

definition io_error :: EventLogError where "io_error = Backend ''input/output error''"

definition change :: "(Files \<Rightarrow> Files) \<Rightarrow> unit fsop" where
  "change g w = (Inr (), w\<lparr>w_files := g (w_files w), w_past := w_past w @ [g (w_files w)]\<rparr>)"

text \<open>Writing a buffer leaves each of its prefixes behind before the whole.\<close>

definition change_each :: "(bytes \<Rightarrow> Files \<Rightarrow> Files) \<Rightarrow> bytes \<Rightarrow> unit fsop" where
  "change_each put b w = (Inr (), w\<lparr>w_files := put b (w_files w),
     w_past := w_past w @ map (\<lambda>k. put (take k b) (w_files w)) [0..<Suc (length b)]\<rparr>)"

fun node_exists :: "'a node \<Rightarrow> bool" where
  "node_exists Missing = False"
| "node_exists Dangling = False"
| "node_exists Directory = True"
| "node_exists (Regular _) = True"

fun regular :: "'a node \<Rightarrow> unit res" where
  "regular Missing = Inl io_error"
| "regular (Regular _) = Inr ()"
| "regular _ = Inl corrupt"

fun read_node :: "'a node \<Rightarrow> 'a res" where
  "read_node Missing = Inl io_error"
| "read_node (Regular x) = Inr x"
| "read_node _ = Inl corrupt"

fun parse_doc :: "'a doc \<Rightarrow> 'a res" where
  "parse_doc Malformed = Inl corrupt"
| "parse_doc (Doc x) = Inr x"

definition read_doc :: "'a doc node \<Rightarrow> 'a res" where
  "read_doc n = andthen (read_node n) parse_doc"

definition with_files :: "(Files \<Rightarrow> 'a res) \<Rightarrow> 'a fsop" where
  "with_files g = c_lift (\<lambda>w. g (w_files w))"

definition c_map_err :: "('e \<Rightarrow> 'e) \<Rightarrow> ('s, 'e, 'a) cmd \<Rightarrow> ('s, 'e, 'a) cmd" where
  "c_map_err f c s = (case c s of (r, s') \<Rightarrow> (map_err f r, s'))"

definition journal_id :: "host \<Rightarrow> string fsop" where
  "journal_id h w = (Inr (uuid_at h (w_tick w)), w\<lparr>w_tick := Suc (w_tick w)\<rparr>)"

text \<open>\<open>OpenOptions::create_new\<close> refuses a name that is there in any form; \<open>rename\<close> refuses a directory.\<close>

definition write_synced :: "(Files \<Rightarrow> bytes node) \<Rightarrow> (bytes node \<Rightarrow> Files \<Rightarrow> Files) \<Rightarrow> bytes \<Rightarrow> unit fsop" where
  "write_synced get put b =
     c_bind (with_files (\<lambda>f. if get f = Missing then Inr () else Inl io_error)) (\<lambda>_.
     change_each (\<lambda>x. put (Regular x)) b)"

definition atomic_json :: "host \<Rightarrow> (Files \<Rightarrow> 'a doc node) \<Rightarrow> ('a doc node \<Rightarrow> Files \<Rightarrow> Files) \<Rightarrow> 'a \<Rightarrow> unit fsop" where
  "atomic_json h get put v =
     c_bind (journal_id h) (\<lambda>i. let staging = ''.write-'' @ i in
     c_bind (with_files (\<lambda>f. if bt_get (d_staging f) staging = None then Inr () else Inl io_error)) (\<lambda>_.
     c_bind (change (\<lambda>f. f\<lparr>d_staging := bt_insert staging True (d_staging f)\<rparr>)) (\<lambda>_.
     c_bind (with_files (\<lambda>f. if get f = Directory then Inl io_error else Inr ())) (\<lambda>_.
     change (\<lambda>f. put (Regular (Doc v)) (f\<lparr>d_staging := bt_remove staging (d_staging f)\<rparr>))))))"

definition remove_file :: "(Files \<Rightarrow> 'a node) \<Rightarrow> ('a node \<Rightarrow> Files \<Rightarrow> Files) \<Rightarrow> unit fsop" where
  "remove_file get put =
     c_bind (with_files (\<lambda>f. case get f of Missing \<Rightarrow> Inl io_error | Directory \<Rightarrow> Inl io_error | _ \<Rightarrow> Inr ())) (\<lambda>_.
     change (put Missing))"

abbreviation put_events :: "bytes node \<Rightarrow> Files \<Rightarrow> Files" where "put_events n f \<equiv> f\<lparr>d_events := n\<rparr>"
abbreviation put_manifest :: "Manifest doc node \<Rightarrow> Files \<Rightarrow> Files" where "put_manifest n f \<equiv> f\<lparr>d_manifest := n\<rparr>"
abbreviation put_append :: "AppendIntent doc node \<Rightarrow> Files \<Rightarrow> Files" where "put_append n f \<equiv> f\<lparr>d_append := n\<rparr>"
abbreviation put_privacy :: "PrivacyIntent doc node \<Rightarrow> Files \<Rightarrow> Files" where "put_privacy n f \<equiv> f\<lparr>d_privacy := n\<rparr>"
abbreviation put_next :: "bytes node \<Rightarrow> Files \<Rightarrow> Files" where "put_next n f \<equiv> f\<lparr>d_next := n\<rparr>"


section \<open>Segments\<close>

definition segment_entries :: "Files \<Rightarrow> (string, bytes node) btree" where
  "segment_entries f = (case d_segments f of SegmentDir es \<Rightarrow> es | _ \<Rightarrow> [])"

definition segment :: "Files \<Rightarrow> nat \<Rightarrow> bytes node" where
  "segment f i = (case bt_get (segment_entries f) (segment_name i) of None \<Rightarrow> Missing | Some n \<Rightarrow> n)"

definition put_segment :: "nat \<Rightarrow> bytes node \<Rightarrow> Files \<Rightarrow> Files" where
  "put_segment i n f = f\<lparr>d_segments := SegmentDir (if n = Missing then bt_remove (segment_name i) (segment_entries f)
     else bt_insert (segment_name i) n (segment_entries f))\<rparr>"

definition segments_physical :: "Files \<Rightarrow> bool res" where
  "segments_physical f = (case d_segments f of NoSegments \<Rightarrow> Inl io_error | OtherSegments \<Rightarrow> Inr False | SegmentDir _ \<Rightarrow> Inr True)"

primrec read_segments :: "Files \<Rightarrow> nat \<Rightarrow> bytes \<Rightarrow> u64 list \<Rightarrow> bytes res" where
  "read_segments f i into [] = Inr into"
| "read_segments f i into (l # ls) =
     andthen (read_node (segment f i)) (\<lambda>b.
     andthen (ok_or corrupt (checked_add l 1)) (\<lambda>n.
     let got = take (unat n) b in
       if of_nat (length got) \<noteq> l \<or> into @ got = [] \<or> last (into @ got) \<noteq> newline then Inl corrupt
       else read_segments f (Suc i) (into @ got) ls))"

definition read_sealed :: "Manifest \<Rightarrow> Files \<Rightarrow> bytes res" where
  "read_sealed m f = (if sealed m = [] then Inr [] else
     andthen (segments_physical f) (\<lambda>ok. if \<not> ok then Inl corrupt else read_segments f 0 [] (sealed m)))"

definition strip_suffix :: "string \<Rightarrow> string \<Rightarrow> string option" where
  "strip_suffix sfx s = (if length sfx \<le> length s \<and> drop (length s - length sfx) s = sfx
     then Some (take (length s - length sfx) s) else None)"

definition explained :: "nat \<Rightarrow> string \<Rightarrow> bool" where
  "explained named n = (case strip_suffix ''.jsonl'' n of
     None \<Rightarrow> False
   | Some index \<Rightarrow> length index = 10 \<and> list_all is_ascii_digit index \<and> parse_dec index < named)"

definition unexplained_segments :: "Manifest \<Rightarrow> Files \<Rightarrow> bool res" where
  "unexplained_segments m f = (if mf_segments m = None then Inr False else
     (case d_segments f of
        NoSegments \<Rightarrow> Inr (sealed m \<noteq> [])
      | OtherSegments \<Rightarrow> Inl io_error
      | SegmentDir es \<Rightarrow> Inr (list_ex (\<lambda>(n, _). \<not> explained (length (sealed m)) n) es)))"

text \<open>\<open>symlink_metadata\<close> of a sealed name; below something that is no directory it is an error.\<close>

definition segment_meta :: "nat \<Rightarrow> Files \<Rightarrow> bytes node res" where
  "segment_meta i f = (if d_segments f = OtherSegments then Inl io_error else Inr (segment f i))"

definition remove_segment :: "nat \<Rightarrow> unit fsop" where
  "remove_segment i = c_bind (with_files (segment_meta i)) (\<lambda>n. case n of
     Missing \<Rightarrow> c_return () | Directory \<Rightarrow> c_fail io_error | _ \<Rightarrow> change (put_segment i Missing))"

definition remove_sealed :: "nat \<Rightarrow> unit fsop" where
  "remove_sealed n = (if n = 0 then c_return () else
     c_bind (c_each remove_segment [0..<n]) (\<lambda>_.
     with_files (\<lambda>f. if d_segments f = NoSegments then Inl io_error else Inr ())))"



section \<open>Recovery\<close>

definition set_length :: "nat \<Rightarrow> unit fsop" where
  "set_length n = c_bind (with_files (\<lambda>f. read_node (d_events f))) (\<lambda>b.
     change (put_events (Regular (take n (b @ replicate (n - length b) 0)))))"

definition append_intent_ok :: "AppendIntent \<Rightarrow> bool" where
  "append_intent_ok i =
     (let before = ai_before i; after = ai_after i; held = length (sealed before);
          sealing = (length (sealed after) = held + 1)
      in known before \<and> known after \<and> mf_format after = mf_format before \<and> seal_at after = seal_at before \<and>
         take (min held (length (sealed after))) (sealed after) = sealed before \<and>
         (sealing \<longrightarrow> sealed after ! held = active_length before) \<and>
         (\<not> sealing \<longrightarrow> length (sealed after) = held))"

text \<open>An uncommitted seal: the moved segment goes back over \<open>events.jsonl\<close>.\<close>

definition unseal :: "host \<Rightarrow> 'v codec \<Rightarrow> Manifest \<Rightarrow> bytes \<Rightarrow> unit fsop" where
  "unseal h c before prefix1 =
     (let held = length (sealed before) in
      c_bind (with_files (\<lambda>f. read_node (segment f held))) (\<lambda>moved.
        if of_nat (length moved) \<noteq> active_length before then c_fail corrupt
        else c_bind (with_files (\<lambda>_. decode h c (prefix1 @ moved) before)) (\<lambda>_.
             c_bind (with_files (\<lambda>f. if d_events f = Directory then Inl io_error else Inr ())) (\<lambda>_.
             change (\<lambda>f. put_segment held Missing (f\<lparr>d_events := Regular moved\<rparr>))))))"

definition recover_sealing :: "host \<Rightarrow> 'v codec \<Rightarrow> AppendIntent \<Rightarrow> Manifest \<Rightarrow> bytes \<Rightarrow> unit fsop" where
  "recover_sealing h c i current prefix1 =
     (let before = ai_before i; after = ai_after i; held = length (sealed before) in
      c_bind (with_files (segment_meta held)) (\<lambda>target.
      let renamed = (target \<noteq> Missing) in
      if current = before then
        c_bind (if renamed then unseal h c before prefix1 else c_return ()) (\<lambda>_.
        c_bind (with_files (\<lambda>f. read_node (d_events f))) (\<lambda>b.
        c_bind (with_files (\<lambda>_. decode h c (prefix1 @ b) before)) (\<lambda>_.
        c_bind (with_files (\<lambda>_. decode h c (prefix1 @ b @ ai_frame i) after)) (\<lambda>_. c_return ()))))
      else if \<not> renamed then c_fail corrupt
      else c_bind (with_files (read_sealed after)) (\<lambda>committed.
           c_bind (with_files (\<lambda>f. read_node (d_events f))) (\<lambda>b.
           c_bind (with_files (\<lambda>_. decode h c (committed @ b) after)) (\<lambda>_. c_return ())))))"

definition recover_plain :: "host \<Rightarrow> 'v codec \<Rightarrow> AppendIntent \<Rightarrow> Manifest \<Rightarrow> bytes \<Rightarrow> unit fsop" where
  "recover_plain h c i current prefix1 =
     (let before = ai_before i; after = ai_after i; boundary = unat (active_length before) in
      c_bind (with_files (\<lambda>f. read_node (d_events f))) (\<lambda>b.
        if length b < boundary then c_fail corrupt
        else let committed = prefix1 @ take boundary b in
          c_bind (with_files (\<lambda>_. decode h c committed before)) (\<lambda>_.
            if take (length b - boundary) (ai_frame i) \<noteq> drop boundary b then c_fail corrupt
            else c_bind (with_files (\<lambda>_. decode h c (committed @ ai_frame i) after)) (\<lambda>_.
              if current = after
              then c_bind (with_files (\<lambda>_. decode h c (prefix1 @ b) current)) (\<lambda>_. c_return ())
              else set_length boundary))))"

definition recover_append :: "host \<Rightarrow> 'v codec \<Rightarrow> Manifest \<Rightarrow> unit fsop" where
  "recover_append h c current =
     c_bind (with_files (\<lambda>f. read_doc (d_append f))) (\<lambda>i.
       if current \<noteq> ai_before i \<and> current \<noteq> ai_after i then c_fail corrupt
       else if \<not> append_intent_ok i then c_fail corrupt
       else c_bind (with_files (read_sealed (ai_before i))) (\<lambda>prefix1.
            c_bind (if length (sealed (ai_after i)) = length (sealed (ai_before i)) + 1
                    then recover_sealing h c i current prefix1
                    else recover_plain h c i current prefix1) (\<lambda>_.
            remove_file d_append put_append)))"

definition privacy_intent_ok :: "PrivacyIntent \<Rightarrow> bool" where
  "privacy_intent_ok i =
     (let before = pi_before i; after = pi_after i in
      mf_store before = mf_store after \<and> checked_add (mf_epoch before) 1 = Some (mf_epoch after) \<and>
      known before \<and> known after \<and> mf_format after = mf_format before \<and> seal_at after = seal_at before \<and> sealed after = [])"

definition install_replacement :: "host \<Rightarrow> 'v codec \<Rightarrow> PrivacyIntent \<Rightarrow> bytes \<Rightarrow> unit fsop" where
  "install_replacement h c i events =
     c_bind (with_files (read_sealed (pi_before i))) (\<lambda>committed.
     c_bind (with_files (\<lambda>_. decode h c (committed @ events) (pi_before i))) (\<lambda>_.
     c_bind (with_files (\<lambda>f. read_node (d_next f))) (\<lambda>replacement.
       if journal_hash h replacement \<noteq> replacement_digest i then c_fail corrupt
       else c_bind (with_files (\<lambda>_. decode h c replacement (pi_after i))) (\<lambda>_.
            change (\<lambda>f. f\<lparr>d_events := Regular replacement, d_next := Missing\<rparr>)))))"

text \<open>The switch to the new manifest, after which the retired segments, the replacement and the intent go.\<close>

definition finish_rewrite :: "host \<Rightarrow> PrivacyIntent \<Rightarrow> Manifest fsop" where
  "finish_rewrite h i =
     c_bind (atomic_json h d_manifest put_manifest (pi_after i)) (\<lambda>_.
     c_bind (remove_sealed (length (sealed (pi_before i)))) (\<lambda>_.
     c_bind (c_get (\<lambda>w. node_exists (d_next (w_files w))) (\<lambda>e.
       if e then remove_file d_next put_next else c_return ())) (\<lambda>_.
     c_bind (remove_file d_privacy put_privacy) (\<lambda>_.
     c_return (pi_after i)))))"

definition recover_privacy :: "host \<Rightarrow> 'v codec \<Rightarrow> Manifest \<Rightarrow> Manifest fsop" where
  "recover_privacy h c current =
     c_bind (with_files (\<lambda>f. read_doc (d_privacy f))) (\<lambda>i.
       if (current \<noteq> pi_before i \<and> current \<noteq> pi_after i) \<or> \<not> privacy_intent_ok i then c_fail corrupt
       else c_bind (with_files (\<lambda>f. read_node (d_events f))) (\<lambda>events.
            c_bind (if journal_hash h events = replacement_digest i
                    then c_bind (with_files (\<lambda>_. decode h c events (pi_after i))) (\<lambda>_. c_return ())
                    else install_replacement h c i events) (\<lambda>_. finish_rewrite h i)))"


section \<open>Opening\<close>

record 'v Journal =
  j_manifest :: Manifest
  j_transactions :: "'v list"
  j_content :: bytes

definition is_staging :: "string \<Rightarrow> bool" where
  "is_staging n = (starts_with n ''.write-'' \<and> length (drop 7 n) = 36 \<and>
     list_all (\<lambda>b. is_ascii_hexdigit b \<or> b = CHR ''-'') (drop 7 n))"

definition sweep_entry :: "string \<times> bool \<Rightarrow> unit fsop" where
  "sweep_entry e = (if \<not> is_staging (fst e) then c_return ()
     else if \<not> snd e then c_fail corrupt
     else change (\<lambda>f. f\<lparr>d_staging := bt_remove (fst e) (d_staging f)\<rparr>))"

text \<open>Answers whether anything was removed.\<close>

definition sweep_unselected :: "bool fsop" where
  "sweep_unselected = c_get (d_staging \<circ> w_files) (\<lambda>es.
     c_bind (c_each sweep_entry es) (\<lambda>_.
     c_get (d_next \<circ> w_files) (\<lambda>n. case n of
       Missing \<Rightarrow> c_return (list_ex (\<lambda>e. is_staging (fst e)) es)
     | Regular _ \<Rightarrow> c_bind (change (put_next Missing)) (\<lambda>_. c_return True)
     | _ \<Rightarrow> c_fail corrupt)))"

definition not_a_file_store :: EventLogError where
  "not_a_file_store = Invalid ''this directory holds an eventlog-tree store, not a file store''"

definition bad_seal :: EventLogError where
  "bad_seal = Invalid ''a segmented file store seals at one byte or more''"

definition layout_format :: "FileLayout \<Rightarrow> (string \<times> Segments option) res" where
  "layout_format layout = (case layout of
     Segmented n \<Rightarrow> if n \<ge> 1 then Inr (SEGMENTED_FORMAT, Some \<lparr>sg_seal_at = n, sg_sealed = []\<rparr>) else Inl bad_seal
   | Single \<Rightarrow> Inr (FORMAT, None))"

definition first_manifest :: "string \<times> Segments option \<Rightarrow> string \<Rightarrow> Manifest" where
  "first_manifest l i = \<lparr>mf_format = fst l, mf_store = i, mf_epoch = 0, mf_sequence = 0, mf_length = 0,
     mf_digest = ZERO, mf_segments = snd l\<rparr>"

definition create_journal :: "host \<Rightarrow> FileLayout option \<Rightarrow> unit fsop" where
  "create_journal h layout = c_get w_files (\<lambda>f.
     if node_exists (d_manifest f) then c_return () else
     (case layout of
        None \<Rightarrow> c_fail corrupt
      | Some l \<Rightarrow>
          if node_exists (d_events f) \<or> node_exists (d_privacy f) then c_fail corrupt
          else c_bind (with_files (\<lambda>_. layout_format l)) (\<lambda>fmt.
               c_bind (journal_id h) (\<lambda>i.
               c_bind (write_synced d_events put_events []) (\<lambda>_.
               atomic_json h d_manifest put_manifest (first_manifest fmt i))))))"

definition enter_root :: "FileLayout option \<Rightarrow> unit fsop" where
  "enter_root layout =
     c_bind (with_files (\<lambda>f. if d_tree f then Inl not_a_file_store else Inr ())) (\<lambda>_.
     c_bind (c_get (d_root \<circ> w_files) (\<lambda>r. if layout \<noteq> None \<and> r = NoRoot
       then change (\<lambda>f. f\<lparr>d_root := RootDir\<rparr>) else c_return ())) (\<lambda>_.
     c_bind (with_files (\<lambda>f. case d_root f of NoRoot \<Rightarrow> Inl io_error | RootLink \<Rightarrow> Inl corrupt | RootDir \<Rightarrow> Inr ())) (\<lambda>_.
     c_get (d_lock \<circ> w_files) (\<lambda>l.
       if layout = None \<or> l \<noteq> Missing then c_lift (\<lambda>_. regular l)
       else change (\<lambda>f. f\<lparr>d_lock := Regular ()\<rparr>)))))"

definition read_history :: "host \<Rightarrow> 'v codec \<Rightarrow> Manifest \<Rightarrow> Files \<Rightarrow> (bytes \<times> 'v list) res" where
  "read_history h c m f =
     andthen (read_node (d_events f)) (\<lambda>b.
     let active = active_length m in
       if of_nat (length b) < active then Inl corrupt
       else andthen (read_sealed m f) (\<lambda>committed.
            andthen (unexplained_segments m f) (\<lambda>u.
              if u then Inl corrupt
              else let committed = committed @ take (unat active) b in
                andthen (decode h c committed m) (\<lambda>ts.
                  if of_nat (length b) > active then Inl corrupt else Inr (committed, ts)))))"

definition open_with_creation :: "host \<Rightarrow> 'v codec \<Rightarrow> FileLayout option \<Rightarrow> 'v Journal fsop" where
  "open_with_creation h c layout =
     c_bind (enter_root layout) (\<lambda>_.
     c_bind (create_journal h layout) (\<lambda>_.
     c_bind (with_files (\<lambda>f. read_doc (d_manifest f))) (\<lambda>m0.
       if \<not> known m0 then c_fail corrupt
       else c_bind (with_files (\<lambda>f. if node_exists (d_privacy f) \<and> node_exists (d_append f) then Inl corrupt else Inr ())) (\<lambda>_.
            c_bind (c_get (\<lambda>w. node_exists (d_privacy (w_files w))) (\<lambda>e.
              if e then recover_privacy h c m0 else c_return m0)) (\<lambda>m.
            c_bind (c_get (\<lambda>w. node_exists (d_append (w_files w))) (\<lambda>e.
              if e then recover_append h c m else c_return ())) (\<lambda>_.
            c_bind (with_files (read_history h c m)) (\<lambda>(committed, ts).
            c_bind sweep_unselected (\<lambda>_.
            c_return \<lparr>j_manifest = m, j_transactions = ts, j_content = committed\<rparr>))))))))"

definition Journal_open :: "host \<Rightarrow> 'v codec \<Rightarrow> 'v Journal fsop" where
  "Journal_open h c = open_with_creation h c (Some Single)"

definition open_with_layout :: "host \<Rightarrow> 'v codec \<Rightarrow> FileLayout \<Rightarrow> 'v Journal fsop" where
  "open_with_layout h c l = open_with_creation h c (Some l)"

definition open_existing :: "host \<Rightarrow> 'v codec \<Rightarrow> 'v Journal fsop" where
  "open_existing h c = open_with_creation h c None"


section \<open>Appending and rewriting\<close>

definition seal_target_free :: "Manifest \<Rightarrow> Files \<Rightarrow> bool res" where
  "seal_target_free m f = (case d_segments f of
     OtherSegments \<Rightarrow> Inl corrupt
   | NoSegments \<Rightarrow> Inr False
   | SegmentDir _ \<Rightarrow> if segment f (length (sealed m)) = Missing then Inr True else Inl corrupt)"

definition seal_active :: "Manifest \<Rightarrow> unit fsop" where
  "seal_active m =
     c_bind (with_files (seal_target_free m)) (\<lambda>there.
     c_bind (if there then c_return () else change (\<lambda>f. f\<lparr>d_segments := SegmentDir []\<rparr>)) (\<lambda>_.
     c_bind (with_files (\<lambda>f. if d_events f = Missing then Inl io_error else Inr ())) (\<lambda>_.
     c_bind (change (\<lambda>f. put_segment (length (sealed m)) (d_events f) (f\<lparr>d_events := Missing\<rparr>))) (\<lambda>_.
     change (put_events (Regular []))))))"

definition write_at :: "nat \<Rightarrow> bytes \<Rightarrow> bytes \<Rightarrow> bytes" where
  "write_at off new old = take off (old @ replicate (off - length old) 0) @ new @ drop (off + length new) old"

text \<open>\<open>write_all\<close> at an offset of \<open>events.jsonl\<close>.\<close>

definition write_events :: "nat \<Rightarrow> bytes \<Rightarrow> unit fsop" where
  "write_events off b = c_bind (with_files (\<lambda>f. read_node (d_events f))) (\<lambda>old.
     change_each (\<lambda>x. put_events (Regular (write_at off x old))) b)"

definition seals :: "Manifest \<Rightarrow> bool" where
  "seals m = (case seal_at m of None \<Rightarrow> False | Some n \<Rightarrow> active_length m > 0 \<and> active_length m \<ge> n)"

definition next_manifest :: "Manifest \<Rightarrow> u64 \<Rightarrow> bytes \<Rightarrow> string \<Rightarrow> Manifest res" where
  "next_manifest m sq line dg =
     andthen (ok_or corrupt (checked_add (mf_length m) (of_nat (length line)))) (\<lambda>n.
     let next1 = m\<lparr>mf_sequence := sq, mf_length := n, mf_digest := dg\<rparr> in
     Inr (if seals m then next1\<lparr>mf_segments := map_option (\<lambda>s. s\<lparr>sg_sealed := sg_sealed s @ [active_length m]\<rparr>) (mf_segments m)\<rparr>
          else next1))"

definition write_frame :: "Manifest \<Rightarrow> bytes \<Rightarrow> unit fsop" where
  "write_frame m line =
     (let off = (if seals m then 0 else unat (active_length m)); midpoint = length line div 2 in
      c_bind (if seals m then seal_active m else c_return ()) (\<lambda>_.
      c_bind (write_events off (take midpoint line)) (\<lambda>_.
      write_events (off + midpoint) (drop midpoint line))))"

definition Journal_append :: "host \<Rightarrow> 'v codec \<Rightarrow> 'v \<Rightarrow> 'v Journal \<Rightarrow> 'v Journal fsop" where
  "Journal_append h c t j =
     (let m = j_manifest j in
      c_bind (with_files (\<lambda>_. ok_or corrupt (checked_add (mf_sequence m) 1))) (\<lambda>sq.
      let (line, dg) = encode h c m sq (mf_digest m) t in
      c_bind (with_files (\<lambda>_. next_manifest m sq line dg)) (\<lambda>next1.
      c_bind (if seals m then with_files (\<lambda>f. andthen (seal_target_free m f) (\<lambda>_. Inr ())) else c_return ()) (\<lambda>_.
      c_bind (atomic_json h d_append put_append \<lparr>ai_before = m, ai_after = next1, ai_frame = line\<rparr>) (\<lambda>_.
      c_bind (write_frame m line) (\<lambda>_.
      c_bind (c_map_err (\<lambda>_. UnknownCommit) (atomic_json h d_manifest put_manifest next1)) (\<lambda>_.
      c_bind (c_map_err (\<lambda>_. UnknownCommit) (remove_file d_append put_append)) (\<lambda>_.
      c_return \<lparr>j_manifest = next1, j_transactions = j_transactions j @ [t], j_content = j_content j @ line\<rparr>))))))))"

primrec encode_all :: "host \<Rightarrow> 'v codec \<Rightarrow> Manifest \<Rightarrow> u64 \<Rightarrow> string \<Rightarrow> 'v list \<Rightarrow> u64 \<times> string \<times> bytes" where
  "encode_all h c m sq previous [] = (sq, previous, [])"
| "encode_all h c m sq previous (t # ts) =
     (let (line, dg) = encode h c m (sq + 1) previous t;
          (n, d, b) = encode_all h c m (sq + 1) dg ts
      in (n, d, line @ b))"

definition retired :: "Manifest \<Rightarrow> u64 \<Rightarrow> Manifest" where
  "retired m e = m\<lparr>mf_epoch := e, mf_sequence := 0, mf_length := 0, mf_digest := ZERO,
     mf_segments := map_option (\<lambda>s. s\<lparr>sg_sealed := []\<rparr>) (mf_segments m)\<rparr>"

definition Journal_privacy :: "host \<Rightarrow> 'v codec \<Rightarrow> 'v list \<Rightarrow> 'v Journal \<Rightarrow> 'v Journal fsop" where
  "Journal_privacy h c ts j =
     (let m = j_manifest j in
      c_bind (with_files (\<lambda>_. ok_or corrupt (checked_add (mf_epoch m) 1))) (\<lambda>e.
      let (sq, dg, b) = encode_all h c (retired m e) 0 ZERO ts;
          next1 = (retired m e)\<lparr>mf_sequence := sq, mf_digest := dg, mf_length := of_nat (length b)\<rparr>
      in
      c_bind (c_get (\<lambda>w. node_exists (d_next (w_files w))) (\<lambda>x.
        if x then remove_file d_next put_next else c_return ())) (\<lambda>_.
      c_bind (write_synced d_next put_next b) (\<lambda>_.
      c_bind (atomic_json h d_privacy put_privacy
        \<lparr>pi_before = m, pi_after = next1, replacement_digest = journal_hash h b\<rparr>) (\<lambda>_.
      c_bind (c_map_err (\<lambda>_. UnknownCommit) (recover_privacy h c m)) (\<lambda>after.
      c_return \<lparr>j_manifest = after, j_transactions = ts, j_content = b\<rparr>))))))"


section \<open>Resuming\<close>

definition extends_observed :: "host \<Rightarrow> 'v codec \<Rightarrow> Manifest \<Rightarrow> 'v list \<Rightarrow> Manifest \<Rightarrow> bool" where
  "extends_observed h c m ts observed =
     (if mf_store observed \<noteq> mf_store m \<or> mf_epoch observed \<noteq> mf_epoch m \<or> mf_sequence observed > mf_sequence m then False
      else fst (snd (encode_all h c m 0 ZERO (take (unat (mf_sequence observed)) ts))) = mf_digest observed)"

definition pending_intent_exists :: "Files \<Rightarrow> bool" where
  "pending_intent_exists f = (d_append f \<noteq> Missing \<or> d_privacy f \<noteq> Missing)"

definition same_segments :: "Manifest \<Rightarrow> Manifest \<Rightarrow> bool" where
  "same_segments m observed =
     (let held = length (sealed observed) in
      seal_at m = seal_at observed \<and> held \<le> length (sealed m) \<and> take held (sealed m) = sealed observed \<and>
      (held < length (sealed m) \<longrightarrow> active_length observed \<le> sealed m ! held))"

text \<open>
  One file of the committed history: \<open>None\<close> where the complete opener has to decide. The kept bytes
  still to be matched are \<open>kept\<close>; \<open>vouched\<close> says whether the stamp kept for the file still matches.
\<close>

definition resume_file ::
  "bool \<Rightarrow> bool \<Rightarrow> bytes node \<Rightarrow> u64 \<Rightarrow> u64 \<Rightarrow> bytes \<Rightarrow> (bytes \<times> bytes) option res" where
  "resume_file is_sealed vouched n committed verified kept =
     andthen (read_node n) (\<lambda>b.
       if vouched \<and> verified = committed then Inr (Some (drop (unat verified) kept, []))
       else if take (unat verified) b \<noteq> take (unat verified) kept then Inr None
       else andthen (ok_or corrupt (checked_add (committed - verified) 1)) (\<lambda>rest.
         let tail = take (unat rest) (drop (unat verified) b) in
         if of_nat (length tail) \<noteq> committed - verified then Inr None
         else if is_sealed \<and> committed - verified > 0 \<and> last tail \<noteq> newline then Inr None
         else Inr (Some (drop (unat verified) kept, tail))))"

primrec resume_files ::
  "(nat \<Rightarrow> bool) \<Rightarrow> Manifest \<Rightarrow> Manifest \<Rightarrow> Files \<Rightarrow> nat list \<Rightarrow> bytes \<Rightarrow> bytes \<Rightarrow> bytes option res" where
  "resume_files vouched m observed f [] kept tail = Inr (Some tail)"
| "resume_files vouched m observed f (i # is) kept tail =
     (let is_sealed = (i < length (sealed m)); held = length (sealed observed);
          n = (if is_sealed then segment f i else d_events f);
          committed = (if is_sealed then sealed m ! i else active_length m);
          verified = (if i < held then sealed observed ! i else if i = held then active_length observed else 0)
      in andthen (resume_file is_sealed (i \<le> held \<and> vouched i) n committed verified kept) (\<lambda>r. case r of
           None \<Rightarrow> Inr None
         | Some (kept', gained) \<Rightarrow> resume_files vouched m observed f is kept' (tail @ gained)))"

definition resumed_committed ::
  "host \<Rightarrow> 'v codec \<Rightarrow> (nat \<Rightarrow> bool) \<Rightarrow> Manifest \<Rightarrow> bytes \<Rightarrow> Files \<Rightarrow> (Manifest \<times> 'v list \<times> bytes) option res" where
  "resumed_committed h c vouched observed content f =
     (if pending_intent_exists f \<or> \<not> node_exists (d_manifest f) then Inr None
      else andthen (read_doc (d_manifest f)) (\<lambda>m.
        if \<not> known m then Inl corrupt
        else if mf_format m \<noteq> mf_format observed \<or> mf_store m \<noteq> mf_store observed \<or> mf_epoch m \<noteq> mf_epoch observed \<or>
           mf_sequence m < mf_sequence observed \<or> mf_length m < mf_length observed \<or>
           of_nat (length content) \<noteq> mf_length observed \<or> \<not> same_segments m observed then Inr None
        else andthen (if sealed m = [] then Inr True else segments_physical f) (\<lambda>ok.
          if \<not> ok then Inl corrupt
          else andthen (unexplained_segments m f) (\<lambda>u. if u then Inr None else
            andthen (read_node (d_events f)) (\<lambda>b.
              if of_nat (length b) \<noteq> active_length m then Inr None
              else andthen (resume_files vouched m observed f [0..<Suc (length (sealed m))] content []) (\<lambda>r. case r of
                None \<Rightarrow> Inr None
              | Some tail \<Rightarrow> (case decode_chain h c tail m (mf_sequence observed) (mf_digest observed) of
                  Inl _ \<Rightarrow> Inr None
                | Inr fresh \<Rightarrow> Inr (Some (m, fresh, content @ tail)))))))))"

definition Journal_resume ::
  "host \<Rightarrow> 'v codec \<Rightarrow> (nat \<Rightarrow> bool) \<Rightarrow> Manifest \<Rightarrow> bytes \<Rightarrow> (Manifest \<times> 'v list \<times> bytes) option fsop" where
  "Journal_resume h c vouched observed content =
     c_bind (with_files (\<lambda>f. case d_root f of NoRoot \<Rightarrow> Inl io_error | RootLink \<Rightarrow> Inl corrupt | RootDir \<Rightarrow> regular (d_lock f))) (\<lambda>_.
     c_bind (with_files (resumed_committed h c vouched observed content)) (\<lambda>r. case r of
       None \<Rightarrow> c_return None
     | Some x \<Rightarrow> c_bind sweep_unselected (\<lambda>_. c_return (Some x))))"

definition into_journal :: "Manifest \<times> 'v list \<times> bytes \<Rightarrow> 'v list \<Rightarrow> 'v Journal" where
  "into_journal r ts = (case r of (m, fresh, content) \<Rightarrow>
     \<lparr>j_manifest = m, j_transactions = ts @ fresh, j_content = content\<rparr>)"

end
