(* ===== verification/JournalChain.thy ===== *)
theory JournalChain
  imports Journal
begin

text \<open>
  The digest chain of the journal: what was encoded decodes to the same transactions, a digest
  names its whole history, and the test \<open>extends_observed\<close> decides whether a history continues the
  one a handle observed.
\<close>

section \<open>Lines\<close>

lemma split_lines_Nil [simp]: "split_lines [] = []"
  by (simp add: split_lines.simps)

lemma split_lines_line:
  assumes "newline \<notin> set l"
  shows "split_lines (l @ newline # rest) = (l @ [newline]) # split_lines rest"
proof -
  have "takeWhile (\<lambda>x. x \<noteq> newline) (l @ newline # rest) = l" "dropWhile (\<lambda>x. x \<noteq> newline) (l @ newline # rest) = newline # rest"
    using assms by (auto simp: takeWhile_append dropWhile_append)
  then show ?thesis by (subst split_lines.simps) simp
qed

lemma split_lines_append:
  "b = [] \<or> last b = newline \<Longrightarrow> split_lines (b @ x) = split_lines b @ split_lines x"
proof (induction "length b" arbitrary: b rule: less_induct)
  case less
  show ?case
  proof (cases "b = []")
    case False
    then have "newline \<in> set b" using less.prems last_in_set by metis
    then obtain l rest where b: "b = l @ newline # rest" "newline \<notin> set l" using split_list_first by metis
    have "rest = [] \<or> last rest = newline" using less.prems b by (auto split: if_splits)
    then have "split_lines (rest @ x) = split_lines rest @ split_lines x" using b by (intro less.hyps) auto
    then show ?thesis using b by (simp add: split_lines_line)
  qed simp
qed


section \<open>Frames\<close>

text \<open>What the journal relies on in the JSON library for a frame: one line that parses back.\<close>

definition reads_back :: "'v codec \<Rightarrow> 'v Frame \<Rightarrow> bool" where
  "reads_back c f \<longleftrightarrow> newline \<notin> set (frame_text c f) \<and> frame_parse c (frame_text c f @ [newline]) = Some f"

definition full_frame :: "host \<Rightarrow> 'v codec \<Rightarrow> Manifest \<Rightarrow> u64 \<Rightarrow> string \<Rightarrow> 'v \<Rightarrow> 'v Frame" where
  "full_frame h c m sq previous t =
     (plain_frame m sq previous t)\<lparr>fr_digest := journal_hash h (frame_text c (plain_frame m sq previous t))\<rparr>"

lemma encode_eq:
  "encode h c m sq previous t =
     (frame_text c (full_frame h c m sq previous t) @ [newline], fr_digest (full_frame h c m sq previous t))"
  by (simp add: encode_def full_frame_def Let_def)

primrec chain_reads :: "host \<Rightarrow> 'v codec \<Rightarrow> Manifest \<Rightarrow> u64 \<Rightarrow> string \<Rightarrow> 'v list \<Rightarrow> bool" where
  "chain_reads h c m sq previous [] = True"
| "chain_reads h c m sq previous (t # ts) = (reads_back c (full_frame h c m (sq + 1) previous t) \<and>
     chain_reads h c m (sq + 1) (snd (encode h c m (sq + 1) previous t)) ts)"

text \<open>The part of a manifest every frame repeats.\<close>

definition identity :: "Manifest \<Rightarrow> string \<times> string \<times> u64" where
  "identity m = (mf_format m, mf_store m, mf_epoch m)"

lemma plain_frame_cong: "identity m = identity m' \<Longrightarrow> plain_frame m sq p t = plain_frame m' sq p t"
  by (simp add: identity_def plain_frame_def)

lemma encode_cong: "identity m = identity m' \<Longrightarrow> encode h c m sq p t = encode h c m' sq p t"
  by (simp add: encode_def plain_frame_cong[of m m'])

lemma encode_all_cong: "identity m = identity m' \<Longrightarrow> encode_all h c m sq p ts = encode_all h c m' sq p ts"
  by (induction ts arbitrary: sq p) (simp_all add: encode_cong[of m m'])

lemma decode_frames_cong: "identity m = identity m' \<Longrightarrow> decode_frames h c m sq p ls = decode_frames h c m' sq p ls"
  by (induction ls arbitrary: sq p) (simp_all add: identity_def cong: if_cong)

lemma andthen_assoc: "andthen (andthen m f) g = andthen m (\<lambda>x. andthen (f x) g)"
  by (cases m) simp_all

lemma if_andthen: "andthen (if b then x else y) f = (if b then andthen x f else andthen y f)"
  by simp

lemma decode_frames_append:
  "decode_frames h c m sq p (xs @ ys) = andthen (decode_frames h c m sq p xs) (\<lambda>(n, d, ts).
     andthen (decode_frames h c m n d ys) (\<lambda>(n', d', ts'). Inr (n', d', ts @ ts')))"
proof (induction xs arbitrary: sq p)
  case Nil
  show ?case by (cases "decode_frames h c m sq p ys") auto
next
  case (Cons x xs)
  show ?case
    unfolding append_Cons decode_frames.simps andthen_assoc if_andthen andthen_simps Cons
    by (simp add: split_def andthen_assoc cong: if_cong)
qed

lemma decode_one:
  assumes "reads_back c (full_frame h c m sq' p t)" and "checked_add sq 1 = Some sq'"
  shows "decode_frames h c m sq p [fst (encode h c m sq' p t)] = Inr (sq', snd (encode h c m sq' p t), [t])"
  using assms by (simp add: reads_back_def encode_eq full_frame_def plain_frame_def)

lemma checked_add_1: "unat sq + 1 < 2 ^ 64 \<Longrightarrow> checked_add sq 1 = Some (sq + 1)" for sq :: u64
  by (simp add: checked_add_def)

lemma encode_all_decodes:
  assumes "encode_all h c m sq p ts = (n, d, b)" and "chain_reads h c m sq p ts" and "unat sq + length ts < 2 ^ 64"
  shows "decode_frames h c m sq p (split_lines b) = Inr (n, d, ts)" and "b = [] \<or> last b = newline" and "unat n = unat sq + length ts"
proof -
  have "decode_frames h c m sq p (split_lines b) = Inr (n, d, ts) \<and> (b = [] \<or> last b = newline) \<and> unat n = unat sq + length ts"
    using assms
  proof (induction ts arbitrary: sq p n d b)
    case (Cons t ts)
    let ?f = "full_frame h c m (sq + 1) p t"
    obtain b' where rest: "encode_all h c m (sq + 1) (fr_digest ?f) ts = (n, d, b')" and b: "b = frame_text c ?f @ newline # b'"
      using Cons.prems(1) by (auto simp: encode_eq split: prod.splits)
    have step: "checked_add sq 1 = Some (sq + 1)" using Cons.prems(3) by (intro checked_add_1) simp
    then have sq: "unat (sq + 1) = unat sq + 1" using checked_add_SomeD by fastforce
    have f: "reads_back c ?f" and "chain_reads h c m (sq + 1) (fr_digest ?f) ts" using Cons.prems(2) by (simp_all add: encode_eq)
    from Cons.IH[OF rest this(2)] sq Cons.prems(3)
    have ih: "decode_frames h c m (sq + 1) (fr_digest ?f) (split_lines b') = Inr (n, d, ts)" "b' = [] \<or> last b' = newline"
      "unat n = unat sq + length (t # ts)" by auto
    have "split_lines b = [frame_text c ?f @ [newline]] @ split_lines b'"
      using f by (simp add: b split_lines_line reads_back_def)
    moreover have "decode_frames h c m sq p [frame_text c ?f @ [newline]] = Inr (sq + 1, fr_digest ?f, [t])"
      using decode_one[OF f step] by (simp add: encode_eq)
    ultimately have "decode_frames h c m sq p (split_lines b) = Inr (n, d, t # ts)"
      using ih(1) decode_frames_append[of h c m sq p "[frame_text c ?f @ [newline]]" "split_lines b'"]
      by (simp del: decode_frames.simps)
    then show ?case using ih(2,3) by (auto simp: b)
  qed simp
  then show "decode_frames h c m sq p (split_lines b) = Inr (n, d, ts)" "b = [] \<or> last b = newline" "unat n = unat sq + length ts"
    by blast+
qed

lemma decode_Inr_iff:
  "decode h c b m = Inr ts \<longleftrightarrow> of_nat (length b) = mf_length m \<and> (b = [] \<or> last b = newline) \<and>
     decode_frames h c m 0 ZERO (split_lines b) = Inr (mf_sequence m, mf_digest m, ts)"
  by (auto simp: decode_def decode_chain_def andthen_Inr_iff split: if_splits)

text \<open>A frame appended to a history that decodes decodes with it.\<close>

lemma decode_append:
  assumes "decode h c b m = Inr ts" and "checked_add (mf_sequence m) 1 = Some sq"
    and "reads_back c (full_frame h c m sq (mf_digest m) t)" and "encode h c m sq (mf_digest m) t = (line, dg)"
    and "identity m' = identity m" and "mf_sequence m' = sq" and "mf_digest m' = dg" and "mf_length m' = of_nat (length (b @ line))"
  shows "decode h c (b @ line) m' = Inr (ts @ [t])"
proof -
  have line: "line = frame_text c (full_frame h c m sq (mf_digest m) t) @ [newline]" and dg: "dg = snd (encode h c m sq (mf_digest m) t)"
    using assms(4) by (simp_all add: encode_eq)
  have "split_lines line = [line]" using assms(3) by (simp add: line split_lines_line reads_back_def)
  then have "split_lines (b @ line) = split_lines b @ [fst (encode h c m sq (mf_digest m) t)]"
    using assms(1,4) by (simp add: decode_Inr_iff split_lines_append)
  moreover have "decode_frames h c m 0 ZERO (split_lines b) = Inr (mf_sequence m, mf_digest m, ts)"
    using assms(1) by (simp add: decode_Inr_iff)
  ultimately have "decode_frames h c m 0 ZERO (split_lines (b @ line)) = Inr (sq, dg, ts @ [t])"
    using decode_one[OF assms(3,2)] dg by (simp add: decode_frames_append)
  then show ?thesis
    using assms(6-8) line by (simp add: decode_Inr_iff decode_frames_cong[OF assms(5)])
qed

lemma encoded_decodes:
  assumes "encode_all h c m 0 ZERO ts = (sq, dg, b)" and "chain_reads h c m 0 ZERO ts" and "length ts < 2 ^ 64"
    and "identity m1 = identity m" and "mf_sequence m1 = sq" and "mf_digest m1 = dg" and "mf_length m1 = of_nat (length b)"
  shows "decode h c b m1 = Inr ts"
  using encode_all_decodes[OF assms(1,2)] assms(3,5-7) by (auto simp: decode_Inr_iff decode_frames_cong[OF assms(4)])

text \<open>
  C22. What the journal writes it reads back: the bytes of an encoded history decode, under the manifest
  that commits them, to exactly the transactions that were encoded, for every history whose frames the
  JSON library can read back.
\<close>

theorem journal_roundtrip:
  assumes "encode_all h c m 0 ZERO ts = (sq, dg, b)" and "chain_reads h c m 0 ZERO ts" and "length ts < 2 ^ 64"
  shows "decode h c b (m\<lparr>mf_sequence := sq, mf_digest := dg, mf_length := of_nat (length b)\<rparr>) = Inr ts"
  by (rule encoded_decodes[OF assms]) (simp_all add: identity_def)


section \<open>A digest names its history\<close>

primrec plain_frames :: "host \<Rightarrow> 'v codec \<Rightarrow> Manifest \<Rightarrow> u64 \<Rightarrow> string \<Rightarrow> 'v list \<Rightarrow> 'v Frame list" where
  "plain_frames h c m sq p [] = []"
| "plain_frames h c m sq p (t # ts) = plain_frame m (sq + 1) p t # plain_frames h c m (sq + 1) (snd (encode h c m (sq + 1) p t)) ts"

text \<open>SHA-256 has no collision among the frames of the histories in play.\<close>

definition collision_free :: "host \<Rightarrow> 'v codec \<Rightarrow> 'v Frame list \<Rightarrow> bool" where
  "collision_free h c fs \<longleftrightarrow> inj_on (\<lambda>f. journal_hash h (frame_text c f)) (set fs)"

definition chain_digest :: "host \<Rightarrow> 'v codec \<Rightarrow> Manifest \<Rightarrow> u64 \<Rightarrow> string \<Rightarrow> 'v list \<Rightarrow> string" where
  "chain_digest h c m sq p ts = fst (snd (encode_all h c m sq p ts))"

lemma encode_digest: "snd (encode h c m sq p t) = journal_hash h (frame_text c (plain_frame m sq p t))"
  by (simp add: encode_def Let_def)

lemma chain_simps [simp]:
  "chain_digest h c m sq p [] = p"
  "chain_digest h c m sq p (t # ts) = chain_digest h c m (sq + 1) (snd (encode h c m (sq + 1) p t)) ts"
  by (simp_all add: chain_digest_def split: prod.splits)

lemma chain_snoc:
  "chain_digest h c m sq p (ts @ [t]) =
     journal_hash h (frame_text c (plain_frame m (sq + of_nat (length ts) + 1) (chain_digest h c m sq p ts) t))"
  "plain_frames h c m sq p (ts @ [t]) =
     plain_frames h c m sq p ts @ [plain_frame m (sq + of_nat (length ts) + 1) (chain_digest h c m sq p ts) t]"
  by (induction ts arbitrary: sq p) (simp_all add: encode_digest add.assoc add.commute add.left_commute)

lemma plain_frame_eqD: "plain_frame m sq p t = plain_frame m sq p' t' \<Longrightarrow> p = p' \<and> t = t'"
  by (simp add: plain_frame_def)

lemma digest_names_history:
  assumes "length ts = length ts'" and "chain_digest h c m sq p ts = chain_digest h c m sq p ts'"
    and "collision_free h c (plain_frames h c m sq p ts @ plain_frames h c m sq p ts')"
  shows "ts = ts'"
  using assms
proof (induction ts arbitrary: ts' rule: rev_induct)
  case (snoc t ts)
  then obtain us u where ts': "ts' = us @ [u]" "length us = length ts" by (metis length_append_singleton length_Suc_conv_rev)
  let ?f = "plain_frame m (sq + of_nat (length ts) + 1) (chain_digest h c m sq p ts) t"
  let ?g = "plain_frame m (sq + of_nat (length ts) + 1) (chain_digest h c m sq p us) u"
  have "?f = ?g"
    using snoc.prems(2,3) ts' by (auto simp: collision_free_def chain_snoc dest!: inj_onD)
  then have eq: "chain_digest h c m sq p ts = chain_digest h c m sq p us" "t = u" by (auto dest: plain_frame_eqD)
  have "collision_free h c (plain_frames h c m sq p ts @ plain_frames h c m sq p us)"
    using snoc.prems(3) ts' by (auto simp: collision_free_def chain_snoc intro: inj_on_subset)
  then show ?case using snoc.IH[of us] eq ts' by simp
qed simp

text \<open>Every history that decodes is one the encoder writes: its digest is that of its transactions.\<close>

lemma frame_determined:
  assumes "fr_format f = mf_format m" and "fr_store f = mf_store m" and "fr_epoch f = mf_epoch m" and "fr_sequence f = sq"
    and "fr_previous f = p"
  shows "f\<lparr>fr_digest := []\<rparr> = plain_frame m sq p (fr_transaction f)"
  using assms by (cases f) (simp add: plain_frame_def)

lemma decode_frames_chain:
  "decode_frames h c m sq p ls = Inr (n, d, ts) \<Longrightarrow> d = chain_digest h c m sq p ts \<and> unat n = unat sq + length ts"
proof (induction ls arbitrary: sq p n d ts)
  case (Cons l ls)
  obtain f sq' ts' where f: "frame_parse c l = Some f" and sq': "checked_add sq 1 = Some sq'"
    and eqs: "fr_format f = mf_format m" "fr_store f = mf_store m" "fr_epoch f = mf_epoch m" "fr_sequence f = sq'" "fr_previous f = p"
    and dg: "journal_hash h (frame_text c (f\<lparr>fr_digest := []\<rparr>)) = fr_digest f"
    and rest: "decode_frames h c m sq' (fr_digest f) ls = Inr (n, d, ts')" and ts: "ts = fr_transaction f # ts'"
    using Cons.prems by (auto simp: andthen_Inr_iff ok_or_def split: option.splits if_splits)
  have "sq' = sq + 1" using sq' by (simp add: checked_add_def split: if_splits)
  moreover have "unat sq' = unat sq + 1" using checked_add_SomeD[OF sq'] by simp
  ultimately show ?case
    using Cons.IH[OF rest] dg[unfolded frame_determined[OF eqs]] by (simp add: ts encode_digest)
qed simp

lemma decode_digest:
  assumes "decode h c b m = Inr ts"
  shows "mf_digest m = chain_digest h c m 0 ZERO ts" and "unat (mf_sequence m) = length ts"
  using assms decode_frames_chain[of h c m 0 ZERO "split_lines b"] by (auto simp: decode_Inr_iff)

lemma chain_digest_cong: "identity m = identity m' \<Longrightarrow> chain_digest h c m sq p ts = chain_digest h c m' sq p ts"
  by (simp add: chain_digest_def encode_all_cong[of m m'])

text \<open>
  C21. The check a handle makes before it serves or extends a history, on digests, is the one the store
  means, on histories: for manifests that commit histories of one format, \<open>extends_observed\<close> answers
  whether the observed history is a prefix of the committed one in the same store and epoch.
\<close>

theorem extends_observed_is_prefix:
  assumes "decode h c b m = Inr ts" and "decode h c b' observed = Inr ts'" and "mf_format observed = mf_format m"
    and "collision_free h c (plain_frames h c m 0 ZERO (take (length ts') ts) @ plain_frames h c m 0 ZERO ts')"
  shows "extends_observed h c m ts observed \<longleftrightarrow>
    extends \<lparr>hd_store = mf_store m, hd_epoch = mf_epoch m, hd_log = ts\<rparr>
      \<lparr>hd_store = mf_store observed, hd_epoch = mf_epoch observed, hd_log = ts'\<rparr>"
proof (cases "mf_store observed = mf_store m \<and> mf_epoch observed = mf_epoch m \<and> length ts' \<le> length ts")
  case True
  have len: "unat (mf_sequence m) = length ts" "unat (mf_sequence observed) = length ts'"
    using decode_digest(2) assms(1,2) by blast+
  have "identity observed = identity m" using True assms(3) by (simp add: identity_def)
  then have dg: "mf_digest observed = chain_digest h c m 0 ZERO ts'"
    using decode_digest(1)[OF assms(2)] chain_digest_cong by metis
  have "\<not> mf_sequence m < mf_sequence observed" using True len by (simp add: word_less_nat_alt)
  then have "extends_observed h c m ts observed \<longleftrightarrow> chain_digest h c m 0 ZERO (take (length ts') ts) = chain_digest h c m 0 ZERO ts'"
    using True len dg by (simp add: extends_observed_def chain_digest_def)
  also have "\<dots> \<longleftrightarrow> take (length ts') ts = ts'"
    using digest_names_history[OF _ _ assms(4)] True by auto
  also have "\<dots> \<longleftrightarrow> prefix ts' ts" by (metis append_eq_conv_conj append_take_drop_id prefix_def)
  finally show ?thesis using True by (simp add: extends_def)
next
  case False
  have len: "unat (mf_sequence m) = length ts" "unat (mf_sequence observed) = length ts'"
    using decode_digest(2) assms(1,2) by blast+
  show ?thesis
  proof (cases "mf_store observed = mf_store m \<and> mf_epoch observed = mf_epoch m")
    case True
    then have "length ts < length ts'" using False by simp
    then have "mf_sequence m < mf_sequence observed" "\<not> prefix ts' ts"
      using len by (auto simp: word_less_nat_alt dest: prefix_length_le)
    then show ?thesis by (simp add: extends_observed_def extends_def)
  qed (auto simp: extends_observed_def extends_def)
qed



section \<open>A sample codec\<close>

text \<open>
  A frame's text is its place in a table of plain frames, as one byte, and its digest.
\<close>

definition sample_codec :: "'v Frame list \<Rightarrow> 'v codec" where
  "sample_codec fs = \<lparr>
     frame_text = (\<lambda>f. of_nat (32 + length (takeWhile (\<lambda>g. g \<noteq> f\<lparr>fr_digest := []\<rparr>) fs)) # as_bytes (fr_digest f)),
     frame_parse = (\<lambda>b. case b of [] \<Rightarrow> None
       | x # r \<Rightarrow> if 32 \<le> unat x \<and> unat x - 32 < length fs
           then Some ((fs ! (unat x - 32))\<lparr>fr_digest := map (\<lambda>y. char_of (unat y)) (butlast r)\<rparr>) else None)\<rparr>"

lemma chars_as_bytes [simp]: "map (\<lambda>y. char_of (unat y)) (as_bytes s) = s"
  unfolding as_bytes_def map_map comp_def unat_of_char char_of_char by simp

lemma newline_hex: "newline \<notin> set (as_bytes (hex b))"
proof -
  have d: "of_char (digit n) \<noteq> newline" if "n < 16" for n
  proof
    assume "of_char (digit n) = newline"
    then have "unat (of_char (digit n) :: byte) = 10" by (simp add: newline_def)
    then show False using that of_char_digit[of n] unfolding unat_of_char by (simp split: if_splits)
  qed
  have u: "unat (x :: byte) div 16 < 16" "unat x mod 16 < 16" for x using unsigned_less[of x, where ?'a = nat] by (simp_all add: div_less_iff_less_mult)
  have "of_char x \<noteq> newline" if "x \<in> set (hex b)" for x
  proof -
    have "\<exists>y. x = digit (unat (y :: byte) div 16) \<or> x = digit (unat y mod 16)" using that by (simp add: hex_def) blast
    then show ?thesis using d[OF u(1)] d[OF u(2)] by (elim exE disjE) simp_all
  qed
  then show ?thesis unfolding as_bytes_def set_map by (metis imageE)
qed

lemma first_place: "x \<in> set fs \<Longrightarrow> length (takeWhile (\<lambda>g. g \<noteq> x) fs) < length fs \<and> fs ! length (takeWhile (\<lambda>g. g \<noteq> x) fs) = x"
  by (induction fs) auto

lemma sample_reads_back:
  assumes "f\<lparr>fr_digest := []\<rparr> \<in> set fs" and "length fs \<le> 100" and "fr_digest f = hex x"
  shows "reads_back (sample_codec fs) f"
proof -
  let ?i = "length (takeWhile (\<lambda>g. g \<noteq> f\<lparr>fr_digest := []\<rparr>) fs)"
  have i: "?i < length fs" "fs ! ?i = f\<lparr>fr_digest := []\<rparr>"
    using first_place[OF assms(1)] by simp_all
  then have u: "unat (of_nat (32 + ?i) :: byte) = 32 + ?i" using assms(2) by (intro unat_of_nat_small) simp
  moreover have "unat newline = 10" by (simp add: newline_def)
  ultimately have "unat (of_nat (32 + ?i) :: byte) \<noteq> unat newline" by simp
  then have "of_nat (32 + ?i) \<noteq> newline" by (rule contrapos_nn) (rule arg_cong)
  then show ?thesis using i u newline_hex[of x] assms(3)
    by (simp add: reads_back_def sample_codec_def del: of_nat_add)
qed

lemma sample_chain_reads:
  "set (plain_frames h (sample_codec fs) m sq p ts) \<subseteq> set fs \<Longrightarrow> length fs \<le> 100 \<Longrightarrow> chain_reads h (sample_codec fs) m sq p ts"
proof (induction ts arbitrary: sq p)
  case (Cons t ts)
  have "reads_back (sample_codec fs) (full_frame h (sample_codec fs) m (sq + 1) p t)"
    by (rule sample_reads_back[where x = "sha256 h (frame_text (sample_codec fs) (plain_frame m (sq + 1) p t))"])
      (use Cons.prems in \<open>simp_all add: full_frame_def plain_frame_def journal_hash_def\<close>)
  then show ?case using Cons by simp
qed simp

definition sample_manifest :: Manifest where
  "sample_manifest = first_manifest (SEGMENTED_FORMAT, Some \<lparr>sg_seal_at = 1, sg_sealed = []\<rparr>) ''s''"

definition sample_frames :: "transaction Frame list" where
  "sample_frames = [plain_frame sample_manifest 1 ZERO (TxOther ''a''),
     plain_frame sample_manifest 2 (journal_hash sample_host [32]) (TxOther ''b''), plain_frame sample_manifest 1 ZERO (TxOther ''c''),
     plain_frame (retired sample_manifest 1) 1 ZERO (TxOther ''c'')]"

lemma sample_text:
  "frame_text (sample_codec sample_frames) (plain_frame sample_manifest 1 ZERO (TxOther ''a'')) = [32]"
  "frame_text (sample_codec sample_frames) (plain_frame sample_manifest 1 ZERO (TxOther ''c'')) = [34]"
  by (simp_all add: sample_codec_def sample_frames_def plain_frame_def)

lemma sample_encode:
  "encode sample_host (sample_codec sample_frames) sample_manifest 1 ZERO (TxOther ''a'') =
     (32 # as_bytes (journal_hash sample_host [32]) @ [newline], journal_hash sample_host [32])"
  "encode sample_host (sample_codec sample_frames) sample_manifest 2 (journal_hash sample_host [32]) (TxOther ''b'') =
     (33 # as_bytes (journal_hash sample_host [33]) @ [newline], journal_hash sample_host [33])"
  "encode sample_host (sample_codec sample_frames) sample_manifest 1 ZERO (TxOther ''c'') =
     (34 # as_bytes (journal_hash sample_host [34]) @ [newline], journal_hash sample_host [34])"
  by (simp_all add: encode_def sample_codec_def sample_frames_def plain_frame_def Let_def)

lemma sample_plain:
  "plain_frame sample_manifest 1 ZERO (TxOther ''a'') \<in> set sample_frames" "plain_frame sample_manifest 1 ZERO (TxOther ''c'') \<in> set sample_frames"
  "plain_frame sample_manifest 2 (journal_hash sample_host [32]) (TxOther ''b'') \<in> set sample_frames" "length sample_frames \<le> 100"
  by (simp_all add: sample_frames_def)

lemma sample_reads:
  "chain_reads sample_host (sample_codec sample_frames) sample_manifest 0 ZERO [TxOther ''a'', TxOther ''b'']"
  "chain_reads sample_host (sample_codec sample_frames) sample_manifest 0 ZERO [TxOther ''a'']"
  "chain_reads sample_host (sample_codec sample_frames) sample_manifest 0 ZERO [TxOther ''c'']"
  by (auto simp del: chain_reads.simps intro!: sample_chain_reads simp: sample_encode sample_plain)

definition sample_head :: "transaction list \<Rightarrow> Manifest \<times> bytes" where
  "sample_head ts = (case encode_all sample_host (sample_codec sample_frames) sample_manifest 0 ZERO ts of
     (sq, dg, b) \<Rightarrow> (sample_manifest\<lparr>mf_sequence := sq, mf_digest := dg, mf_length := of_nat (length b)\<rparr>, b))"

lemma sample_decodes:
  assumes "chain_reads sample_host (sample_codec sample_frames) sample_manifest 0 ZERO ts" and "length ts < 2 ^ 64"
  shows "decode sample_host (sample_codec sample_frames) (snd (sample_head ts)) (fst (sample_head ts)) = Inr ts"
proof -
  obtain sq dg b where e: "encode_all sample_host (sample_codec sample_frames) sample_manifest 0 ZERO ts = (sq, dg, b)"
    by (cases "encode_all sample_host (sample_codec sample_frames) sample_manifest 0 ZERO ts") auto
  then show ?thesis by (intro encoded_decodes[OF _ assms]) (simp_all add: sample_head_def identity_def)
qed

theorem journal_roundtrip_witness:
  "\<exists>sq dg b. encode_all sample_host (sample_codec sample_frames) sample_manifest 0 ZERO [TxOther ''a'', TxOther ''b''] = (sq, dg, b) \<and> b \<noteq> [] \<and>
     decode sample_host (sample_codec sample_frames) b
       (sample_manifest\<lparr>mf_sequence := sq, mf_digest := dg, mf_length := of_nat (length b)\<rparr>) = Inr [TxOther ''a'', TxOther ''b'']"
proof -
  obtain sq dg b where e: "encode_all sample_host (sample_codec sample_frames) sample_manifest 0 ZERO [TxOther ''a'', TxOther ''b''] = (sq, dg, b)"
    and b: "b \<noteq> []"
    by (simp add: sample_encode)
  show ?thesis using e b journal_roundtrip[OF e sample_reads(1)] by auto
qed

lemma sample_hashes: "journal_hash sample_host [32] \<noteq> journal_hash sample_host [34]"
  by code_simp

theorem extends_observed_is_prefix_witness:
  "\<not> extends_observed sample_host (sample_codec sample_frames) (fst (sample_head [TxOther ''a'', TxOther ''b''])) [TxOther ''a'', TxOther ''b'']
     (fst (sample_head [TxOther ''c'']))"
proof -
  let ?m = "fst (sample_head [TxOther ''a'', TxOther ''b''])" and ?o = "fst (sample_head [TxOther ''c''])"
  let ?c = "sample_codec sample_frames"
  have "identity ?m = identity sample_manifest" by (simp add: sample_head_def identity_def sample_encode)
  then have t: "frame_text ?c (plain_frame ?m 1 ZERO (TxOther ''a'')) = [32]" "frame_text ?c (plain_frame ?m 1 ZERO (TxOther ''c'')) = [34]"
    using sample_text by (simp_all only: plain_frame_cong[of ?m sample_manifest])
  have "collision_free sample_host ?c (plain_frames sample_host ?c ?m 0 ZERO (take (length [TxOther ''c'']) [TxOther ''a'', TxOther ''b'']) @
      plain_frames sample_host ?c ?m 0 ZERO [TxOther ''c''])"
    using sample_hashes by (auto simp: collision_free_def t)
  from extends_observed_is_prefix[OF sample_decodes[OF sample_reads(1)] sample_decodes[OF sample_reads(3)] _ this]
  show ?thesis by (simp add: extends_def sample_head_def sample_encode)
qed

end
