(* ===== verification/JournalDisk.thy ===== *)
theory JournalDisk
  imports JournalChain
begin

text \<open>
  Directories of the journal: the bytes and names on disk that make up a committed history
  (\<open>settled\<close>), what a run of the journal goes through (\<open>visits\<close>), and the parts every run shares:
  staging, reading a history back, sweeping.
\<close>

section \<open>Lengths\<close>

lemma sum_checked:
  assumes "try_fold (\<lambda>a l. ok_or () (checked_add a l)) a ls = Inr (n :: u64)"
  shows "unat n = unat a + sum_list (map unat ls)" and "foldl saturating_add a ls = n"
proof -
  have "unat n = unat a + sum_list (map unat ls) \<and> foldl saturating_add a ls = n" using assms
  proof (induction ls arbitrary: a)
    case (Cons l ls)
    from Cons.prems obtain b where b: "checked_add a l = Some b" and r: "try_fold (\<lambda>a l. ok_or () (checked_add a l)) b ls = Inr n"
      by (auto simp: andthen_Inr_iff ok_or_def split: option.splits)
    then show ?case using Cons.IH[OF r] checked_add_SomeD[OF b] by (simp add: saturating_add_def)
  qed simp
  then show "unat n = unat a + sum_list (map unat ls)" "foldl saturating_add a ls = n" by blast+
qed

lemma active_length_known:
  assumes "known m"
  shows "sum_list (map unat (sealed m)) + unat (active_length m) = unat (mf_length m)"
proof (cases "mf_segments m")
  case None
  then show ?thesis by (simp add: sealed_def active_length_def saturating_sub_def)
next
  case (Some s)
  then obtain n where n: "try_fold (\<lambda>a l. ok_or () (checked_add a l)) 0 (sg_sealed s) = Inr n" "n \<le> mf_length m"
    using assms by (auto simp: known_def split: sum.splits)
  then show ?thesis
    using sum_checked[OF n(1)] Some
    by (simp add: sealed_def active_length_def saturating_sub_def unat_sub word_le_nat_alt)
qed

lemma known_sealed:
  assumes "known m" and "seals m" and "unat (mf_length m) + n < 2 ^ 64" and "mf_length m' = mf_length m + of_nat n"
    and "mf_format m' = mf_format m"
    and "mf_segments m' = map_option (\<lambda>s. s\<lparr>sg_sealed := sg_sealed s @ [active_length m]\<rparr>) (mf_segments m)"
  shows "known m'"
proof -
  from assms(2) obtain s where s: "mf_segments m = Some s" "0 < active_length m" by (cases "mf_segments m") (auto simp: seals_def seal_at_def)
  then obtain k where k: "try_fold (\<lambda>a l. ok_or () (checked_add a l)) 0 (sg_sealed s) = Inr k"
    and all: "list_all (\<lambda>l. l > 0) (sg_sealed s)" "sg_seal_at s \<ge> 1" "mf_format m = SEGMENTED_FORMAT"
    using assms(1) by (auto simp: known_def split: sum.splits)
  have "unat k + unat (active_length m) = unat (mf_length m)"
    using active_length_known[OF assms(1)] sum_checked(1)[OF k] s(1) by (simp add: sealed_def)
  then have "checked_add k (active_length m) = Some (mf_length m)" by (simp add: checked_add_Some_iff)
  moreover have "mf_length m \<le> mf_length m'"
    using assms(3) by (simp add: assms(4) word_le_nat_alt unat_word_ariths unat_of_nat_small)
  ultimately show ?thesis using s k all assms(5,6) by (simp add: known_def try_fold_append)
qed

section \<open>Segments on disk\<close>

lemma explained_name: "i < n \<Longrightarrow> i < 10 ^ 10 \<Longrightarrow> explained n (segment_name i)"
  by (simp add: explained_def strip_suffix_def segment_name_def length_pad pad_digits)

lemma segment_name_inj [simp]: "segment_name i = segment_name j \<longleftrightarrow> i = j"
  by (simp add: segment_name_def)

text \<open>The sealed segments hold \<open>segs\<close>, and \<open>segments/\<close> has no name of an index from \<open>n\<close> on.\<close>

definition holds_segments :: "Manifest \<Rightarrow> bytes list \<Rightarrow> Files \<Rightarrow> bool" where
  "holds_segments m segs f \<longleftrightarrow> length segs = length (sealed m) \<and>
     (\<forall>i < length segs. segment f i = Regular (segs ! i) \<and> length (segs ! i) = unat (sealed m ! i) \<and>
        segs ! i \<noteq> [] \<and> last (segs ! i) = newline) \<and> (segs \<noteq> [] \<longrightarrow> (\<exists>es. d_segments f = SegmentDir es))"

definition named_below :: "nat \<Rightarrow> Files \<Rightarrow> bool" where
  "named_below n f \<longleftrightarrow> d_segments f \<noteq> OtherSegments \<and> fst ` set (segment_entries f) \<subseteq> segment_name ` {..<n} \<and>
     (\<forall>e \<in> set (segment_entries f). snd e \<noteq> Missing)"

lemma read_segments_run:
  assumes "\<forall>j < length ls. \<exists>b. segment f (i + j) = Regular b \<and> segs ! j = b \<and> length b = unat (ls ! j) \<and> b \<noteq> [] \<and> last b = newline"
    and "length segs = length ls" and "\<forall>l \<in> set ls. unat l + 1 < 2 ^ 64"
  shows "read_segments f i into ls = Inr (into @ concat segs)"
  using assms
proof (induction ls arbitrary: i into segs)
  case (Cons l ls)
  obtain b bs where segs: "segs = b # bs" using Cons.prems(2) by (cases segs) auto
  have b: "segment f i = Regular b" "length b = unat l" "b \<noteq> []" "last b = newline"
    using Cons.prems(1)[rule_format, of 0] segs by auto
  obtain n where n: "checked_add l 1 = Some n" "unat n = unat l + 1"
    using Cons.prems(3) checked_add_1[of l] checked_add_SomeD by fastforce
  have "read_segments f (Suc i) (into @ b) ls = Inr ((into @ b) @ concat bs)"
  proof (rule Cons.IH)
    show "\<forall>j < length ls. \<exists>b. segment f (Suc i + j) = Regular b \<and> bs ! j = b \<and> length b = unat (ls ! j) \<and> b \<noteq> [] \<and> last b = newline"
      using Cons.prems(1) segs by auto
  qed (use Cons.prems segs in auto)
  moreover have "(of_nat (length b) :: u64) = l" using b(2) by simp
  ultimately show ?case using b n segs by (simp add: Let_def)
qed simp

lemma read_sealed_run:
  assumes "known m" and "holds_segments m segs f" and "unat (mf_length m) < 2 ^ 63"
  shows "read_sealed m f = Inr (concat segs)"
proof (cases "sealed m = []")
  case True
  then show ?thesis using assms(2) by (simp add: read_sealed_def holds_segments_def)
next
  case False
  have "unat l + 1 < 2 ^ 64" if "l \<in> set (sealed m)" for l
  proof -
    have "unat l \<le> sum_list (map unat (sealed m))" using that by (simp add: member_le_sum_list)
    then show ?thesis using active_length_known[OF assms(1)] assms(3) by simp
  qed
  then have "read_segments f 0 [] (sealed m) = Inr ([] @ concat segs)"
    using assms(2) by (intro read_segments_run) (auto simp: holds_segments_def)
  then show ?thesis using assms(2) False by (auto simp: read_sealed_def segments_physical_def holds_segments_def)
qed

lemma unexplained_run:
  assumes "named_below (length (sealed m)) f" and "length (sealed m) \<le> 10 ^ 10"
    and "sealed m \<noteq> [] \<longrightarrow> d_segments f \<noteq> NoSegments"
  shows "unexplained_segments m f = Inr False"
proof -
  have "explained (length (sealed m)) n" if "(n, x) \<in> set (segment_entries f)" for n x
  proof -
    have "n \<in> fst ` set (segment_entries f)" using that by force
    then obtain i where "n = segment_name i" "i < length (sealed m)" using assms(1) unfolding named_below_def by blast
    then show ?thesis using explained_name[of i "length (sealed m)"] assms(2) by (simp del: explained_def)
  qed
  then show ?thesis
    using assms(1,3) by (auto simp: unexplained_segments_def named_below_def segment_entries_def list_ex_iff split: segment_dir.splits)
qed


section \<open>What a run goes through\<close>

definition visits :: "(Files \<Rightarrow> bool) \<Rightarrow> World \<Rightarrow> World \<Rightarrow> bool" where
  "visits P w w' \<longleftrightarrow> (\<exists>gs. w_past w' = w_past w @ gs \<and> (\<forall>g \<in> set gs. P g))"

lemma visits_refl [simp]: "visits P w w"
  by (simp add: visits_def)

lemma visits_trans: "visits P w w1 \<Longrightarrow> visits P w1 w2 \<Longrightarrow> visits P w w2"
  unfolding visits_def by (metis Un_iff append.assoc set_append)

lemma visits_mono: "visits P w w' \<Longrightarrow> (\<And>g. P g \<Longrightarrow> Q g) \<Longrightarrow> visits Q w w'"
  unfolding visits_def by blast

text \<open>A directory a run went through.\<close>

definition passes :: "World \<Rightarrow> World \<Rightarrow> Files \<Rightarrow> bool" where
  "passes w w' g \<longleftrightarrow> g \<in> set (drop (length (w_past w)) (w_past w'))"

lemma passes_visits: "passes w w' g \<Longrightarrow> visits P w w' \<Longrightarrow> P g"
  by (auto simp: passes_def visits_def)

lemma passes_later: "passes w w1 g \<Longrightarrow> visits P w w1 \<Longrightarrow> visits Q w1 w2 \<Longrightarrow> passes w w2 g"
  by (auto simp: passes_def visits_def)

lemma passes_earlier: "visits P w w1 \<Longrightarrow> passes w1 w2 g \<Longrightarrow> passes w w2 g"
  using set_drop_subset_set_drop[of "length (w_past w)" "length (w_past w1)" "w_past w2"] by (auto simp: passes_def visits_def)

lemma visits_change: "P (g (w_files w)) \<Longrightarrow> visits P w (snd (change g w))"
  by (simp add: visits_def change_def)

lemma visits_same: "w_past w' = w_past w \<Longrightarrow> visits P w w'"
  by (simp add: visits_def)

lemma change_run [cmd_simps]: "change g w = (Inr (), w\<lparr>w_files := g (w_files w), w_past := w_past w @ [g (w_files w)]\<rparr>)"
  by (simp add: change_def)

lemma with_files_run [cmd_simps]: "with_files g w = (g (w_files w), w)"
  by (simp add: with_files_def c_lift_run)

text \<open>The rest of a directory: root and lock are there, staging names are files with ids of the past.\<close>

definition unused :: "host \<Rightarrow> nat \<Rightarrow> nat \<Rightarrow> (string, bool) btree \<Rightarrow> bool" where
  "unused h N k st \<longleftrightarrow> (\<forall>n. k \<le> n \<longrightarrow> n < N \<longrightarrow> bt_get st (''.write-'' @ uuid_at h n) = None)"

definition surrounds :: "host \<Rightarrow> nat \<Rightarrow> nat \<Rightarrow> Files \<Rightarrow> bool" where
  "surrounds h N k f \<longleftrightarrow> d_root f = RootDir \<and> \<not> d_tree f \<and> d_lock f = Regular () \<and>
     (\<forall>e \<in> set (d_staging f). snd e) \<and> (d_next f = Missing \<or> (\<exists>b. d_next f = Regular b)) \<and>
     unused h N k (d_staging f)"

lemma surrounds_later: "surrounds h N k f \<Longrightarrow> k \<le> k' \<Longrightarrow> surrounds h N k' f"
  by (simp add: surrounds_def unused_def)

text \<open>The same directory up to what a sweep removes.\<close>

definition swept :: "Files \<Rightarrow> Files \<Rightarrow> bool" where
  "swept f g \<longleftrightarrow> d_root g = d_root f \<and> d_tree g = d_tree f \<and> d_lock g = d_lock f \<and> d_manifest g = d_manifest f \<and>
     d_events g = d_events f \<and> d_segments g = d_segments f \<and> d_append g = d_append f \<and> d_privacy g = d_privacy f \<and>
     set (d_staging g) \<subseteq> set (d_staging f) \<and> (d_next g = d_next f \<or> d_next g = Missing)"

lemma swept_refl [simp]: "swept f f"
  by (simp add: swept_def)

lemma swept_trans: "swept f g \<Longrightarrow> swept g k \<Longrightarrow> swept f k"
  unfolding swept_def by auto

lemma bt_get_subset: "set m' \<subseteq> set m \<Longrightarrow> bt_get m k = None \<Longrightarrow> bt_get m' k = None"
  by (auto simp: bt_get_def map_of_eq_None_iff)

lemma unused_subset: "set st' \<subseteq> set st \<Longrightarrow> unused h N k st \<Longrightarrow> unused h N k st'"
  unfolding unused_def using bt_get_subset[of st' st] by simp

lemma surrounds_swept: "swept f g \<Longrightarrow> surrounds h N k f \<Longrightarrow> surrounds h N k g"
  using unused_subset[of "d_staging g" "d_staging f" h N k] by (auto simp: swept_def surrounds_def)

lemma sweep_entry_run:
  assumes "snd e"
  shows "\<exists>w'. sweep_entry e w = (Inr (), w') \<and> visits (swept (w_files w)) w w' \<and> swept (w_files w) (w_files w') \<and> w_tick w' = w_tick w"
  using assms by (auto simp: sweep_entry_def cmd_simps visits_def swept_def bt_remove_def)

lemma sweep_entries_run:
  assumes "\<forall>e \<in> set es. snd e"
  shows "\<exists>w'. c_each sweep_entry es w = (Inr (), w') \<and> visits (swept (w_files w)) w w' \<and> swept (w_files w) (w_files w') \<and> w_tick w' = w_tick w"
  using assms
proof (induction es arbitrary: w)
  case Nil
  then show ?case by (simp add: c_return_run)
next
  case (Cons e es)
  then obtain w1 where w1: "sweep_entry e w = (Inr (), w1)" "visits (swept (w_files w)) w w1" "swept (w_files w) (w_files w1)" "w_tick w1 = w_tick w"
    using sweep_entry_run[of e w] by auto
  obtain w2 where w2: "c_each sweep_entry es w1 = (Inr (), w2)" "visits (swept (w_files w1)) w1 w2" "swept (w_files w1) (w_files w2)"
    "w_tick w2 = w_tick w1" using Cons.IH[of w1] Cons.prems by auto
  have "visits (swept (w_files w)) w w2"
    using w1(2) visits_mono[OF w2(2) swept_trans[OF w1(3)]] by (rule visits_trans)
  then show ?case using w1 w2 swept_trans by (auto simp: c_bind_run)
qed

lemma sweep_run:
  assumes "surrounds h N k (w_files w)"
  shows "\<exists>b w'. sweep_unselected w = (Inr b, w') \<and> visits (swept (w_files w)) w w' \<and> swept (w_files w) (w_files w') \<and>
    w_tick w' = w_tick w"
proof -
  let ?f = "w_files w"
  obtain w1 where w1: "c_each sweep_entry (d_staging ?f) w = (Inr (), w1)" "visits (swept ?f) w w1" "swept ?f (w_files w1)" "w_tick w1 = w_tick w"
    using sweep_entries_run[of "d_staging ?f" w] assms by (auto simp: surrounds_def)
  have next1: "d_next (w_files w1) = Missing \<or> (\<exists>b. d_next (w_files w1) = Regular b)"
    using w1(3) assms by (auto simp: swept_def surrounds_def)
  show ?thesis
  proof (cases "d_next (w_files w1) = Missing")
    case True
    then show ?thesis using w1 by (simp add: sweep_unselected_def c_get_run c_bind_run c_return_run)
  next
    case False
    let ?g = "(w_files w1)\<lparr>d_next := Missing\<rparr>"
    let ?w = "w1\<lparr>w_files := ?g, w_past := w_past w1 @ [?g]\<rparr>"
    have g: "swept ?f ?g" using w1(3) by (simp add: swept_def)
    have "sweep_unselected w = (Inr True, ?w)"
      using False next1 w1(1) by (auto simp: sweep_unselected_def c_get_run c_bind_run c_return_run change_run)
    moreover have "visits (swept ?f) w ?w" using g w1(2) by (auto simp: visits_def)
    ultimately show ?thesis using g w1(4) by auto
  qed
qed


text \<open>The journal's own names are as before, whatever is staged; and the other way round.\<close>

definition aside :: "Files \<Rightarrow> Files \<Rightarrow> bool" where
  "aside f g \<longleftrightarrow> d_root g = d_root f \<and> d_tree g = d_tree f \<and> d_lock g = d_lock f \<and> d_manifest g = d_manifest f \<and>
     d_events g = d_events f \<and> d_segments g = d_segments f \<and> d_append g = d_append f \<and> d_privacy g = d_privacy f \<and>
     d_next g = d_next f"

definition framed :: "Files \<Rightarrow> Files \<Rightarrow> bool" where
  "framed f g \<longleftrightarrow> d_root g = d_root f \<and> d_tree g = d_tree f \<and> d_lock g = d_lock f \<and> d_staging g = d_staging f \<and> d_next g = d_next f"

lemma framed_surrounds: "framed f g \<Longrightarrow> surrounds h N k f \<Longrightarrow> surrounds h N k g"
  by (simp add: framed_def surrounds_def)

lemma framed_refl [simp]: "framed f f"
  by (simp add: framed_def)

lemma framed_trans: "framed f g \<Longrightarrow> framed g k \<Longrightarrow> framed f k"
  by (simp add: framed_def)

lemma atomic_json_run:
  assumes "surrounds h N (w_tick w) (w_files w)" and "w_tick w < N" and "inj_on (uuid_at h) {..<N}"
    and "\<And>st. get ((w_files w)\<lparr>d_staging := st\<rparr>) \<noteq> Directory"
  shows "\<exists>f1 f2 w'. atomic_json h get put v w = (Inr (), w') \<and> w_past w' = w_past w @ [f1, put (Regular (Doc v)) f2] \<and>
    w_files w' = put (Regular (Doc v)) f2 \<and> w_tick w' = Suc (w_tick w) \<and>
    aside (w_files w) f1 \<and> aside (w_files w) f2 \<and> surrounds h N (Suc (w_tick w)) f1 \<and> surrounds h N (Suc (w_tick w)) f2"
proof -
  let ?f = "w_files w" and ?n = "''.write-'' @ uuid_at h (w_tick w)"
  let ?st = "bt_insert ?n True (d_staging ?f)"
  let ?f1 = "?f\<lparr>d_staging := ?st\<rparr>" and ?f2 = "?f\<lparr>d_staging := bt_remove ?n ?st\<rparr>"
  have free: "bt_get (d_staging ?f) ?n = None" using assms(1,2) by (simp add: surrounds_def unused_def)
  have other: "uuid_at h n \<noteq> uuid_at h (w_tick w)" if "Suc (w_tick w) \<le> n" "n < N" for n
    using inj_onD[OF assms(3), of n "w_tick w"] that assms(2) by auto
  have regs: "\<forall>e \<in> set ?st. snd e" using assms(1) by (auto simp: surrounds_def bt_insert_def)
  have s1: "surrounds h N (Suc (w_tick w)) ?f1"
    using assms(1) other regs by (auto simp: surrounds_def unused_def bt_simps)
  have "set (bt_remove ?n ?st) \<subseteq> set ?st" by (simp add: bt_remove_def)
  then have s2: "surrounds h N (Suc (w_tick w)) ?f2"
    using s1 unused_subset[of "bt_remove ?n ?st" ?st h N "Suc (w_tick w)"] by (auto simp: surrounds_def)
  have "atomic_json h get put v w = (Inr (), w\<lparr>w_files := put (Regular (Doc v)) ?f2,
      w_past := w_past w @ [?f1, put (Regular (Doc v)) ?f2], w_tick := Suc (w_tick w)\<rparr>)"
    using free assms(4)[of ?st] by (simp add: atomic_json_def Let_def journal_id_def cmd_simps)
  then show ?thesis using s1 s2 by (auto simp: aside_def)
qed


section \<open>Settled directories\<close>

text \<open>A history of one manifest: the sealed segments \<open>segs\<close>, the active segment \<open>body\<close>, the transactions.\<close>

definition history :: "host \<Rightarrow> 'v codec \<Rightarrow> Manifest \<Rightarrow> bytes list \<Rightarrow> bytes \<Rightarrow> 'v list \<Rightarrow> bool" where
  "history h c m segs body ts \<longleftrightarrow> known m \<and> length (sealed m) \<le> 10 ^ 10 \<and> unat (mf_length m) = length (concat segs @ body) \<and>
     length (concat segs @ body) < 2 ^ 63 \<and> decode h c (concat segs @ body) m = Inr ts"

definition settled :: "host \<Rightarrow> 'v codec \<Rightarrow> Manifest \<Rightarrow> bytes list \<Rightarrow> bytes \<Rightarrow> 'v list \<Rightarrow> Files \<Rightarrow> bool" where
  "settled h c m segs body ts f \<longleftrightarrow> history h c m segs body ts \<and> d_manifest f = Regular (Doc m) \<and> d_events f = Regular body \<and>
     holds_segments m segs f \<and> named_below (length segs) f \<and> d_append f = Missing \<and> d_privacy f = Missing"

text \<open>A journal in memory and the directory it was read from.\<close>

definition holds_journal :: "host \<Rightarrow> 'v codec \<Rightarrow> 'v Journal \<Rightarrow> Files \<Rightarrow> bool" where
  "holds_journal h c j f \<longleftrightarrow> (\<exists>segs body. settled h c (j_manifest j) segs body (j_transactions j) f \<and> j_content j = concat segs @ body)"

lemma segs_length:
  assumes "holds_segments m segs f"
  shows "length (concat segs) = sum_list (map unat (sealed m))"
proof -
  have "map length segs = map unat (sealed m)"
    using assms by (auto simp: holds_segments_def intro: nth_equalityI)
  then show ?thesis by (simp add: length_concat)
qed

lemma history_active:
  assumes "history h c m segs body ts" and "holds_segments m segs f"
  shows "unat (active_length m) = length body" and "read_sealed m f = Inr (concat segs)"
    and "of_nat (length body) = active_length m"
proof -
  show a: "unat (active_length m) = length body"
    using active_length_known[of m] segs_length[OF assms(2)] assms(1) by (simp add: history_def)
  then show "of_nat (length body) = active_length m" by (metis of_nat_unat ucast_id)
  show "read_sealed m f = Inr (concat segs)"
    using assms by (intro read_sealed_run) (simp_all add: history_def)
qed

lemma read_history_run:
  assumes "history h c m segs body ts" and "holds_segments m segs f" and "named_below (length segs) f" and "d_events f = Regular body"
  shows "read_history h c m f = Inr (concat segs @ body, ts)"
proof -
  have "unexplained_segments m f = Inr False"
    using assms by (intro unexplained_run) (auto simp: holds_segments_def history_def)
  then show ?thesis
    using history_active[OF assms(1,2)] assms(1,4) by (simp add: read_history_def Let_def history_def)
qed

lemma holds_segments_cong: "d_segments g = d_segments f \<Longrightarrow> holds_segments m segs g = holds_segments m segs f"
  by (simp add: holds_segments_def segment_def segment_entries_def)

lemma named_below_cong: "d_segments g = d_segments f \<Longrightarrow> named_below n g = named_below n f"
  by (simp add: named_below_def segment_entries_def)

lemma settled_swept: "swept f g \<Longrightarrow> settled h c m segs body ts f \<Longrightarrow> settled h c m segs body ts g"
  using holds_segments_cong[of g f] named_below_cong[of g f] by (simp add: swept_def settled_def)

lemma settled_aside: "aside f g \<Longrightarrow> settled h c m segs body ts f \<Longrightarrow> settled h c m segs body ts g"
  using holds_segments_cong[of g f] named_below_cong[of g f] by (simp add: aside_def settled_def)

text \<open>The end of every open: nothing is pending and the history is read and the rest swept.\<close>

lemma finish_run:
  assumes "settled h c m segs body ts (w_files w)" and "surrounds h N (w_tick w) (w_files w)"
  shows "\<exists>w'. c_bind (with_files (read_history h c m)) (\<lambda>(committed, ts).
      c_bind sweep_unselected (\<lambda>_. c_return \<lparr>j_manifest = m, j_transactions = ts, j_content = committed\<rparr>)) w =
        (Inr \<lparr>j_manifest = m, j_transactions = ts, j_content = concat segs @ body\<rparr>, w') \<and>
    visits (\<lambda>g. settled h c m segs body ts g \<and> surrounds h N (w_tick w) g) w w' \<and>
    settled h c m segs body ts (w_files w') \<and> surrounds h N (w_tick w) (w_files w') \<and> w_tick w' = w_tick w"
proof -
  have "read_history h c m (w_files w) = Inr (concat segs @ body, ts)"
    using assms(1) by (intro read_history_run) (simp_all add: settled_def)
  moreover obtain b w' where w': "sweep_unselected w = (Inr b, w')" "visits (swept (w_files w)) w w'" "swept (w_files w) (w_files w')" "w_tick w' = w_tick w"
    using sweep_run[OF assms(2)] by blast
  moreover have "visits (\<lambda>g. settled h c m segs body ts g \<and> surrounds h N (w_tick w) g) w w'"
    by (rule visits_mono[OF w'(2)]) (intro conjI settled_swept[OF _ assms(1)] surrounds_swept[OF _ assms(2)])
  ultimately show ?thesis
    using settled_swept[OF w'(3) assms(1)] surrounds_swept[OF w'(3) assms(2)] by (simp add: c_bind_run c_return_run with_files_run)
qed


section \<open>Segments after a change\<close>

lemma segment_put [simp]: "segment (put_segment i n f) j = (if j = i then n else segment f j)"
  by (auto simp: segment_def put_segment_def segment_entries_def bt_simps split: segment_dir.splits)

lemma put_segment_fields [simp]:
  "d_manifest (put_segment i n f) = d_manifest f" "d_events (put_segment i n f) = d_events f"
  "d_append (put_segment i n f) = d_append f" "d_privacy (put_segment i n f) = d_privacy f"
  "d_next (put_segment i n f) = d_next f" "d_staging (put_segment i n f) = d_staging f"
  "d_root (put_segment i n f) = d_root f" "d_tree (put_segment i n f) = d_tree f" "d_lock (put_segment i n f) = d_lock f"
  by (simp_all add: put_segment_def)

lemma segment_other [simp]:
  "segment (f\<lparr>d_events := e\<rparr>) i = segment f i" "segment (f\<lparr>d_append := a\<rparr>) i = segment f i"
  "segment (f\<lparr>d_manifest := m\<rparr>) i = segment f i" "segment (f\<lparr>d_privacy := p\<rparr>) i = segment f i"
  "segment (f\<lparr>d_next := x\<rparr>) i = segment f i"
  by (simp_all add: segment_def segment_entries_def)

lemma on_disk_other [simp]:
  "holds_segments m segs (f\<lparr>d_events := e\<rparr>) = holds_segments m segs f" "holds_segments m segs (f\<lparr>d_append := a\<rparr>) = holds_segments m segs f"
  "holds_segments m segs (f\<lparr>d_manifest := mf\<rparr>) = holds_segments m segs f" "holds_segments m segs (f\<lparr>d_privacy := p\<rparr>) = holds_segments m segs f"
  "holds_segments m segs (f\<lparr>d_next := x\<rparr>) = holds_segments m segs f"
  "named_below n (f\<lparr>d_events := e\<rparr>) = named_below n f" "named_below n (f\<lparr>d_append := a\<rparr>) = named_below n f"
  "named_below n (f\<lparr>d_manifest := mf\<rparr>) = named_below n f" "named_below n (f\<lparr>d_privacy := p\<rparr>) = named_below n f"
  "named_below n (f\<lparr>d_next := x\<rparr>) = named_below n f"
  by (simp_all add: holds_segments_def named_below_def segment_entries_def)

lemma named_below_Missing: "named_below n f \<Longrightarrow> n \<le> i \<Longrightarrow> segment f i = Missing"
  by (auto simp: segment_def named_below_def split: option.splits dest!: bt_get_SomeD)

lemma holds_put:
  assumes "holds_segments m segs f" and "length segs \<le> i"
  shows "holds_segments m segs (put_segment i n f)"
proof -
  have "\<exists>es. d_segments (put_segment i n f) = SegmentDir es" by (simp add: put_segment_def)
  then show ?thesis using assms by (simp add: holds_segments_def)
qed

lemma entries_put:
  "segment_entries (put_segment i n f) = (if n = Missing then bt_remove (segment_name i) (segment_entries f)
     else bt_insert (segment_name i) n (segment_entries f))" "d_segments (put_segment i n f) \<noteq> OtherSegments"
  by (simp_all add: put_segment_def segment_entries_def)

lemma named_put_Missing:
  assumes "named_below (Suc n) f"
  shows "named_below n (put_segment n Missing f)"
proof -
  have "fst ` set (segment_entries f) \<subseteq> insert (segment_name n) (segment_name ` {..<n})"
    using assms by (simp add: named_below_def lessThan_Suc)
  moreover have "fst ` set (bt_remove (segment_name n) (segment_entries f)) = fst ` set (segment_entries f) - {segment_name n}"
    by (auto simp: bt_remove_def)
  moreover have "\<forall>e \<in> set (bt_remove (segment_name n) (segment_entries f)). snd e \<noteq> Missing"
    using assms by (simp add: named_below_def bt_remove_def)
  ultimately show ?thesis unfolding named_below_def entries_put by (simp add: entries_put) blast
qed

lemma named_put:
  assumes "named_below n f"
  shows "named_below (Suc n) (put_segment n (Regular b) f)"
proof -
  have "fst ` set (bt_insert (segment_name n) (Regular b) (segment_entries f)) \<subseteq> insert (segment_name n) (fst ` set (segment_entries f))"
    by (auto simp: bt_insert_def)
  moreover have "\<forall>e \<in> set (bt_insert (segment_name n) (Regular b) (segment_entries f)). snd e \<noteq> Missing"
    using assms by (auto simp: named_below_def bt_insert_def)
  ultimately show ?thesis using assms unfolding named_below_def by (simp add: entries_put lessThan_Suc) blast
qed

lemma named_below_mono: "named_below n f \<Longrightarrow> n \<le> k \<Longrightarrow> named_below k f"
  unfolding named_below_def by (meson image_mono lessThan_subset_iff order_trans)

lemma holds_snoc:
  assumes "sealed m1 = sealed m @ [active_length m]"
  shows "holds_segments m1 (segs @ [b]) f \<longleftrightarrow> holds_segments m segs f \<and> segment f (length segs) = Regular b \<and>
    length b = unat (active_length m) \<and> b \<noteq> [] \<and> last b = newline \<and> (\<exists>es. d_segments f = SegmentDir es)"
proof (cases "length segs = length (sealed m)")
  case True
  let ?P = "\<lambda>b l n. n = Regular b \<and> length b = unat (l :: u64) \<and> b \<noteq> [] \<and> last b = newline"
  have len: "length (segs @ [b]) = length (sealed m1)" "segs @ [b] \<noteq> []" using True assms by simp_all
  have "(\<forall>i < length (segs @ [b]). ?P ((segs @ [b]) ! i) (sealed m1 ! i) (segment f i)) \<longleftrightarrow>
      (\<forall>i < length segs. ?P (segs ! i) (sealed m ! i) (segment f i)) \<and> ?P b (active_length m) (segment f (length segs))"
    using True by (auto simp: assms nth_append less_Suc_eq)
  then show ?thesis using True len unfolding holds_segments_def by blast
qed (simp add: holds_segments_def assms)

end
