(* ===== verification/JournalAppend.thy ===== *)
theory JournalAppend
  imports JournalDisk
begin

text \<open>
  An append of the journal and the process that dies in it. \<open>uncommitted\<close> and \<open>published\<close> are the
  directories between the durable intent and its removal; recovery takes the first back to the history
  before the append and the second on to the history with it.
\<close>

section \<open>The planned append\<close>

definition planned :: "host \<Rightarrow> 'v codec \<Rightarrow> Manifest \<Rightarrow> Manifest \<Rightarrow> bytes \<Rightarrow> bytes list \<Rightarrow> bytes \<Rightarrow> 'v list \<Rightarrow> 'v \<Rightarrow> bool" where
  "planned h c m m1 line segs body ts t \<longleftrightarrow> history h c m segs body ts \<and>
     history h c m1 (if seals m then segs @ [body] else segs) (if seals m then line else body @ line) (ts @ [t]) \<and>
     m \<noteq> m1 \<and> mf_format m1 = mf_format m \<and> seal_at m1 = seal_at m \<and>
     sealed m1 = sealed m @ (if seals m then [active_length m] else []) \<and>
     (seals m \<longrightarrow> body \<noteq> [] \<and> last body = newline)"

definition intent :: "Manifest \<Rightarrow> Manifest \<Rightarrow> bytes \<Rightarrow> AppendIntent" where
  "intent m m1 line = \<lparr>ai_before = m, ai_after = m1, ai_frame = line\<rparr>"

lemma intent_simps [simp]: "ai_before (intent m m1 line) = m" "ai_after (intent m m1 line) = m1" "ai_frame (intent m m1 line) = line"
  by (simp_all add: intent_def)

definition pending :: "Manifest \<Rightarrow> Manifest \<Rightarrow> bytes \<Rightarrow> Files \<Rightarrow> bool" where
  "pending m m1 line f \<longleftrightarrow> d_append f = Regular (Doc (intent m m1 line)) \<and> d_privacy f = Missing"

definition uncommitted :: "Manifest \<Rightarrow> bytes \<Rightarrow> bytes list \<Rightarrow> bytes \<Rightarrow> Files \<Rightarrow> bool" where
  "uncommitted m line segs body f \<longleftrightarrow> d_manifest f = Regular (Doc m) \<and> holds_segments m segs f \<and>
     (\<not> seals m \<and> named_below (length segs) f \<and> (\<exists>k. d_events f = Regular (body @ take k line)) \<or>
      seals m \<and> named_below (length segs) f \<and> d_events f = Regular body \<or>
      seals m \<and> named_below (Suc (length segs)) f \<and> segment f (length segs) = Regular body \<and>
        (d_events f = Missing \<or> (\<exists>k. d_events f = Regular (take k line))))"

definition published :: "Manifest \<Rightarrow> Manifest \<Rightarrow> bytes \<Rightarrow> bytes list \<Rightarrow> bytes \<Rightarrow> Files \<Rightarrow> bool" where
  "published m m1 line segs body f \<longleftrightarrow> d_manifest f = Regular (Doc m1) \<and>
     holds_segments m1 (if seals m then segs @ [body] else segs) f \<and>
     named_below (length segs + (if seals m then 1 else 0)) f \<and>
     d_events f = Regular (if seals m then line else body @ line)"


section \<open>Recovery of an append\<close>

lemma planned_ok:
  assumes "planned h c m m1 line segs body ts t"
  shows "append_intent_ok (intent m m1 line)"
    and "length (sealed m1) = length (sealed m) + 1 \<longleftrightarrow> seals m"
  using assms by (auto simp: planned_def append_intent_ok_def history_def Let_def)

lemma planned_decodes:
  assumes "planned h c m m1 line segs body ts t"
  shows "decode h c (concat segs @ body) m = Inr ts" and "decode h c (concat segs @ body @ line) m1 = Inr (ts @ [t])"
  using assms by (auto simp: planned_def history_def split: if_splits)

lemma remove_append_run:
  "d_append (w_files w) = Regular x \<Longrightarrow> remove_file d_append put_append w =
     (Inr (), w\<lparr>w_files := (w_files w)\<lparr>d_append := Missing\<rparr>, w_past := w_past w @ [(w_files w)\<lparr>d_append := Missing\<rparr>]\<rparr>)"
  by (simp add: remove_file_def cmd_simps)

lemma recover_append_start:
  assumes "pending m m1 line (w_files w)" and "planned h c m m1 line segs body ts t" and "holds_segments m segs (w_files w)"
    and "current = m \<or> current = m1"
  shows "recover_append h c current w = c_bind (if seals m then recover_sealing h c (intent m m1 line) current (concat segs)
      else recover_plain h c (intent m m1 line) current (concat segs)) (\<lambda>_. remove_file d_append put_append) w"
proof -
  have "read_sealed m (w_files w) = Inr (concat segs)"
    using assms(2,3) history_active(2) unfolding planned_def by blast
  moreover have "read_doc (d_append (w_files w)) = Inr (intent m m1 line)" using assms(1) by (simp add: pending_def read_doc_def)
  ultimately show ?thesis
    using assms(4) planned_ok[OF assms(2)] by (auto simp: recover_append_def c_bind_run with_files_run)
qed

text \<open>The plain case, uncommitted: the tail after the boundary goes.\<close>

lemma recover_plain_undo:
  assumes "planned h c m m1 line segs body ts t" and "d_events (w_files w) = Regular (body @ take k line)" and "holds_segments m segs (w_files w)"
  shows "recover_plain h c (intent m m1 line) m (concat segs) w =
    (Inr (), w\<lparr>w_files := (w_files w)\<lparr>d_events := Regular body\<rparr>, w_past := w_past w @ [(w_files w)\<lparr>d_events := Regular body\<rparr>]\<rparr>)"
proof -
  have "unat (active_length m) = length body" using assms(1,3) history_active(1) unfolding planned_def by blast
  moreover have "take (length (body @ take k line) - length body) line = take k line" by (cases "k \<le> length line") simp_all
  moreover have "m \<noteq> m1" using assms(1) by (simp add: planned_def)
  ultimately show ?thesis
    using assms(2) planned_decodes[OF assms(1)] by (simp add: recover_plain_def set_length_def cmd_simps Let_def)
qed

lemma recover_plain_keep:
  assumes "planned h c m m1 line segs body ts t" and "d_events (w_files w) = Regular (body @ line)" and "holds_segments m segs (w_files w)"
  shows "recover_plain h c (intent m m1 line) m1 (concat segs) w = (Inr (), w)"
proof -
  have "unat (active_length m) = length body" using assms(1,3) history_active(1) unfolding planned_def by blast
  then show ?thesis
    using assms(2) planned_decodes[OF assms(1)] by (simp add: recover_plain_def cmd_simps Let_def)
qed

text \<open>The sealing case, uncommitted: the moved segment goes back.\<close>

lemma recover_sealing_here:
  assumes "planned h c m m1 line segs body ts t" and "d_events (w_files w) = Regular body" and "holds_segments m segs (w_files w)"
    and "named_below (length segs) (w_files w)"
  shows "recover_sealing h c (intent m m1 line) m (concat segs) w = (Inr (), w)"
proof -
  have "length segs = length (sealed m)" using assms(3) by (simp add: holds_segments_def)
  then have "segment_meta (length (sealed m)) (w_files w) = Inr Missing"
    using assms(4) named_below_Missing[OF assms(4) order_refl] by (simp add: segment_meta_def named_below_def)
  then show ?thesis using assms(2) planned_decodes[OF assms(1)] by (simp add: recover_sealing_def cmd_simps Let_def)
qed

lemma recover_sealing_undo:
  assumes "planned h c m m1 line segs body ts t" and "holds_segments m segs (w_files w)"
    and "named_below (Suc (length segs)) (w_files w)" and "segment (w_files w) (length segs) = Regular body"
    and "d_events (w_files w) = Missing \<or> (\<exists>k. d_events (w_files w) = Regular (take k line))"
  shows "recover_sealing h c (intent m m1 line) m (concat segs) w =
    (Inr (), w\<lparr>w_files := put_segment (length segs) Missing ((w_files w)\<lparr>d_events := Regular body\<rparr>),
       w_past := w_past w @ [put_segment (length segs) Missing ((w_files w)\<lparr>d_events := Regular body\<rparr>)]\<rparr>)"
proof -
  have len: "length (sealed m) = length segs" using assms(2) by (simp add: holds_segments_def)
  then have "segment_meta (length (sealed m)) (w_files w) = Inr (Regular body)"
    using assms(3,4) by (simp add: segment_meta_def named_below_def)
  moreover have "of_nat (length body) = active_length m" using assms(1,2) history_active(3) unfolding planned_def by blast
  moreover have "d_events (w_files w) \<noteq> Directory" using assms(5) by auto
  ultimately show ?thesis
    using planned_decodes[OF assms(1)] assms(4) len by (simp add: recover_sealing_def unseal_def cmd_simps Let_def)
qed

lemma recover_sealing_keep:
  assumes "planned h c m m1 line segs body ts t" and "seals m" and "holds_segments m1 (segs @ [body]) (w_files w)"
    and "named_below (Suc (length segs)) (w_files w)" and "d_events (w_files w) = Regular line"
  shows "recover_sealing h c (intent m m1 line) m1 (concat segs) w = (Inr (), w)"
proof -
  have "sealed m1 = sealed m @ [active_length m]" using assms(1,2) by (simp add: planned_def)
  then have seg: "segment (w_files w) (length segs) = Regular body" and len: "length (sealed m) = length segs"
    using holds_snoc assms(3) unfolding holds_segments_def by (blast, simp)
  have "read_sealed m1 (w_files w) = Inr (concat (segs @ [body]))"
    using assms(1,2,3) history_active(2)[of h c m1 "segs @ [body]" line "ts @ [t]"] by (simp add: planned_def)
  moreover have "segment_meta (length (sealed m)) (w_files w) = Inr (Regular body)"
    using assms(4) seg len by (simp add: segment_meta_def named_below_def)
  moreover have "m1 \<noteq> m" using assms(1) by (auto simp: planned_def)
  ultimately show ?thesis
    using assms(5) planned_decodes(2)[OF assms(1)] by (simp add: recover_sealing_def cmd_simps Let_def)
qed


lemma recover_append_end:
  assumes "recover_append h c current w = c_bind rec (\<lambda>_. remove_file d_append put_append) w" and "rec w = (Inr (), wr)"
    and "visits (\<lambda>g. framed (w_files w) g \<and> P g) w wr" and "framed (w_files w) (w_files wr)" and "w_tick wr = w_tick w"
    and "d_append (w_files wr) = Regular x" and "settled h c m segs body ts ((w_files wr)\<lparr>d_append := Missing\<rparr>)"
  shows "\<exists>w'. recover_append h c current w = (Inr (), w') \<and> settled h c m segs body ts (w_files w') \<and>
    framed (w_files w) (w_files w') \<and> w_tick w' = w_tick w \<and>
    visits (\<lambda>g. framed (w_files w) g \<and> (P g \<or> settled h c m segs body ts g)) w w'"
proof -
  let ?g = "(w_files wr)\<lparr>d_append := Missing\<rparr>"
  let ?w = "wr\<lparr>w_files := ?g, w_past := w_past wr @ [?g]\<rparr>"
  have fr: "framed (w_files w) ?g" using assms(4) by (simp add: framed_def)
  have "visits (\<lambda>g. framed (w_files w) g \<and> (P g \<or> settled h c m segs body ts g)) w ?w"
    using assms(3) fr assms(7) by (auto simp: visits_def)
  then show ?thesis using assms(1,2,5,7) fr remove_append_run[OF assms(6)] by (simp add: c_bind_run)
qed

lemma recover_undo:
  assumes "pending m m1 line (w_files w)" and plan: "planned h c m m1 line segs body ts t" and "uncommitted m line segs body (w_files w)"
  shows "\<exists>w'. recover_append h c m w = (Inr (), w') \<and> settled h c m segs body ts (w_files w') \<and>
    framed (w_files w) (w_files w') \<and> w_tick w' = w_tick w \<and>
    visits (\<lambda>g. framed (w_files w) g \<and> (pending m m1 line g \<and> uncommitted m line segs body g \<or> settled h c m segs body ts g)) w w'"
proof -
  let ?f = "w_files w"
  have hold: "holds_segments m segs ?f" and man: "d_manifest ?f = Regular (Doc m)" using assms(3) by (auto simp: uncommitted_def)
  have hist: "history h c m segs body ts" using plan by (simp add: planned_def)
  note start = recover_append_start[OF assms(1) plan hold, of m]
  consider (plain) k where "\<not> seals m" "named_below (length segs) ?f" "d_events ?f = Regular (body @ take k line)"
    | (here) "seals m" "named_below (length segs) ?f" "d_events ?f = Regular body"
    | (moved) "seals m" "named_below (Suc (length segs)) ?f" "segment ?f (length segs) = Regular body"
        "d_events ?f = Missing \<or> (\<exists>k. d_events ?f = Regular (take k line))"
    using assms(3) by (auto simp: uncommitted_def)
  then show ?thesis
  proof cases
    case plain
    let ?g = "?f\<lparr>d_events := Regular body\<rparr>"
    have "uncommitted m line segs body ?g" using plain man hold by (auto simp: uncommitted_def intro: exI[of _ 0])
    then show ?thesis
      using plain start assms(1) recover_plain_undo[OF plan plain(3) hold] hist hold man
      by (intro recover_append_end[where rec = "recover_plain h c (intent m m1 line) m (concat segs)" and wr = "w\<lparr>w_files := ?g, w_past := w_past w @ [?g]\<rparr>"])
        (auto simp: visits_def framed_def pending_def settled_def)
  next
    case here
    then show ?thesis
      using start assms(1) recover_sealing_here[OF plan here(3) hold here(2)] hist hold man
      by (intro recover_append_end[where rec = "recover_sealing h c (intent m m1 line) m (concat segs)" and wr = w]) (auto simp: framed_def pending_def settled_def)
  next
    case moved
    let ?g = "put_segment (length segs) Missing (?f\<lparr>d_events := Regular body\<rparr>)"
    have g: "holds_segments m segs ?g" "named_below (length segs) ?g"
      using holds_put[of m segs "?f\<lparr>d_events := Regular body\<rparr>"] hold named_put_Missing[of "length segs" "?f\<lparr>d_events := Regular body\<rparr>"] moved(2)
      by simp_all
    then have "uncommitted m line segs body ?g" using moved man by (simp add: uncommitted_def)
    then show ?thesis
      using moved start assms(1) recover_sealing_undo[OF plan hold moved(2-4)] hist g man
      by (intro recover_append_end[where rec = "recover_sealing h c (intent m m1 line) m (concat segs)" and wr = "w\<lparr>w_files := ?g, w_past := w_past w @ [?g]\<rparr>"])
        (auto simp: visits_def framed_def pending_def settled_def)
  qed
qed

lemma recover_keep:
  assumes "pending m m1 line (w_files w)" and plan: "planned h c m m1 line segs body ts t" and pub: "published m m1 line segs body (w_files w)"
  shows "\<exists>w'. recover_append h c m1 w = (Inr (), w') \<and>
    settled h c m1 (if seals m then segs @ [body] else segs) (if seals m then line else body @ line) (ts @ [t]) (w_files w') \<and>
    framed (w_files w) (w_files w') \<and> w_tick w' = w_tick w \<and>
    visits (\<lambda>g. framed (w_files w) g \<and> (pending m m1 line g \<and> published m m1 line segs body g \<or>
      settled h c m1 (if seals m then segs @ [body] else segs) (if seals m then line else body @ line) (ts @ [t]) g)) w w'"
proof -
  let ?f = "w_files w"
  have sl: "sealed m1 = sealed m @ (if seals m then [active_length m] else [])" using plan by (simp add: planned_def)
  have hold: "holds_segments m segs ?f"
  proof (cases "seals m")
    case True
    then show ?thesis using pub holds_snoc[of m1 m segs body ?f] sl by (simp add: published_def)
  next
    case False
    then show ?thesis using pub sl by (simp add: published_def holds_segments_def)
  qed
  have "(if seals m then recover_sealing h c (intent m m1 line) m1 (concat segs)
      else recover_plain h c (intent m m1 line) m1 (concat segs)) w = (Inr (), w)"
    using pub recover_sealing_keep[OF plan, of w] recover_plain_keep[OF plan _ hold]
    by (cases "seals m") (simp_all add: published_def)
  then show ?thesis
    using recover_append_start[OF assms(1) plan hold, of m1] assms(1) pub plan
    by (intro recover_append_end[where rec = "if seals m then recover_sealing h c (intent m m1 line) m1 (concat segs) else recover_plain h c (intent m m1 line) m1 (concat segs)" and wr = w]) (auto simp: framed_def pending_def settled_def published_def planned_def)
qed


section \<open>Writing the frame\<close>

lemma write_at_end [simp]: "write_at (length old) b old = old @ b"
  by (simp add: write_at_def)

lemma write_events_run:
  assumes "d_events (w_files w) = Regular old"
  shows "\<exists>w'. write_events (length old) b w = (Inr (), w') \<and> w_files w' = (w_files w)\<lparr>d_events := Regular (old @ b)\<rparr> \<and>
    w_tick w' = w_tick w \<and> visits (\<lambda>g. \<exists>k. g = (w_files w)\<lparr>d_events := Regular (old @ take k b)\<rparr>) w w'"
proof -
  have "\<exists>k. (w_files w)\<lparr>d_events := Regular (old @ b)\<rparr> = (w_files w)\<lparr>d_events := Regular (old @ take k b)\<rparr>"
    by (rule exI[of _ "length b"]) simp
  then show ?thesis using assms by (auto simp: write_events_def c_bind_run with_files_run change_each_def visits_def)
qed

lemma write_line_run:
  assumes "d_events (w_files w) = Regular old" and "mid \<le> length line"
  shows "\<exists>w'. c_bind (write_events (length old) (take mid line)) (\<lambda>_. write_events (length old + mid) (drop mid line)) w = (Inr (), w') \<and>
    w_files w' = (w_files w)\<lparr>d_events := Regular (old @ line)\<rparr> \<and> w_tick w' = w_tick w \<and>
    visits (\<lambda>g. \<exists>k. g = (w_files w)\<lparr>d_events := Regular (old @ take k line)\<rparr>) w w'"
proof -
  let ?P = "\<lambda>g. \<exists>k. g = (w_files w)\<lparr>d_events := Regular (old @ take k line)\<rparr>"
  from write_events_run[OF assms(1), of "take mid line"] obtain w1 where w1: "write_events (length old) (take mid line) w = (Inr (), w1)"
    "w_files w1 = (w_files w)\<lparr>d_events := Regular (old @ take mid line)\<rparr>" "w_tick w1 = w_tick w"
    "visits (\<lambda>g. \<exists>k. g = (w_files w)\<lparr>d_events := Regular (old @ take k (take mid line))\<rparr>) w w1" by blast
  have "d_events (w_files w1) = Regular (old @ take mid line)" "length (old @ take mid line) = length old + mid"
    using w1(2) assms(2) by simp_all
  from write_events_run[OF this(1), of "drop mid line", unfolded this(2)] obtain w2 where w2:
    "write_events (length old + mid) (drop mid line) w1 = (Inr (), w2)"
    "w_files w2 = (w_files w1)\<lparr>d_events := Regular ((old @ take mid line) @ drop mid line)\<rparr>" "w_tick w2 = w_tick w1"
    "visits (\<lambda>g. \<exists>k. g = (w_files w1)\<lparr>d_events := Regular ((old @ take mid line) @ take k (drop mid line))\<rparr>) w1 w2" by blast
  have v1: "visits ?P w w1" by (rule visits_mono[OF w1(4)]) (auto simp: take_take)
  have "take mid line @ take k (drop mid line) = take (mid + k) line" for k by (simp add: take_add)
  then have v2: "visits ?P w1 w2" by (intro visits_mono[OF w2(4)]) (auto simp: w1(2))
  show ?thesis using w1 w2 visits_trans[OF v1 v2] by (simp add: c_bind_run)
qed

text \<open>Where an append begins to change the history's files: the intent is durable, nothing else is.\<close>

definition ready :: "Manifest \<Rightarrow> bytes list \<Rightarrow> bytes \<Rightarrow> Files \<Rightarrow> bool" where
  "ready m segs body f \<longleftrightarrow> d_manifest f = Regular (Doc m) \<and> holds_segments m segs f \<and> named_below (length segs) f \<and> d_events f = Regular body"

lemma ready_uncommitted: "ready m segs body f \<Longrightarrow> uncommitted m line segs body f"
  by (cases "seals m") (auto simp: ready_def uncommitted_def intro: exI[of _ 0])

definition moved :: "Manifest \<Rightarrow> bytes list \<Rightarrow> bytes \<Rightarrow> Files \<Rightarrow> bool" where
  "moved m segs body f \<longleftrightarrow> d_manifest f = Regular (Doc m) \<and> holds_segments m segs f \<and> named_below (Suc (length segs)) f \<and>
     segment f (length segs) = Regular body \<and> (\<exists>es. d_segments f = SegmentDir es)"

lemma seal_active_run:
  assumes "ready m segs body (w_files w)" and "seals m" and "pending m m1 line (w_files w)"
  shows "\<exists>w'. seal_active m w = (Inr (), w') \<and> w_tick w' = w_tick w \<and> framed (w_files w) (w_files w') \<and> pending m m1 line (w_files w') \<and>
    moved m segs body (w_files w') \<and> d_events (w_files w') = Regular [] \<and>
    visits (\<lambda>g. framed (w_files w) g \<and> pending m m1 line g \<and> uncommitted m line segs body g) w w'"
proof -
  let ?f = "w_files w" and ?P = "\<lambda>g. framed (w_files w) g \<and> pending m m1 line g \<and> uncommitted m line segs body g"
  have len: "length (sealed m) = length segs" using assms(1) by (simp add: ready_def holds_segments_def)
  have nm: "named_below (length segs) ?f" "segment ?f (length segs) = Missing" "d_segments ?f \<noteq> OtherSegments"
    using assms(1) named_below_Missing by (auto simp: ready_def named_below_def)
  define g where "g = (if d_segments ?f = NoSegments then ?f\<lparr>d_segments := SegmentDir []\<rparr> else ?f)"
  define w1 where "w1 = (if d_segments ?f = NoSegments then w\<lparr>w_files := g, w_past := w_past w @ [g]\<rparr> else w)"
  have g: "ready m segs body g" "framed ?f g" "pending m m1 line g" "\<exists>es. d_segments g = SegmentDir es"
    using assms(1,3) nm(3) by (cases "d_segments ?f"; auto simp: g_def ready_def holds_segments_def named_below_def segment_entries_def framed_def pending_def)+
  have w1: "c_bind (with_files (seal_target_free m)) (\<lambda>there. if there then c_return () else change (\<lambda>f. f\<lparr>d_segments := SegmentDir []\<rparr>)) w = (Inr (), w1)"
    using nm len by (cases "d_segments ?f") (auto simp: w1_def g_def seal_target_free_def c_bind_run with_files_run c_return_run change_run)
  have w1f: "w_files w1 = g" "w_tick w1 = w_tick w" "visits ?P w w1"
    using g ready_uncommitted[OF g(1)] by (auto simp: w1_def g_def visits_def)
  let ?k = "put_segment (length segs) (Regular body) (g\<lparr>d_events := Missing\<rparr>)"
  let ?k2 = "?k\<lparr>d_events := Regular []\<rparr>"
  have hk: "holds_segments m segs ?k" "named_below (Suc (length segs)) ?k"
    using g(1) holds_put[of m segs "g\<lparr>d_events := Missing\<rparr>"] named_put[of "length segs" "g\<lparr>d_events := Missing\<rparr>"] by (simp_all add: ready_def)
  have k: "?P ?k" "?P ?k2" using hk g assms(2) by (auto simp: uncommitted_def ready_def framed_def pending_def intro: exI[of _ 0])
  have mv: "moved m segs body ?k2" using hk g(1) by (simp add: moved_def ready_def) (simp add: put_segment_def)
  have ev: "d_events g = Regular body" using g(1) by (simp add: ready_def)
  have "seal_active m w = c_bind (with_files (\<lambda>f. if d_events f = Missing then Inl io_error else Inr ())) (\<lambda>_.
     c_bind (change (\<lambda>f. put_segment (length (sealed m)) (d_events f) (f\<lparr>d_events := Missing\<rparr>))) (\<lambda>_.
     change (put_events (Regular [])))) w1"
    using w1 unfolding seal_active_def c_bind_assoc[symmetric] by (simp only: c_bind_run prod.case sum.case)
  then have "seal_active m w = (Inr (), w1\<lparr>w_files := ?k2, w_past := w_past w1 @ [?k, ?k2]\<rparr>)"
    using w1f(1) ev len by (simp add: c_bind_run with_files_run change_run)
  moreover have "visits ?P w (w1\<lparr>w_files := ?k2, w_past := w_past w1 @ [?k, ?k2]\<rparr>)" using w1f(3) k by (auto simp: visits_def)
  ultimately show ?thesis using w1f k mv by auto
qed


lemma holds_sealed: "sealed m1 = sealed m \<Longrightarrow> holds_segments m1 segs f = holds_segments m segs f"
  by (simp add: holds_segments_def)

lemma moved_uncommitted:
  "moved m segs body f \<Longrightarrow> seals m \<Longrightarrow> uncommitted m line segs body (f\<lparr>d_events := Regular (take k line)\<rparr>)"
  by (auto simp: moved_def uncommitted_def)

lemma write_frame_run:
  assumes "ready m segs body (w_files w)" and "pending m m1 line (w_files w)" and plan: "planned h c m m1 line segs body ts t"
  shows "\<exists>w'. write_frame m line w = (Inr (), w') \<and> w_tick w' = w_tick w \<and> framed (w_files w) (w_files w') \<and>
    pending m m1 line (w_files w') \<and> uncommitted m line segs body (w_files w') \<and>
    published m m1 line segs body ((w_files w')\<lparr>d_manifest := Regular (Doc m1)\<rparr>) \<and>
    visits (\<lambda>g. framed (w_files w) g \<and> pending m m1 line g \<and> uncommitted m line segs body g) w w'"
proof -
  let ?P = "\<lambda>g. framed (w_files w) g \<and> pending m m1 line g \<and> uncommitted m line segs body g"
  let ?mid = "length line div 2"
  have sl: "sealed m1 = sealed m @ (if seals m then [active_length m] else [])" using plan by (simp add: planned_def)
  have hold: "holds_segments m segs (w_files w)" using assms(1) by (simp add: ready_def)
  have act: "unat (active_length m) = length body" using plan hold history_active(1) unfolding planned_def by blast
  have mid: "?mid \<le> length line" by simp
  show ?thesis
  proof (cases "seals m")
    case False
    have "d_events (w_files w) = Regular body" using assms(1) by (simp add: ready_def)
    from write_line_run[OF this mid] obtain w1 where w1: "c_bind (write_events (length body) (take ?mid line)) (\<lambda>_. write_events (length body + ?mid) (drop ?mid line)) w = (Inr (), w1)"
      "w_files w1 = (w_files w)\<lparr>d_events := Regular (body @ line)\<rparr>" "w_tick w1 = w_tick w"
      "visits (\<lambda>g. \<exists>k. g = (w_files w)\<lparr>d_events := Regular (body @ take k line)\<rparr>) w w1" by blast
    have un: "?P ((w_files w)\<lparr>d_events := Regular (body @ take k line)\<rparr>)" for k
      using False assms(1,2) by (auto simp: uncommitted_def ready_def framed_def pending_def)
    have "visits ?P w w1" by (rule visits_mono[OF w1(4)]) (use un in auto)
    moreover have "write_frame m line w = (Inr (), w1)" using w1(1) act False by (simp add: write_frame_def Let_def)
    moreover have "published m m1 line segs body ((w_files w1)\<lparr>d_manifest := Regular (Doc m1)\<rparr>)"
      using w1(2) False assms(1) holds_sealed[of m1 m] sl by (simp add: published_def ready_def)
    ultimately show ?thesis using w1(2,3) un[of "length line"] by auto
  next
    case True
    from seal_active_run[OF assms(1) True assms(2)] obtain w1 where w1: "seal_active m w = (Inr (), w1)" "w_tick w1 = w_tick w"
      "framed (w_files w) (w_files w1)" "pending m m1 line (w_files w1)" "moved m segs body (w_files w1)" "d_events (w_files w1) = Regular []"
      "visits ?P w w1" by blast
    from write_line_run[OF w1(6) mid] obtain w2 where w2: "c_bind (write_events 0 (take ?mid line)) (\<lambda>_. write_events (0 + ?mid) (drop ?mid line)) w1 = (Inr (), w2)"
      "w_files w2 = (w_files w1)\<lparr>d_events := Regular line\<rparr>" "w_tick w2 = w_tick w1"
      "visits (\<lambda>g. \<exists>k. g = (w_files w1)\<lparr>d_events := Regular (take k line)\<rparr>) w1 w2" by (auto simp: c_bind_def)
    have un: "?P ((w_files w1)\<lparr>d_events := Regular (take k line)\<rparr>)" for k
      using w1(3,4) moved_uncommitted[OF w1(5) True] by (simp add: framed_def pending_def)
    have v2: "visits ?P w1 w2" by (rule visits_mono[OF w2(4)]) (use un in auto)
    have "write_frame m line w = (Inr (), w2)"
      using w1(1) w2(1) True by (simp add: write_frame_def Let_def c_bind_run[of "seal_active m"])
    moreover have "holds_segments m1 (segs @ [body]) (w_files w2)"
      using w1(5) w2(2) True sl plan act by (simp add: holds_snoc[of m1 m] moved_def planned_def)
    then have "published m m1 line segs body ((w_files w2)\<lparr>d_manifest := Regular (Doc m1)\<rparr>)"
      using w2(2) True w1(5) by (simp add: published_def moved_def)
    ultimately show ?thesis using w1(2) w2(2,3) un[of "length line"] visits_trans[OF w1(7) v2] by auto
  qed
qed


lemma word_of_nat_unat: "(of_nat (unat x) :: u64) = x"
  by simp


section \<open>What an append plans\<close>

lemma known_longer:
  assumes "known m" and "mf_format m' = mf_format m" and "mf_segments m' = mf_segments m" and "mf_length m \<le> mf_length m'"
  shows "known m'"
  using assms by (auto simp: known_def split: option.splits sum.splits)

lemma next_planned:
  assumes hist: "history h c m segs body ts" and hold: "holds_segments m segs f"
    and sq: "checked_add (mf_sequence m) 1 = Some sq" and enc: "encode h c m sq (mf_digest m) t = (line, dg)"
    and rb: "reads_back c (full_frame h c m sq (mf_digest m) t)" and fits: "length (concat segs @ body @ line) < 2 ^ 63"
    and room: "length (sealed m) < 10 ^ 10"
  shows "\<exists>m1. next_manifest m sq line dg = Inr m1 \<and> planned h c m m1 line segs body ts t \<and> mf_epoch m1 = mf_epoch m \<and> mf_store m1 = mf_store m"
proof -
  let ?n = "mf_length m + of_nat (length line)"
  have kn: "known m" and len: "unat (mf_length m) = length (concat segs @ body)" using hist by (simp_all add: history_def)
  have ln: "unat (of_nat (length line) :: u64) = length line" using fits by (intro unat_of_nat_small) simp
  have add: "checked_add (mf_length m) (of_nat (length line)) = Some ?n" and un: "unat ?n = length (concat segs @ body @ line)"
    using fits len ln by (simp_all add: checked_add_def unat_word_ariths)
  define m1 where "m1 = (let next1 = m\<lparr>mf_sequence := sq, mf_length := ?n, mf_digest := dg\<rparr> in
    if seals m then next1\<lparr>mf_segments := map_option (\<lambda>s. s\<lparr>sg_sealed := sg_sealed s @ [active_length m]\<rparr>) (mf_segments m)\<rparr> else next1)"
  have m1: "next_manifest m sq line dg = Inr m1" using add by (simp add: next_manifest_def m1_def Let_def)
  have fields: "mf_format m1 = mf_format m" "mf_store m1 = mf_store m" "mf_epoch m1 = mf_epoch m" "mf_sequence m1 = sq" "mf_digest m1 = dg"
    "mf_length m1 = ?n" "seal_at m1 = seal_at m"
    by (simp_all add: m1_def Let_def seal_at_def option.map_comp comp_def)
  have segd: "mf_segments m \<noteq> None" if "seals m" using that by (auto simp: seals_def seal_at_def split: option.splits)
  have sl: "sealed m1 = sealed m @ (if seals m then [active_length m] else [])"
    using segd by (auto simp: m1_def Let_def sealed_def split: option.splits)
  have le: "mf_length m \<le> mf_length m1" using un len fields(6) by (simp add: word_le_nat_alt)
  have kn1: "known m1"
  proof (cases "seals m")
    case True
    show ?thesis
      by (rule known_sealed[OF kn True, of "length line"]) (use len fits fields True in \<open>simp_all add: m1_def Let_def\<close>)
  next
    case False
    then show ?thesis using kn le fields by (intro known_longer[OF kn]) (simp_all add: m1_def Let_def)
  qed
  have dec: "decode h c ((concat segs @ body) @ line) m1 = Inr (ts @ [t])"
  proof (rule decode_append[OF _ sq rb enc])
    show "decode h c (concat segs @ body) m = Inr ts" using hist by (simp add: history_def)
    show "identity m1 = identity m" "mf_sequence m1 = sq" "mf_digest m1 = dg" using fields by (simp_all add: identity_def)
    show "mf_length m1 = of_nat (length ((concat segs @ body) @ line))"
      using word_of_nat_unat[of ?n] un fields(6) by (simp only: append_assoc)
  qed
  have body: "body \<noteq> [] \<and> last body = newline" if "seals m"
  proof -
    have "0 < unat (active_length m)" using that by (auto simp: seals_def word_less_nat_alt split: option.splits)
    then have "body \<noteq> []" using history_active(1)[OF hist hold] by auto
    moreover have "decode h c (concat segs @ body) m = Inr ts" using hist by (simp add: history_def)
    ultimately show ?thesis by (auto simp: decode_Inr_iff)
  qed
  have "unat sq = unat (mf_sequence m) + 1" using checked_add_SomeD[OF sq] by simp
  then have "m \<noteq> m1" using fields(4) by auto
  then have "planned h c m m1 line segs body ts t"
    using hist kn1 sl fields un dec fits room body by (auto simp: planned_def history_def)
  then show ?thesis using m1 fields by blast
qed

end
