(* ===== verification/JournalRewrite.thy ===== *)
theory JournalRewrite
  imports JournalDisk
begin

text \<open>
  A privacy rewrite of the journal and the process that dies in it. \<open>replacing\<close> is the directory from
  the durable intent to the rename of the replacement, \<open>rewritten\<close> the one from there to the removal
  of the intent; recovery takes both on to the rewritten history.
\<close>

section \<open>The planned rewrite\<close>

definition rewrite_intent :: "host \<Rightarrow> Manifest \<Rightarrow> Manifest \<Rightarrow> bytes \<Rightarrow> PrivacyIntent" where
  "rewrite_intent h m m1 b = \<lparr>pi_before = m, pi_after = m1, replacement_digest = journal_hash h b\<rparr>"

lemma rewrite_intent_simps [simp]:
  "pi_before (rewrite_intent h m m1 b) = m" "pi_after (rewrite_intent h m m1 b) = m1"
  "replacement_digest (rewrite_intent h m m1 b) = journal_hash h b"
  by (simp_all add: rewrite_intent_def)

definition replaced :: "host \<Rightarrow> 'v codec \<Rightarrow> Manifest \<Rightarrow> Manifest \<Rightarrow> bytes list \<Rightarrow> bytes \<Rightarrow> 'v list \<Rightarrow> bytes \<Rightarrow> 'v list \<Rightarrow> bool" where
  "replaced h c m m1 segs body ts b ts1 \<longleftrightarrow> history h c m segs body ts \<and> history h c m1 [] b ts1 \<and>
     privacy_intent_ok (rewrite_intent h m m1 b) \<and> (journal_hash h body = journal_hash h b \<longrightarrow> body = b)"

definition announced :: "host \<Rightarrow> Manifest \<Rightarrow> Manifest \<Rightarrow> bytes \<Rightarrow> Files \<Rightarrow> bool" where
  "announced h m m1 b f \<longleftrightarrow> d_privacy f = Regular (Doc (rewrite_intent h m m1 b)) \<and> d_append f = Missing"

definition replacing :: "Manifest \<Rightarrow> bytes list \<Rightarrow> bytes \<Rightarrow> bytes \<Rightarrow> Files \<Rightarrow> bool" where
  "replacing m segs body b f \<longleftrightarrow> d_manifest f = Regular (Doc m) \<and> holds_segments m segs f \<and> named_below (length segs) f \<and>
     d_events f = Regular body \<and> d_next f = Regular b"

definition rewritten :: "Manifest \<Rightarrow> Manifest \<Rightarrow> bytes \<Rightarrow> Files \<Rightarrow> bool" where
  "rewritten m m1 b f \<longleftrightarrow> (d_manifest f = Regular (Doc m) \<or> d_manifest f = Regular (Doc m1)) \<and> d_events f = Regular b \<and>
     named_below (length (sealed m)) f \<and> (\<forall>i < length (sealed m). segment f i \<noteq> Directory) \<and>
     (sealed m \<noteq> [] \<longrightarrow> d_segments f \<noteq> NoSegments)"

lemma replacing_same: "replacing m segs b b f \<Longrightarrow> rewritten m m1 b f"
  by (auto simp: replacing_def rewritten_def holds_segments_def)

lemma replacing_moved:
  "replacing m segs body b f \<Longrightarrow> rewritten m m1 b (f\<lparr>d_events := Regular b, d_next := Missing\<rparr>)"
  by (auto simp: replacing_def rewritten_def holds_segments_def)


section \<open>Removing the retired segments\<close>

text \<open>The same directory but for \<open>segments/\<close>.\<close>

definition beside_segments :: "Files \<Rightarrow> Files \<Rightarrow> bool" where
  "beside_segments f g \<longleftrightarrow> framed f g \<and> d_manifest g = d_manifest f \<and> d_events g = d_events f \<and> d_append g = d_append f \<and>
     d_privacy g = d_privacy f"

lemma named_put_any: "named_below n f \<Longrightarrow> named_below n (put_segment i Missing f)"
  by (auto simp: named_below_def entries_put bt_remove_def)

lemma rewritten_put: "rewritten m m1 b f \<Longrightarrow> rewritten m m1 b (put_segment i Missing f)"
  by (auto simp: rewritten_def named_put_any) (simp_all add: put_segment_def)

lemma remove_segment_run:
  assumes "rewritten m m1 b (w_files w)" and "i < length (sealed m)"
  shows "\<exists>w'. remove_segment i w = (Inr (), w') \<and> w_tick w' = w_tick w \<and> rewritten m m1 b (w_files w') \<and>
    beside_segments (w_files w) (w_files w') \<and> (\<forall>j. segment (w_files w') j = (if j = i then Missing else segment (w_files w) j)) \<and>
    visits (\<lambda>g. rewritten m m1 b g \<and> beside_segments (w_files w) g) w w'"
proof -
  let ?f = "w_files w" and ?g = "put_segment i Missing (w_files w)"
  have meta: "segment_meta i ?f = Inr (segment ?f i)" using assms(1) by (simp add: segment_meta_def rewritten_def named_below_def)
  have g: "rewritten m m1 b ?g" "beside_segments ?f ?g" using rewritten_put[OF assms(1)] by (simp_all add: beside_segments_def framed_def)
  have nd: "segment ?f i \<noteq> Directory" using assms by (simp add: rewritten_def)
  show ?thesis
  proof (cases "segment ?f i = Missing")
    case True
    then have "remove_segment i w = (Inr (), w)" using meta by (simp add: remove_segment_def c_bind_run with_files_run c_return_run)
    then show ?thesis using True assms(1) by (auto simp: beside_segments_def)
  next
    case False
    then have "remove_segment i w = (Inr (), w\<lparr>w_files := ?g, w_past := w_past w @ [?g]\<rparr>)"
      using meta nd by (cases "segment ?f i") (simp_all add: remove_segment_def c_bind_run with_files_run change_run)
    then show ?thesis using g by (simp add: visits_def)
  qed
qed

lemma remove_segments_run:
  assumes "rewritten m m1 b (w_files w)" and "set is \<subseteq> {..<length (sealed m)}"
  shows "\<exists>w'. c_each remove_segment is w = (Inr (), w') \<and> w_tick w' = w_tick w \<and> rewritten m m1 b (w_files w') \<and>
    beside_segments (w_files w) (w_files w') \<and> (\<forall>j. segment (w_files w') j = (if j \<in> set is then Missing else segment (w_files w) j)) \<and>
    visits (\<lambda>g. rewritten m m1 b g \<and> beside_segments (w_files w) g) w w'"
  using assms
proof (induction "is" arbitrary: w)
  case Nil
  then show ?case by (simp add: c_return_run beside_segments_def)
next
  case (Cons i "is")
  from Cons.prems remove_segment_run[of m m1 b w i] obtain w1 where w1: "remove_segment i w = (Inr (), w1)" "w_tick w1 = w_tick w"
    "rewritten m m1 b (w_files w1)" "beside_segments (w_files w) (w_files w1)"
    "\<forall>j. segment (w_files w1) j = (if j = i then Missing else segment (w_files w) j)"
    "visits (\<lambda>g. rewritten m m1 b g \<and> beside_segments (w_files w) g) w w1" by auto
  from Cons.IH[OF w1(3)] Cons.prems obtain w2 where w2: "c_each remove_segment is w1 = (Inr (), w2)" "w_tick w2 = w_tick w1"
    "rewritten m m1 b (w_files w2)" "beside_segments (w_files w1) (w_files w2)"
    "\<forall>j. segment (w_files w2) j = (if j \<in> set is then Missing else segment (w_files w1) j)"
    "visits (\<lambda>g. rewritten m m1 b g \<and> beside_segments (w_files w1) g) w1 w2" by auto
  have trans: "beside_segments (w_files w1) g \<Longrightarrow> beside_segments (w_files w) g" for g
    using w1(4) by (auto simp: beside_segments_def intro: framed_trans)
  have "visits (\<lambda>g. rewritten m m1 b g \<and> beside_segments (w_files w) g) w w2"
    by (rule visits_trans[OF w1(6) visits_mono[OF w2(6)]]) (use trans in blast)
  then show ?case using w1 w2 trans by (simp add: c_bind_run)
qed

lemma named_none:
  assumes "named_below n f" and "\<forall>j < n. segment f j = Missing"
  shows "named_below 0 f"
proof -
  have False if e: "e \<in> set (segment_entries f)" for e
  proof -
    obtain j where j: "fst e = segment_name j" "j < n" using assms(1) e unfolding named_below_def by blast
    have "segment_name j \<in> fst ` set (segment_entries f)" using e j(1) by (metis imageI)
    then have "bt_get (segment_entries f) (segment_name j) \<noteq> None" by (simp add: bt_get_def map_of_eq_None_iff)
    then obtain x where x: "bt_get (segment_entries f) (segment_name j) = Some x" by blast
    then have "x = Missing" using assms(2) j(2) by (auto simp: segment_def)
    then show False using bt_get_SomeD[OF x] assms(1) unfolding named_below_def by auto
  qed
  then have "segment_entries f = []" by (cases "segment_entries f") auto
  then show ?thesis using assms(1) by (simp add: named_below_def)
qed

lemma remove_sealed_run:
  assumes "rewritten m m1 b (w_files w)"
  shows "\<exists>w'. remove_sealed (length (sealed m)) w = (Inr (), w') \<and> w_tick w' = w_tick w \<and> rewritten m m1 b (w_files w') \<and>
    beside_segments (w_files w) (w_files w') \<and> named_below 0 (w_files w') \<and>
    visits (\<lambda>g. rewritten m m1 b g \<and> beside_segments (w_files w) g) w w'"
proof (cases "sealed m = []")
  case True
  then show ?thesis using assms by (simp add: remove_sealed_def c_return_run beside_segments_def rewritten_def)
next
  case False
  have "set [0..<length (sealed m)] \<subseteq> {..<length (sealed m)}" by auto
  from remove_segments_run[OF assms this] obtain w1 where w1: "c_each remove_segment [0..<length (sealed m)] w = (Inr (), w1)" "w_tick w1 = w_tick w"
    "rewritten m m1 b (w_files w1)" "beside_segments (w_files w) (w_files w1)"
    "\<forall>j. segment (w_files w1) j = (if j \<in> set [0..<length (sealed m)] then Missing else segment (w_files w) j)"
    "visits (\<lambda>g. rewritten m m1 b g \<and> beside_segments (w_files w) g) w w1" by blast
  have "d_segments (w_files w1) \<noteq> NoSegments" "named_below 0 (w_files w1)"
    using w1(3,5) False named_none by (auto simp: rewritten_def)
  then show ?thesis using w1 False by (simp add: remove_sealed_def c_bind_run with_files_run)
qed


section \<open>Recovery of a rewrite\<close>

lemma rewritten_aside:
  assumes "aside f g" and "rewritten m m1 b f"
  shows "rewritten m m1 b g"
proof -
  have "d_segments g = d_segments f" using assms(1) by (simp add: aside_def)
  then have "named_below n g = named_below n f" "segment g i = segment f i" for n i
    by (simp_all add: named_below_cong[of g f] segment_def segment_entries_def)
  then show ?thesis using assms by (simp add: aside_def rewritten_def)
qed

lemma replacing_aside:
  assumes "aside f g" and "replacing m segs body b f"
  shows "replacing m segs body b g"
proof -
  have "d_segments g = d_segments f" using assms(1) by (simp add: aside_def)
  then have "named_below n g = named_below n f" "holds_segments m segs g = holds_segments m segs f" for n
    by (simp_all add: named_below_cong[of g f] holds_segments_cong[of g f])
  then show ?thesis using assms by (simp add: aside_def replacing_def)
qed

text \<open>A directory on the way to the rewritten history.\<close>

definition rewriting :: "host \<Rightarrow> 'v codec \<Rightarrow> Manifest \<Rightarrow> Manifest \<Rightarrow> bytes list \<Rightarrow> bytes \<Rightarrow> bytes \<Rightarrow> 'v list \<Rightarrow> Files \<Rightarrow> bool" where
  "rewriting h c m m1 segs body b ts1 f \<longleftrightarrow>
     announced h m m1 b f \<and> (replacing m segs body b f \<or> rewritten m m1 b f) \<or> settled h c m1 [] b ts1 f"

text \<open>After the retired segments are gone, the replacement file and the intent go.\<close>

lemma finish_rewrite_end:
  assumes "announced h m m1 b (w_files w)" and "rewritten m m1 b (w_files w)" and "d_manifest (w_files w) = Regular (Doc m1)"
    and "named_below 0 (w_files w)" and hist: "history h c m1 [] b ts1" and "sealed m1 = []" and sur: "surrounds h N k (w_files w)"
  shows "\<exists>w'. c_bind (c_get (\<lambda>w. node_exists (d_next (w_files w))) (\<lambda>e. if e then remove_file d_next put_next else c_return ())) (\<lambda>_.
      c_bind (remove_file d_privacy put_privacy) (\<lambda>_. c_return m1)) w = (Inr m1, w') \<and> w_tick w' = w_tick w \<and>
    settled h c m1 [] b ts1 (w_files w') \<and> surrounds h N k (w_files w') \<and>
    visits (\<lambda>g. rewriting h c m m1 segs body b ts1 g \<and> surrounds h N k g) w w'"
proof -
  let ?f = "w_files w" and ?g = "(w_files w)\<lparr>d_next := Missing\<rparr>"
  let ?w = "w\<lparr>w_files := ?g, w_past := w_past w @ [?g]\<rparr>"
  have "\<exists>w1. c_get (\<lambda>w. node_exists (d_next (w_files w))) (\<lambda>e. if e then remove_file d_next put_next else c_return ()) w = (Inr (), w1) \<and>
      w_files w1 = ?g \<and> w_tick w1 = w_tick w \<and> visits (\<lambda>g. g = ?g) w w1"
  proof (cases "d_next ?f = Missing")
    case True
    then have "?f = ?g" by simp
    then show ?thesis using True by (auto simp: c_get_run c_return_run)
  next
    case False
    then obtain x where "d_next ?f = Regular x" using sur by (auto simp: surrounds_def)
    then have "c_get (\<lambda>w. node_exists (d_next (w_files w))) (\<lambda>e. if e then remove_file d_next put_next else c_return ()) w = (Inr (), ?w)"
      by (simp add: c_get_run remove_file_def c_bind_run with_files_run change_run)
    then show ?thesis by (simp add: visits_def)
  qed
  then obtain w1 where w1: "c_get (\<lambda>w. node_exists (d_next (w_files w))) (\<lambda>e. if e then remove_file d_next put_next else c_return ()) w = (Inr (), w1)"
    "w_files w1 = ?g" "w_tick w1 = w_tick w" "visits (\<lambda>g. g = ?g) w w1" by blast
  let ?k = "?g\<lparr>d_privacy := Missing\<rparr>"
  let ?w2 = "w1\<lparr>w_files := ?k, w_past := w_past w1 @ [?k]\<rparr>"
  have run: "remove_file d_privacy put_privacy w1 = (Inr (), ?w2)"
    using assms(1) w1(2) by (simp add: announced_def remove_file_def c_bind_run with_files_run change_run)
  have g: "announced h m m1 b ?g" "rewritten m m1 b ?g" "surrounds h N k ?g" "surrounds h N k ?k"
    using assms(1,2) sur by (simp_all add: announced_def rewritten_def surrounds_def)
  have k: "settled h c m1 [] b ts1 ?k"
    using assms(1-6) by (simp add: settled_def announced_def rewritten_def holds_segments_def)
  have "visits (\<lambda>g. rewriting h c m m1 segs body b ts1 g \<and> surrounds h N k g) w ?w2"
    using w1(4) g k by (auto simp: visits_def rewriting_def)
  then show ?thesis using w1 run k g(4) by (simp add: c_bind_run c_return_run)
qed

lemma finish_rewrite_run:
  assumes "announced h m m1 b (w_files w)" and "rewritten m m1 b (w_files w)" and "history h c m1 [] b ts1" and "sealed m1 = []"
    and "surrounds h N (w_tick w) (w_files w)" and "w_tick w < N" and "inj_on (uuid_at h) {..<N}"
  shows "\<exists>w'. finish_rewrite h (rewrite_intent h m m1 b) w = (Inr m1, w') \<and> w_tick w' = Suc (w_tick w) \<and>
    settled h c m1 [] b ts1 (w_files w') \<and> surrounds h N (Suc (w_tick w)) (w_files w') \<and>
    visits (\<lambda>g. rewriting h c m m1 segs body b ts1 g \<and> surrounds h N (Suc (w_tick w)) g) w w'"
proof -
  let ?f = "w_files w" and ?P = "\<lambda>g. rewriting h c m m1 segs body b ts1 g \<and> surrounds h N (Suc (w_tick w)) g"
  have "d_manifest (?f\<lparr>d_staging := st\<rparr>) \<noteq> Directory" for st using assms(2) by (auto simp: rewritten_def)
  from atomic_json_run[of h N w d_manifest put_manifest m1, OF assms(5-7) this] obtain f1 f2 w1 where
    w1: "atomic_json h d_manifest put_manifest m1 w = (Inr (), w1)" "w_past w1 = w_past w @ [f1, f2\<lparr>d_manifest := Regular (Doc m1)\<rparr>]"
    "w_files w1 = f2\<lparr>d_manifest := Regular (Doc m1)\<rparr>" "w_tick w1 = Suc (w_tick w)" "aside ?f f1" "aside ?f f2"
    "surrounds h N (Suc (w_tick w)) f1" "surrounds h N (Suc (w_tick w)) f2" by blast
  have f1: "?P f1" using rewritten_aside[OF w1(5) assms(2)] w1(5,7) assms(1) by (simp add: rewriting_def announced_def aside_def)
  have f2: "rewritten m m1 b (w_files w1)" "announced h m m1 b (w_files w1)" "surrounds h N (Suc (w_tick w)) (w_files w1)"
    using rewritten_aside[OF w1(6) assms(2)] w1(3,6,8) assms(1) by (simp_all add: rewritten_def announced_def aside_def surrounds_def)
  have v1: "visits ?P w w1" using f1 f2 w1(2,3) by (auto simp: visits_def rewriting_def)
  from remove_sealed_run[OF f2(1)] obtain w2 where w2: "remove_sealed (length (sealed m)) w1 = (Inr (), w2)" "w_tick w2 = w_tick w1"
    "rewritten m m1 b (w_files w2)" "beside_segments (w_files w1) (w_files w2)" "named_below 0 (w_files w2)"
    "visits (\<lambda>g. rewritten m m1 b g \<and> beside_segments (w_files w1) g) w1 w2" by blast
  have bes: "announced h m m1 b g \<and> surrounds h N (Suc (w_tick w)) g" if "beside_segments (w_files w1) g" for g
    using that f2 framed_surrounds by (auto simp: beside_segments_def announced_def)
  have v2: "visits ?P w1 w2" by (rule visits_mono[OF w2(6)]) (use bes in \<open>auto simp: rewriting_def\<close>)
  have "d_manifest (w_files w2) = Regular (Doc m1)" using w2(4) w1(3) by (simp add: beside_segments_def)
  from finish_rewrite_end[OF conjunct1[OF bes[OF w2(4)]] w2(3) this w2(5) assms(3,4) conjunct2[OF bes[OF w2(4)]]]
  obtain w3 where w3: "c_bind (c_get (\<lambda>w. node_exists (d_next (w_files w))) (\<lambda>e. if e then remove_file d_next put_next else c_return ())) (\<lambda>_.
      c_bind (remove_file d_privacy put_privacy) (\<lambda>_. c_return m1)) w2 = (Inr m1, w3)" "w_tick w3 = w_tick w2"
    "settled h c m1 [] b ts1 (w_files w3)" "surrounds h N (Suc (w_tick w)) (w_files w3)" "visits ?P w2 w3" by blast
  have "finish_rewrite h (rewrite_intent h m m1 b) w = (Inr m1, w3)"
    using w1(1) w2(1) w3(1) by (simp add: finish_rewrite_def c_bind_run)
  then show ?thesis using w1(4) w2(2) w3(2-4) visits_trans[OF visits_trans[OF v1 v2] w3(5)] by simp
qed


lemma recover_privacy_start:
  assumes "announced h m m1 b (w_files w)" and plan: "replaced h c m m1 segs body ts b ts1" and "current = m \<or> current = m1"
    and "d_events (w_files w) = Regular e"
  shows "recover_privacy h c current w = c_bind (if journal_hash h e = journal_hash h b
      then c_bind (with_files (\<lambda>_. decode h c e m1)) (\<lambda>_. c_return ())
      else install_replacement h c (rewrite_intent h m m1 b) e) (\<lambda>_. finish_rewrite h (rewrite_intent h m m1 b)) w"
proof -
  have "read_doc (d_privacy (w_files w)) = Inr (rewrite_intent h m m1 b)" using assms(1) by (simp add: announced_def read_doc_def)
  moreover have "privacy_intent_ok (rewrite_intent h m m1 b)" using plan by (simp add: replaced_def)
  ultimately show ?thesis using assms(3,4) by (auto simp: recover_privacy_def c_bind_run with_files_run)
qed

lemma install_run:
  assumes "announced h m m1 b (w_files w)" and plan: "replaced h c m m1 segs body ts b ts1" and rep: "replacing m segs body b (w_files w)"
  shows "install_replacement h c (rewrite_intent h m m1 b) body w =
    (Inr (), w\<lparr>w_files := (w_files w)\<lparr>d_events := Regular b, d_next := Missing\<rparr>,
       w_past := w_past w @ [(w_files w)\<lparr>d_events := Regular b, d_next := Missing\<rparr>]\<rparr>)"
proof -
  have "read_sealed m (w_files w) = Inr (concat segs)"
    using plan rep history_active(2) unfolding replaced_def replacing_def by blast
  moreover have "decode h c (concat segs @ body) m = Inr ts" "decode h c b m1 = Inr ts1"
    using plan by (simp_all add: replaced_def history_def)
  moreover have "d_next (w_files w) = Regular b" using rep by (simp add: replacing_def)
  ultimately show ?thesis by (simp add: install_replacement_def c_bind_run with_files_run change_run)
qed

lemma recover_rewrite:
  assumes ann: "announced h m m1 b (w_files w)" and plan: "replaced h c m m1 segs body ts b ts1"
    and here: "replacing m segs body b (w_files w) \<or> rewritten m m1 b (w_files w)" and cur: "d_manifest (w_files w) = Regular (Doc current)"
    and sur: "surrounds h N (w_tick w) (w_files w)" "w_tick w < N" "inj_on (uuid_at h) {..<N}"
  shows "\<exists>w'. recover_privacy h c current w = (Inr m1, w') \<and> w_tick w' = Suc (w_tick w) \<and>
    settled h c m1 [] b ts1 (w_files w') \<and> surrounds h N (Suc (w_tick w)) (w_files w') \<and>
    visits (\<lambda>g. rewriting h c m m1 segs body b ts1 g \<and> surrounds h N (Suc (w_tick w)) g) w w'"
proof -
  have hist: "history h c m1 [] b ts1" "sealed m1 = []" using plan by (simp_all add: replaced_def privacy_intent_ok_def Let_def)
  have cur': "current = m \<or> current = m1" using here cur by (auto simp: replacing_def rewritten_def)
  let ?P = "\<lambda>g. rewriting h c m m1 segs body b ts1 g \<and> surrounds h N (Suc (w_tick w)) g"
  show ?thesis
  proof (cases "rewritten m m1 b (w_files w)")
    case True
    then have "recover_privacy h c current w = finish_rewrite h (rewrite_intent h m m1 b) w"
      using recover_privacy_start[OF ann plan cur', of b] hist(1) by (simp add: rewritten_def history_def c_bind_run with_files_run c_return_run)
    then show ?thesis using finish_rewrite_run[OF ann True hist sur] by simp
  next
    case False
    then have rep: "replacing m segs body b (w_files w)" using here by blast
    have "body \<noteq> b" using False replacing_same rep by blast
    then have "journal_hash h body \<noteq> journal_hash h b" using plan by (auto simp: replaced_def)
    moreover have ev: "d_events (w_files w) = Regular body" using rep by (simp add: replacing_def)
    let ?g = "(w_files w)\<lparr>d_events := Regular b, d_next := Missing\<rparr>"
    let ?w = "w\<lparr>w_files := ?g, w_past := w_past w @ [?g]\<rparr>"
    have run: "recover_privacy h c current w = finish_rewrite h (rewrite_intent h m m1 b) ?w"
      using recover_privacy_start[OF ann plan cur' ev] calculation install_run[OF ann plan rep] by (simp add: c_bind_run)
    have g: "rewritten m m1 b ?g" "announced h m m1 b ?g" "surrounds h N (w_tick w) ?g"
      using replacing_moved[OF rep] ann sur(1) by (simp_all add: announced_def surrounds_def)
    then obtain w' where w': "finish_rewrite h (rewrite_intent h m m1 b) ?w = (Inr m1, w')" "w_tick w' = Suc (w_tick w)"
      "settled h c m1 [] b ts1 (w_files w')" "surrounds h N (Suc (w_tick w)) (w_files w')" "visits ?P ?w w'"
      using finish_rewrite_run[of h m m1 b ?w c ts1 N segs body] hist sur(2,3) by auto
    have "?P ?g" using g surrounds_later[OF g(3)] by (simp add: rewriting_def)
    then have "visits ?P w ?w" by (simp add: visits_def)
    then show ?thesis using w' run visits_trans by (metis (no_types, lifting))
  qed
qed

end
