(* ===== verification/JournalCrash.thy ===== *)
theory JournalCrash
  imports JournalAppend JournalRewrite
begin

text \<open>
  What a process that dies leaves behind: every state an append, a rewrite or a recovery goes
  through is \<open>recoverable\<close> to one whole history, and opening a recoverable directory, even after
  further crashes in recovery, gives that history.
\<close>

section \<open>Opening a recoverable directory\<close>

definition recoverable :: "host \<Rightarrow> 'v codec \<Rightarrow> nat \<Rightarrow> nat \<Rightarrow> 'v list \<Rightarrow> Files \<Rightarrow> bool" where
  "recoverable h c N k ts f \<longleftrightarrow> surrounds h N k f \<and>
     ((\<exists>m segs body. settled h c m segs body ts f) \<or>
      (\<exists>m m1 line segs body ts0 t. planned h c m m1 line segs body ts0 t \<and> pending m m1 line f \<and>
         (uncommitted m line segs body f \<and> ts = ts0 \<or> published m m1 line segs body f \<and> ts = ts0 @ [t])) \<or>
      (\<exists>m m1 segs body ts0 b. replaced h c m m1 segs body ts0 b ts \<and> announced h m m1 b f \<and>
         (replacing m segs body b f \<or> rewritten m m1 b f)))"

lemma recoverable_settled: "settled h c m segs body ts f \<Longrightarrow> surrounds h N k f \<Longrightarrow> recoverable h c N k ts f"
  unfolding recoverable_def by blast

lemma recoverable_pending:
  "planned h c m m1 line segs body ts t \<Longrightarrow> pending m m1 line f \<Longrightarrow> uncommitted m line segs body f \<Longrightarrow>
     surrounds h N k f \<Longrightarrow> recoverable h c N k ts f"
  "planned h c m m1 line segs body ts t \<Longrightarrow> pending m m1 line f \<Longrightarrow> published m m1 line segs body f \<Longrightarrow>
     surrounds h N k f \<Longrightarrow> recoverable h c N k (ts @ [t]) f"
  unfolding recoverable_def by blast+

lemma recoverable_rewriting:
  "replaced h c m m1 segs body ts b ts1 \<Longrightarrow> rewriting h c m m1 segs body b ts1 f \<Longrightarrow> surrounds h N k f \<Longrightarrow> recoverable h c N k ts1 f"
  unfolding recoverable_def rewriting_def by blast

lemma recoverable_surrounds: "recoverable h c N k ts f \<Longrightarrow> surrounds h N k f"
  by (simp add: recoverable_def)

lemma recoverable_later: "recoverable h c N k ts f \<Longrightarrow> k \<le> k' \<Longrightarrow> recoverable h c N k' ts f"
  unfolding recoverable_def using surrounds_later by blast

text \<open>How every open of a directory with a known manifest begins.\<close>

lemma open_start:
  assumes "surrounds h N k (w_files w)" and "d_manifest (w_files w) = Regular (Doc m0)" and "known m0"
    and "d_privacy (w_files w) = Missing \<or> d_append (w_files w) = Missing"
  shows "open_existing h c w =
    c_bind (if node_exists (d_privacy (w_files w)) then recover_privacy h c m0 else c_return m0) (\<lambda>m.
    c_bind (c_get (\<lambda>w. node_exists (d_append (w_files w))) (\<lambda>e. if e then recover_append h c m else c_return ())) (\<lambda>_.
    c_bind (with_files (read_history h c m)) (\<lambda>(committed, ts).
    c_bind sweep_unselected (\<lambda>_. c_return \<lparr>j_manifest = m, j_transactions = ts, j_content = committed\<rparr>)))) w"
proof -
  have "enter_root None w = (Inr (), w)"
    using assms(1) by (simp add: surrounds_def enter_root_def c_bind_run with_files_run c_get_run c_return_run c_lift_run)
  moreover have "create_journal h None w = (Inr (), w)"
    using assms(2) by (simp add: create_journal_def c_get_run c_return_run)
  moreover have "read_doc (d_manifest (w_files w)) = Inr m0" using assms(2) by (simp add: read_doc_def)
  moreover have "\<not> (node_exists (d_privacy (w_files w)) \<and> node_exists (d_append (w_files w)))" using assms(4) by auto
  ultimately show ?thesis
    using assms(3) by (simp add: open_existing_def open_with_creation_def c_bind_run with_files_run c_get_run)
qed

definition opens :: "host \<Rightarrow> 'v codec \<Rightarrow> nat \<Rightarrow> 'v list \<Rightarrow> World \<Rightarrow> 'v Journal \<Rightarrow> World \<Rightarrow> bool" where
  "opens h c N ts w j w' \<longleftrightarrow> open_existing h c w = (Inr j, w') \<and> w_tick w \<le> w_tick w' \<and> w_tick w' \<le> Suc (w_tick w) \<and>
     (\<exists>m segs body. settled h c m segs body ts (w_files w') \<and> j = \<lparr>j_manifest = m, j_transactions = ts, j_content = concat segs @ body\<rparr>) \<and>
     surrounds h N (w_tick w') (w_files w') \<and> visits (recoverable h c N (w_tick w') ts) w w'"

lemma opens_end:
  assumes "open_existing h c w = c_bind (with_files (read_history h c m)) (\<lambda>(committed, ts).
      c_bind sweep_unselected (\<lambda>_. c_return \<lparr>j_manifest = m, j_transactions = ts, j_content = committed\<rparr>)) wr"
    and "settled h c m segs body ts (w_files wr)" and "surrounds h N (w_tick wr) (w_files wr)"
    and "visits (recoverable h c N (w_tick wr) ts) w wr" and "w_tick w \<le> w_tick wr" and "w_tick wr \<le> Suc (w_tick w)"
  shows "\<exists>j w'. opens h c N ts w j w'"
proof -
  let ?j = "\<lparr>j_manifest = m, j_transactions = ts, j_content = concat segs @ body\<rparr>"
  from finish_run[OF assms(2,3)] obtain w' where w': "open_existing h c w = (Inr ?j, w')"
    "visits (\<lambda>g. settled h c m segs body ts g \<and> surrounds h N (w_tick wr) g) wr w'"
    "settled h c m segs body ts (w_files w')" "surrounds h N (w_tick wr) (w_files w')" "w_tick w' = w_tick wr"
    using assms(1) by auto
  have "visits (recoverable h c N (w_tick wr) ts) wr w'"
    by (rule visits_mono[OF w'(2)]) (auto intro: recoverable_settled)
  then have "visits (recoverable h c N (w_tick wr) ts) w w'" using assms(4) visits_trans by blast
  then have "opens h c N ts w ?j w'" unfolding opens_def using w' assms(5,6) by (simp del: split_paired_Ex) blast
  then show ?thesis by blast
qed

lemma open_settled:
  assumes "settled h c m segs body ts (w_files w)" and "surrounds h N (w_tick w) (w_files w)"
  shows "\<exists>j w'. opens h c N ts w j w'"
proof -
  have "d_manifest (w_files w) = Regular (Doc m)" "known m" "d_append (w_files w) = Missing" "d_privacy (w_files w) = Missing"
    using assms(1) by (simp_all add: settled_def history_def)
  then have "open_existing h c w = c_bind (with_files (read_history h c m)) (\<lambda>(committed, ts).
      c_bind sweep_unselected (\<lambda>_. c_return \<lparr>j_manifest = m, j_transactions = ts, j_content = committed\<rparr>)) w"
    using open_start[OF assms(2), of m c] by (simp add: c_bind_run[of "c_return _"] c_bind_run[of "c_get _ _"] c_return_run c_get_run)
  then show ?thesis using assms by (rule opens_end) simp_all
qed

lemma open_pending:
  assumes plan: "planned h c m m1 line segs body ts0 t" and pend: "pending m m1 line (w_files w)"
    and here: "uncommitted m line segs body (w_files w) \<and> ts = ts0 \<or> published m m1 line segs body (w_files w) \<and> ts = ts0 @ [t]"
    and sur: "surrounds h N (w_tick w) (w_files w)"
  shows "\<exists>j w'. opens h c N ts w j w'"
proof -
  obtain m' segs' body' w1 where man: "d_manifest (w_files w) = Regular (Doc m')" "known m'"
    and run: "recover_append h c m' w = (Inr (), w1)" and set1: "settled h c m' segs' body' ts (w_files w1)"
    and fr: "framed (w_files w) (w_files w1)" and tick: "w_tick w1 = w_tick w"
    and vis: "visits (\<lambda>g. framed (w_files w) g \<and> recoverable h c N (w_tick w) ts g) w w1"
  proof (cases "uncommitted m line segs body (w_files w) \<and> ts = ts0")
    case True
    from recover_undo[OF pend plan conjunct1[OF True]] obtain w1 where w1: "recover_append h c m w = (Inr (), w1)"
      "settled h c m segs body ts0 (w_files w1)" "framed (w_files w) (w_files w1)" "w_tick w1 = w_tick w"
      "visits (\<lambda>g. framed (w_files w) g \<and> (pending m m1 line g \<and> uncommitted m line segs body g \<or> settled h c m segs body ts0 g)) w w1" by blast
    have "visits (\<lambda>g. framed (w_files w) g \<and> recoverable h c N (w_tick w) ts g) w w1"
      by (rule visits_mono[OF w1(5)]) (use True plan sur framed_surrounds in \<open>auto intro: recoverable_pending(1) recoverable_settled\<close>)
    then show ?thesis using that[of m w1 segs body] True w1 plan by (simp add: uncommitted_def planned_def history_def)
  next
    case False
    let ?segs = "if seals m then segs @ [body] else segs" and ?body = "if seals m then line else body @ line"
    have pub: "published m m1 line segs body (w_files w)" and ts: "ts = ts0 @ [t]" using here False by blast+
    from recover_keep[OF pend plan pub] obtain w1 where w1: "recover_append h c m1 w = (Inr (), w1)"
      "settled h c m1 ?segs ?body (ts0 @ [t]) (w_files w1)" "framed (w_files w) (w_files w1)" "w_tick w1 = w_tick w"
      "visits (\<lambda>g. framed (w_files w) g \<and> (pending m m1 line g \<and> published m m1 line segs body g \<or> settled h c m1 ?segs ?body (ts0 @ [t]) g)) w w1" by blast
    have "visits (\<lambda>g. framed (w_files w) g \<and> recoverable h c N (w_tick w) ts g) w w1"
      by (rule visits_mono[OF w1(5)]) (use ts plan sur framed_surrounds in \<open>auto intro: recoverable_pending(2) recoverable_settled\<close>)
    then show ?thesis using that[of m1 w1 ?segs ?body] pub ts w1 plan by (simp add: published_def planned_def history_def)
  qed
  have "open_existing h c w = c_bind (with_files (read_history h c m')) (\<lambda>(committed, ts).
      c_bind sweep_unselected (\<lambda>_. c_return \<lparr>j_manifest = m', j_transactions = ts, j_content = committed\<rparr>)) w1"
    using open_start[OF sur man, of c] pend run
    by (simp add: pending_def c_bind_run[of "c_return _"] c_bind_run[of "c_get _ _"] c_return_run c_get_run)
  moreover have "surrounds h N (w_tick w1) (w_files w1)" using framed_surrounds[OF fr sur] tick by simp
  moreover have "visits (recoverable h c N (w_tick w1) ts) w w1" using visits_mono[OF vis] tick by simp
  ultimately show ?thesis using opens_end[OF _ set1] tick by simp
qed

lemma open_rewriting:
  assumes plan: "replaced h c m m1 segs body ts0 b ts" and ann: "announced h m m1 b (w_files w)"
    and here: "replacing m segs body b (w_files w) \<or> rewritten m m1 b (w_files w)"
    and sur: "surrounds h N (w_tick w) (w_files w)" "w_tick w < N" "inj_on (uuid_at h) {..<N}"
  shows "\<exists>j w'. opens h c N ts w j w'"
proof -
  have known: "known m" "known m1" using plan by (simp_all add: replaced_def history_def)
  obtain m' where man: "d_manifest (w_files w) = Regular (Doc m')" "known m'"
    using here known by (auto simp: replacing_def rewritten_def)
  from recover_rewrite[OF ann plan here man(1) sur] obtain w1 where w1: "recover_privacy h c m' w = (Inr m1, w1)"
    "w_tick w1 = Suc (w_tick w)" "settled h c m1 [] b ts (w_files w1)" "surrounds h N (Suc (w_tick w)) (w_files w1)"
    "visits (\<lambda>g. rewriting h c m m1 segs body b ts g \<and> surrounds h N (Suc (w_tick w)) g) w w1" by blast
  have "d_append (w_files w1) = Missing" using w1(3) by (simp add: settled_def)
  then have "open_existing h c w = c_bind (with_files (read_history h c m1)) (\<lambda>(committed, ts).
      c_bind sweep_unselected (\<lambda>_. c_return \<lparr>j_manifest = m1, j_transactions = ts, j_content = committed\<rparr>)) w1"
    using open_start[OF sur(1) man, of c] ann w1(1)
    by (simp add: announced_def c_bind_run[of "recover_privacy _ _ _"] c_bind_run[of "c_get _ _"] c_return_run c_get_run)
  moreover have "visits (recoverable h c N (w_tick w1) ts) w w1"
    unfolding w1(2) by (rule visits_mono[OF w1(5)]) (use recoverable_rewriting[OF plan] in blast)
  ultimately show ?thesis using opens_end[OF _ w1(3)] w1(2,4) by simp
qed

lemma open_recoverable:
  assumes "recoverable h c N (w_tick w) ts (w_files w)" and "w_tick w < N" and "inj_on (uuid_at h) {..<N}"
  shows "\<exists>j w'. opens h c N ts w j w'"
  using assms(1) open_settled[of h c _ _ _ ts w N] open_pending[of h c _ _ _ _ _ _ _ w ts N] open_rewriting[of h c _ _ _ _ _ _ ts w N] assms(2,3)
  unfolding recoverable_def by blast



section \<open>An append, state by state\<close>

lemma c_map_err_ok: "f w = (Inr v, w') \<Longrightarrow> c_map_err e f w = (Inr v, w')"
  by (simp add: c_map_err_def map_err_def)

lemma pending_aside: "aside f g \<Longrightarrow> pending m m1 line f \<Longrightarrow> pending m m1 line g"
  by (simp add: aside_def pending_def)

lemma uncommitted_aside: "aside f g \<Longrightarrow> uncommitted m line segs body f \<Longrightarrow> uncommitted m line segs body g"
  using holds_segments_cong[of g f] named_below_cong[of g f]
  by (simp add: aside_def uncommitted_def segment_def segment_entries_def)

lemma published_aside:
  "aside f g \<Longrightarrow> published m m1 line segs body (f\<lparr>d_manifest := x\<rparr>) \<Longrightarrow> published m m1 line segs body (g\<lparr>d_manifest := x\<rparr>)"
  using holds_segments_cong[of g f] named_below_cong[of g f] by (simp add: aside_def published_def)

lemma surrounds_other [simp]:
  "surrounds h N k (f\<lparr>d_manifest := x\<rparr>) = surrounds h N k f" "surrounds h N k (f\<lparr>d_append := a\<rparr>) = surrounds h N k f"
  "surrounds h N k (f\<lparr>d_privacy := p\<rparr>) = surrounds h N k f"
  by (simp_all add: surrounds_def)

abbreviation either_way :: "host \<Rightarrow> 'v codec \<Rightarrow> nat \<Rightarrow> nat \<Rightarrow> 'v list \<Rightarrow> 'v list \<Rightarrow> Files \<Rightarrow> bool" where
  "either_way h c N k ts us g \<equiv> recoverable h c N k ts g \<or> recoverable h c N k us g"

text \<open>The intent becomes durable.\<close>

lemma announce_append_run:
  assumes "settled h c m segs body ts (w_files w)" and "planned h c m m1 line segs body ts t"
    and "surrounds h N (w_tick w) (w_files w)" and "w_tick w < N" and "inj_on (uuid_at h) {..<N}"
  shows "\<exists>w'. atomic_json h d_append put_append (intent m m1 line) w = (Inr (), w') \<and> w_tick w' = Suc (w_tick w) \<and>
    ready m segs body (w_files w') \<and> pending m m1 line (w_files w') \<and> surrounds h N (Suc (w_tick w)) (w_files w') \<and>
    visits (recoverable h c N (Suc (w_tick w)) ts) w w' \<and> passes w w' (w_files w')"
proof -
  have "d_append ((w_files w)\<lparr>d_staging := st\<rparr>) \<noteq> Directory" for st using assms(1) by (simp add: settled_def)
  from atomic_json_run[of h N w d_append put_append "intent m m1 line", OF assms(3-5) this] obtain f1 f2 w1 where
    w1: "atomic_json h d_append put_append (intent m m1 line) w = (Inr (), w1)"
      "w_past w1 = w_past w @ [f1, f2\<lparr>d_append := Regular (Doc (intent m m1 line))\<rparr>]"
      "w_files w1 = f2\<lparr>d_append := Regular (Doc (intent m m1 line))\<rparr>" "w_tick w1 = Suc (w_tick w)"
      "aside (w_files w) f1" "aside (w_files w) f2" "surrounds h N (Suc (w_tick w)) f1" "surrounds h N (Suc (w_tick w)) f2" by blast
  have s2: "settled h c m segs body ts f2" by (rule settled_aside[OF w1(6) assms(1)])
  have rd: "ready m segs body (w_files w1)" and pn: "pending m m1 line (w_files w1)"
    using s2 w1(3) by (simp_all add: ready_def pending_def settled_def)
  have "recoverable h c N (Suc (w_tick w)) ts f1"
    by (rule recoverable_settled[OF settled_aside[OF w1(5) assms(1)] w1(7)])
  moreover have "recoverable h c N (Suc (w_tick w)) ts (w_files w1)"
    by (rule recoverable_pending(1)[OF assms(2) pn ready_uncommitted[OF rd]]) (simp add: w1(3,8))
  ultimately show ?thesis using w1 rd pn by (auto simp: visits_def passes_def)
qed

text \<open>The new manifest is published and the intent goes.\<close>

lemma commit_append_run:
  assumes plan: "planned h c m m1 line segs body ts t" and "pending m m1 line (w_files w)" and "uncommitted m line segs body (w_files w)"
    and pub: "published m m1 line segs body ((w_files w)\<lparr>d_manifest := Regular (Doc m1)\<rparr>)"
    and sur: "surrounds h N (w_tick w) (w_files w)" "w_tick w < N" "inj_on (uuid_at h) {..<N}"
  shows "\<exists>w' segs' body'. c_bind (c_map_err (\<lambda>_. UnknownCommit) (atomic_json h d_manifest put_manifest m1)) (\<lambda>_.
      c_map_err (\<lambda>_. UnknownCommit) (remove_file d_append put_append)) w = (Inr (), w') \<and> w_tick w' = Suc (w_tick w) \<and>
    settled h c m1 segs' body' (ts @ [t]) (w_files w') \<and> concat segs' @ body' = concat segs @ body @ line \<and>
    surrounds h N (Suc (w_tick w)) (w_files w') \<and> visits (either_way h c N (Suc (w_tick w)) ts (ts @ [t])) w w'"
proof -
  have "d_manifest ((w_files w)\<lparr>d_staging := st\<rparr>) \<noteq> Directory" for st using assms(3) by (simp add: uncommitted_def)
  from atomic_json_run[of h N w d_manifest put_manifest m1, OF sur this] obtain f1 f2 w1 where
    w1: "atomic_json h d_manifest put_manifest m1 w = (Inr (), w1)"
      "w_past w1 = w_past w @ [f1, f2\<lparr>d_manifest := Regular (Doc m1)\<rparr>]"
      "w_files w1 = f2\<lparr>d_manifest := Regular (Doc m1)\<rparr>" "w_tick w1 = Suc (w_tick w)"
      "aside (w_files w) f1" "aside (w_files w) f2" "surrounds h N (Suc (w_tick w)) f1" "surrounds h N (Suc (w_tick w)) f2" by blast
  let ?k = "Suc (w_tick w)" and ?g = "(w_files w1)\<lparr>d_append := Missing\<rparr>"
  let ?segs = "if seals m then segs @ [body] else segs" and ?body = "if seals m then line else body @ line"
  have r1: "recoverable h c N ?k ts f1"
    by (rule recoverable_pending(1)[OF plan pending_aside[OF w1(5) assms(2)] uncommitted_aside[OF w1(5) assms(3)] w1(7)])
  have pn: "pending m m1 line (w_files w1)" using pending_aside[OF w1(6) assms(2)] w1(3) by (simp add: pending_def)
  have pb: "published m m1 line segs body (w_files w1)" using published_aside[OF w1(6) pub] w1(3) by simp
  have s1: "surrounds h N ?k (w_files w1)" using w1(3,8) by simp
  have st: "settled h c m1 ?segs ?body (ts @ [t]) ?g"
    using plan pn pb by (auto simp: settled_def planned_def published_def pending_def)
  have "remove_file d_append put_append w1 = (Inr (), w1\<lparr>w_files := ?g, w_past := w_past w1 @ [?g]\<rparr>)"
    using pn by (intro remove_append_run) (auto simp: pending_def)
  then have "c_bind (c_map_err (\<lambda>_. UnknownCommit) (atomic_json h d_manifest put_manifest m1)) (\<lambda>_.
      c_map_err (\<lambda>_. UnknownCommit) (remove_file d_append put_append)) w = (Inr (), w1\<lparr>w_files := ?g, w_past := w_past w1 @ [?g]\<rparr>)"
    using w1(1) by (simp add: c_bind_run c_map_err_ok)
  moreover have "visits (either_way h c N ?k ts (ts @ [t])) w (w1\<lparr>w_files := ?g, w_past := w_past w1 @ [?g]\<rparr>)"
    using r1 recoverable_pending(2)[OF plan pn pb s1] recoverable_settled[OF st, of N ?k] s1 w1(2,3) by (auto simp: visits_def)
  moreover have "concat ?segs @ ?body = concat segs @ body @ line" by simp
  ultimately show ?thesis using st s1 w1(4)
    by (intro exI[of _ "w1\<lparr>w_files := ?g, w_past := w_past w1 @ [?g]\<rparr>"] exI[of _ ?segs] exI[of _ ?body] conjI) (assumption | simp)+
qed


lemma target_free_run:
  assumes "settled h c m segs body ts f"
  shows "\<exists>b. seal_target_free m f = Inr b"
proof -
  have "length (sealed m) = length segs" "d_segments f \<noteq> OtherSegments" "segment f (length segs) = Missing"
    using assms named_below_Missing by (auto simp: settled_def holds_segments_def named_below_def)
  then show ?thesis by (cases "d_segments f") (auto simp: seal_target_free_def)
qed

text \<open>What the journal has to have for an append to be admitted: a successor of its sequence number and room.\<close>

definition admits :: "host \<Rightarrow> 'v codec \<Rightarrow> 'v Journal \<Rightarrow> 'v \<Rightarrow> bool" where
  "admits h c j t \<longleftrightarrow> (let m = j_manifest j; sq = mf_sequence m + 1 in
     unat (mf_sequence m) + 1 < 2 ^ 64 \<and> reads_back c (full_frame h c m sq (mf_digest m) t) \<and>
     length (j_content j) + length (fst (encode h c m sq (mf_digest m) t)) < 2 ^ 63 \<and> length (sealed m) < 10 ^ 10)"

definition committed :: "host \<Rightarrow> 'v codec \<Rightarrow> nat \<Rightarrow> 'v list \<Rightarrow> 'v Journal \<Rightarrow> World \<Rightarrow> bool" where
  "committed h c N ts j w \<longleftrightarrow> holds_journal h c j (w_files w) \<and> j_transactions j = ts \<and> surrounds h N (w_tick w) (w_files w)"

lemma journal_append_run:
  assumes held: "holds_journal h c j (w_files w)" and ok: "admits h c j t"
    and sur: "surrounds h N (w_tick w) (w_files w)" "w_tick w + 1 < N" "inj_on (uuid_at h) {..<N}"
  shows "\<exists>j' w'. Journal_append h c t j w = (Inr j', w') \<and> w_tick w' = w_tick w + 2 \<and> committed h c N (j_transactions j @ [t]) j' w' \<and>
    visits (either_way h c N (w_tick w + 2) (j_transactions j) (j_transactions j @ [t])) w w' \<and> (\<exists>g. passes w w' g \<and> d_append g \<noteq> Missing)"
proof -
  let ?m = "j_manifest j" and ?sq = "mf_sequence (j_manifest j) + 1" and ?ts = "j_transactions j"
  obtain segs body where st: "settled h c ?m segs body ?ts (w_files w)" and con: "j_content j = concat segs @ body"
    using held by (auto simp: holds_journal_def)
  then have hist: "history h c ?m segs body ?ts" and hold: "holds_segments ?m segs (w_files w)" by (simp_all add: settled_def)
  have sq: "checked_add (mf_sequence ?m) 1 = Some ?sq" using ok by (simp add: admits_def Let_def checked_add_def)
  obtain line dg where enc: "encode h c ?m ?sq (mf_digest ?m) t = (line, dg)" by force
  have "reads_back c (full_frame h c ?m ?sq (mf_digest ?m) t)" "length (concat segs @ body @ line) < 2 ^ 63" "length (sealed ?m) < 10 ^ 10"
    using ok con enc by (simp_all add: admits_def Let_def)
  from next_planned[OF hist hold sq enc this] obtain m1 where m1: "next_manifest ?m ?sq line dg = Inr m1"
    and plan: "planned h c ?m m1 line segs body ?ts t" by blast
  from announce_append_run[OF st plan sur(1) _ sur(3)] sur(2) obtain wa where wa:
    "atomic_json h d_append put_append (intent ?m m1 line) w = (Inr (), wa)" "w_tick wa = Suc (w_tick w)" "ready ?m segs body (w_files wa)"
    "pending ?m m1 line (w_files wa)" "surrounds h N (Suc (w_tick w)) (w_files wa)" "visits (recoverable h c N (Suc (w_tick w)) ?ts) w wa"
    "passes w wa (w_files wa)" by auto
  from write_frame_run[OF wa(3,4) plan] obtain wb where wb: "write_frame ?m line wa = (Inr (), wb)" "w_tick wb = w_tick wa"
    "framed (w_files wa) (w_files wb)" "pending ?m m1 line (w_files wb)" "uncommitted ?m line segs body (w_files wb)"
    "published ?m m1 line segs body ((w_files wb)\<lparr>d_manifest := Regular (Doc m1)\<rparr>)"
    "visits (\<lambda>g. framed (w_files wa) g \<and> pending ?m m1 line g \<and> uncommitted ?m line segs body g) wa wb" by blast
  have "surrounds h N (w_tick wb) (w_files wb)" "w_tick wb < N" using framed_surrounds[OF wb(3) wa(5)] wa(2) wb(2) sur(2) by simp_all
  from commit_append_run[OF plan wb(4-6) this sur(3)] obtain wc segs' body' where wc:
    "c_bind (c_map_err (\<lambda>_. UnknownCommit) (atomic_json h d_manifest put_manifest m1)) (\<lambda>_.
      c_map_err (\<lambda>_. UnknownCommit) (remove_file d_append put_append)) wb = (Inr (), wc)" "w_tick wc = w_tick w + 2"
    "settled h c m1 segs' body' (?ts @ [t]) (w_files wc)" "concat segs' @ body' = concat segs @ body @ line"
    "surrounds h N (w_tick w + 2) (w_files wc)" "visits (either_way h c N (w_tick w + 2) ?ts (?ts @ [t])) wb wc"
    using wa(2) wb(2) by auto
  have va: "visits (either_way h c N (w_tick w + 2) ?ts (?ts @ [t])) w wa"
    by (rule visits_mono[OF wa(6)]) (simp add: recoverable_later)
  have vb: "visits (either_way h c N (w_tick w + 2) ?ts (?ts @ [t])) wa wb"
    by (rule visits_mono[OF wb(7)])
      (use recoverable_pending(1)[OF plan] framed_surrounds surrounds_later[OF wa(5)] in \<open>auto\<close>)
  let ?j = "\<lparr>j_manifest = m1, j_transactions = ?ts @ [t], j_content = j_content j @ line\<rparr>"
  obtain b where "seal_target_free ?m (w_files w) = Inr b" using target_free_run[OF st] by blast
  then have "Journal_append h c t j w = c_bind (c_bind (c_map_err (\<lambda>_. UnknownCommit) (atomic_json h d_manifest put_manifest m1)) (\<lambda>_.
      c_map_err (\<lambda>_. UnknownCommit) (remove_file d_append put_append))) (\<lambda>_. c_return ?j) wb"
    unfolding c_bind_assoc using sq enc m1 wa(1) wb(1)
    by (simp add: Journal_append_def Let_def intent_def ok_or_def c_bind_run[of "with_files _"] c_bind_run[of "atomic_json h d_append put_append _"]
      c_bind_run[of "write_frame _ _"] c_bind_run[of "c_return _"] c_return_run with_files_run)
  then have "Journal_append h c t j w = (Inr ?j, wc)" using wc(1) by (simp add: c_bind_run[of "c_bind _ _"] c_return_run)
  moreover have "committed h c N (?ts @ [t]) ?j wc"
    using wc(2-5) con unfolding committed_def holds_journal_def by (simp del: append_assoc) (metis append_assoc)
  moreover have "passes w wc (w_files wa)" by (rule passes_later[OF wa(7) va visits_trans[OF vb wc(6)]])
  moreover have "d_append (w_files wa) \<noteq> Missing" using wa(4) by (simp add: pending_def)
  ultimately show ?thesis using wc(2) visits_trans[OF va visits_trans[OF vb wc(6)]] by blast
qed



section \<open>A privacy rewrite, state by state\<close>

definition rewritable :: "host \<Rightarrow> 'v codec \<Rightarrow> 'v Journal \<Rightarrow> 'v list \<Rightarrow> bool" where
  "rewritable h c j us \<longleftrightarrow> (let m = j_manifest j; e = mf_epoch m + 1; b = snd (snd (encode_all h c (retired m e) 0 ZERO us));
       body = drop (sum_list (map unat (sealed m))) (j_content j) in
     unat (mf_epoch m) + 1 < 2 ^ 64 \<and> length us < 2 ^ 64 \<and> chain_reads h c (retired m e) 0 ZERO us \<and> length b < 2 ^ 63 \<and>
     (journal_hash h body = journal_hash h b \<longrightarrow> body = b))"

lemma rewrite_planned:
  assumes hist: "history h c m segs body ts" and hold: "holds_segments m segs f" and e: "checked_add (mf_epoch m) 1 = Some e"
    and enc: "encode_all h c (retired m e) 0 ZERO us = (sq, dg, b)" and reads: "chain_reads h c (retired m e) 0 ZERO us"
    and fits: "length us < 2 ^ 64" "length b < 2 ^ 63" and hash: "journal_hash h body = journal_hash h b \<longrightarrow> body = b"
    and m1: "m1 = (retired m e)\<lparr>mf_sequence := sq, mf_digest := dg, mf_length := of_nat (length b)\<rparr>"
  shows "replaced h c m m1 segs body ts b us"
proof -
  have kn: "known m" using hist by (simp add: history_def)
  have f: "mf_format m1 = mf_format m" "mf_store m1 = mf_store m" "mf_epoch m1 = e" "seal_at m1 = seal_at m" "sealed m1 = []"
    by (simp_all add: m1 retired_def seal_at_def sealed_def option.map_comp comp_def split: option.splits)
  have kn1: "known m1" using kn by (auto simp: m1 retired_def known_def split: option.splits)
  have len: "unat (of_nat (length b) :: u64) = length b" using fits(2) by (intro unat_of_nat_small) simp
  have id: "identity m1 = identity (retired m e)" by (simp add: m1 identity_def)
  have "decode h c b m1 = Inr us"
    by (rule encoded_decodes[OF enc reads fits(1) id]) (simp_all add: m1)
  then have "history h c m1 [] b us" using kn1 f(5) len fits(2) by (simp add: history_def m1)
  moreover have "privacy_intent_ok (rewrite_intent h m m1 b)" using kn kn1 f e by (simp add: privacy_intent_ok_def Let_def)
  ultimately show ?thesis using hist hash by (simp add: replaced_def)
qed

lemma settled_next [simp]: "settled h c m segs body ts (f\<lparr>d_next := x\<rparr>) = settled h c m segs body ts f"
  by (simp add: settled_def)

lemma stage_next_run:
  assumes "settled h c m segs body ts (w_files w)" and "surrounds h N (w_tick w) (w_files w)"
  shows "\<exists>w'. c_bind (c_get (\<lambda>w. node_exists (d_next (w_files w))) (\<lambda>x. if x then remove_file d_next put_next else c_return ()))
      (\<lambda>_. write_synced d_next put_next b) w = (Inr (), w') \<and> w_tick w' = w_tick w \<and>
    settled h c m segs body ts (w_files w') \<and> surrounds h N (w_tick w) (w_files w') \<and> d_next (w_files w') = Regular b \<and>
    visits (recoverable h c N (w_tick w) ts) w w'"
proof -
  let ?f = "w_files w" and ?g = "\<lambda>x. (w_files w)\<lparr>d_next := x\<rparr>"
  have sur: "surrounds h N (w_tick w) (?g x)" if "x = Missing \<or> (\<exists>b. x = Regular b)" for x
    using assms(2) that by (auto simp: surrounds_def)
  have rec: "recoverable h c N (w_tick w) ts (?g x)" if "x = Missing \<or> (\<exists>b. x = Regular b)" for x
    by (rule recoverable_settled[OF _ sur[OF that]]) (use assms(1) in simp)
  define w1 where "w1 = (if node_exists (d_next ?f) then w\<lparr>w_files := ?g Missing, w_past := w_past w @ [?g Missing]\<rparr> else w)"
  have nx: "d_next ?f = Missing \<or> (\<exists>b. d_next ?f = Regular b)" using assms(2) by (simp add: surrounds_def)
  have w1: "c_get (\<lambda>w. node_exists (d_next (w_files w))) (\<lambda>x. if x then remove_file d_next put_next else c_return ()) w = (Inr (), w1)"
    using nx by (auto simp: w1_def remove_file_def cmd_simps)
  have w1f: "w_files w1 = ?g Missing" "w_tick w1 = w_tick w" using nx by (auto simp: w1_def)
  have v1: "visits (recoverable h c N (w_tick w) ts) w w1" using rec by (auto simp: w1_def visits_def)
  obtain w2 where w2: "write_synced d_next put_next b w1 = (Inr (), w2)" "w_files w2 = ?g (Regular b)" "w_tick w2 = w_tick w"
    "visits (\<lambda>g. \<exists>x. g = ?g (Regular x)) w1 w2"
    using w1f by (simp add: write_synced_def c_bind_run with_files_run change_each_def visits_def) blast
  have v2: "visits (recoverable h c N (w_tick w) ts) w1 w2" by (rule visits_mono[OF w2(4)]) (use rec in blast)
  show ?thesis using w1 w2 sur[of "Regular b"] assms(1) visits_trans[OF v1 v2] by (simp add: c_bind_run)
qed

lemma announce_rewrite_run:
  assumes "settled h c m segs body ts (w_files w)" and "d_next (w_files w) = Regular b"
    and "surrounds h N (w_tick w) (w_files w)" and "w_tick w < N" and "inj_on (uuid_at h) {..<N}"
    and "replaced h c m m1 segs body ts b us"
  shows "\<exists>w'. atomic_json h d_privacy put_privacy (rewrite_intent h m m1 b) w = (Inr (), w') \<and> w_tick w' = Suc (w_tick w) \<and>
    announced h m m1 b (w_files w') \<and> replacing m segs body b (w_files w') \<and> surrounds h N (Suc (w_tick w)) (w_files w') \<and>
    visits (either_way h c N (Suc (w_tick w)) ts us) w w' \<and> passes w w' (w_files w')"
proof -
  have "d_privacy ((w_files w)\<lparr>d_staging := st\<rparr>) \<noteq> Directory" for st using assms(1) by (simp add: settled_def)
  from atomic_json_run[of h N w d_privacy put_privacy "rewrite_intent h m m1 b", OF assms(3-5) this] obtain f1 f2 w1 where
    w1: "atomic_json h d_privacy put_privacy (rewrite_intent h m m1 b) w = (Inr (), w1)"
      "w_past w1 = w_past w @ [f1, f2\<lparr>d_privacy := Regular (Doc (rewrite_intent h m m1 b))\<rparr>]"
      "w_files w1 = f2\<lparr>d_privacy := Regular (Doc (rewrite_intent h m m1 b))\<rparr>" "w_tick w1 = Suc (w_tick w)"
      "aside (w_files w) f1" "aside (w_files w) f2" "surrounds h N (Suc (w_tick w)) f1" "surrounds h N (Suc (w_tick w)) f2" by blast
  have s2: "settled h c m segs body ts f2" by (rule settled_aside[OF w1(6) assms(1)])
  have an: "announced h m m1 b (w_files w1)" using s2 w1(3) by (simp add: announced_def settled_def)
  have rp: "replacing m segs body b (w_files w1)" using s2 w1(3,6) assms(2) by (simp add: replacing_def settled_def aside_def)
  have "recoverable h c N (Suc (w_tick w)) ts f1"
    by (rule recoverable_settled[OF settled_aside[OF w1(5) assms(1)] w1(7)])
  moreover have "recoverable h c N (Suc (w_tick w)) us (w_files w1)"
    by (rule recoverable_rewriting[OF assms(6)]) (use an rp w1(3,8) in \<open>simp_all add: rewriting_def\<close>)
  ultimately show ?thesis using w1 an rp by (auto simp: visits_def passes_def)
qed

lemma journal_privacy_run:
  assumes held: "holds_journal h c j (w_files w)" and ok: "rewritable h c j us"
    and sur: "surrounds h N (w_tick w) (w_files w)" "w_tick w + 1 < N" "inj_on (uuid_at h) {..<N}"
  shows "\<exists>j' w'. Journal_privacy h c us j w = (Inr j', w') \<and> w_tick w' = w_tick w + 2 \<and> committed h c N us j' w' \<and>
    visits (either_way h c N (w_tick w + 2) (j_transactions j) us) w w' \<and> (\<exists>g. passes w w' g \<and> d_privacy g \<noteq> Missing)"
proof -
  let ?m = "j_manifest j" and ?ts = "j_transactions j" and ?e = "mf_epoch (j_manifest j) + 1"
  obtain segs body where st: "settled h c ?m segs body ?ts (w_files w)" and con: "j_content j = concat segs @ body"
    using held by (auto simp: holds_journal_def)
  then have hist: "history h c ?m segs body ?ts" and hold: "holds_segments ?m segs (w_files w)" by (simp_all add: settled_def)
  have e: "checked_add (mf_epoch ?m) 1 = Some ?e" using ok by (simp add: rewritable_def Let_def checked_add_def)
  obtain sq dg b where enc: "encode_all h c (retired ?m ?e) 0 ZERO us = (sq, dg, b)" by (cases "encode_all h c (retired ?m ?e) 0 ZERO us") auto
  define m1 where "m1 = (retired ?m ?e)\<lparr>mf_sequence := sq, mf_digest := dg, mf_length := of_nat (length b)\<rparr>"
  have plan: "replaced h c ?m m1 segs body ?ts b us"
    by (rule rewrite_planned[OF hist hold e enc]) (use ok enc con segs_length[OF hold] m1_def in \<open>simp_all add: rewritable_def Let_def\<close>)
  from stage_next_run[OF st sur(1), of b] obtain wa where wa:
    "c_bind (c_get (\<lambda>w. node_exists (d_next (w_files w))) (\<lambda>x. if x then remove_file d_next put_next else c_return ()))
      (\<lambda>_. write_synced d_next put_next b) w = (Inr (), wa)" "w_tick wa = w_tick w" "settled h c ?m segs body ?ts (w_files wa)"
    "surrounds h N (w_tick w) (w_files wa)" "d_next (w_files wa) = Regular b" "visits (recoverable h c N (w_tick w) ?ts) w wa" by blast
  have "surrounds h N (w_tick wa) (w_files wa)" "w_tick wa < N" using wa(2,4) sur(2) by simp_all
  from announce_rewrite_run[OF wa(3,5) this sur(3) plan] obtain wb where wb:
    "atomic_json h d_privacy put_privacy (rewrite_intent h ?m m1 b) wa = (Inr (), wb)" "w_tick wb = w_tick w + 1"
    "announced h ?m m1 b (w_files wb)" "replacing ?m segs body b (w_files wb)" "surrounds h N (w_tick wb) (w_files wb)"
    "visits (either_way h c N (w_tick w + 1) ?ts us) wa wb" "passes wa wb (w_files wb)" using wa(2) by auto
  have "d_manifest (w_files wb) = Regular (Doc ?m)" "w_tick wb < N" using wb(2,4) sur(2) by (simp_all add: replacing_def)
  from recover_rewrite[OF wb(3) plan disjI1[OF wb(4)] this(1) wb(5) this(2) sur(3)] obtain wc where wc:
    "recover_privacy h c ?m wb = (Inr m1, wc)" "w_tick wc = w_tick w + 2" "settled h c m1 [] b us (w_files wc)"
    "surrounds h N (w_tick w + 2) (w_files wc)"
    "visits (\<lambda>g. rewriting h c ?m m1 segs body b us g \<and> surrounds h N (w_tick w + 2) g) wb wc" using wb(2) by auto
  have va: "visits (either_way h c N (w_tick w + 2) ?ts us) w wa" by (rule visits_mono[OF wa(6)]) (simp add: recoverable_later)
  have vb: "visits (either_way h c N (w_tick w + 2) ?ts us) wa wb" by (rule visits_mono[OF wb(6)]) (auto intro: recoverable_later)
  have vc: "visits (either_way h c N (w_tick w + 2) ?ts us) wb wc"
    by (rule visits_mono[OF wc(5)]) (use recoverable_rewriting[OF plan] in blast)
  let ?j = "\<lparr>j_manifest = m1, j_transactions = us, j_content = b\<rparr>"
  have "Journal_privacy h c us j w = c_bind (c_bind (c_get (\<lambda>w. node_exists (d_next (w_files w))) (\<lambda>x.
        if x then remove_file d_next put_next else c_return ())) (\<lambda>_. write_synced d_next put_next b)) (\<lambda>_.
      c_bind (atomic_json h d_privacy put_privacy (rewrite_intent h ?m m1 b)) (\<lambda>_.
      c_bind (c_map_err (\<lambda>_. UnknownCommit) (recover_privacy h c ?m)) (\<lambda>after.
      c_return \<lparr>j_manifest = after, j_transactions = us, j_content = b\<rparr>))) w"
    unfolding c_bind_assoc using e enc
    by (simp add: Journal_privacy_def Let_def m1_def rewrite_intent_def ok_or_def c_bind_run[of "with_files _"] with_files_run)
  then have "Journal_privacy h c us j w = (Inr ?j, wc)"
    using wa(1) wb(1) c_map_err_ok[of "recover_privacy h c ?m", OF wc(1)] by (simp only: c_bind_run prod.case sum.case c_return_run)
  moreover have "committed h c N us ?j wc" using wc(2-4) unfolding committed_def holds_journal_def by (auto intro!: exI[of _ "[]"] exI[of _ b])
  moreover have "passes w wc (w_files wb)" by (rule passes_earlier[OF va passes_later[OF wb(7) vb vc]])
  moreover have "d_privacy (w_files wb) \<noteq> Missing" using wb(3) by (simp add: announced_def)
  ultimately show ?thesis using wc(2) visits_trans[OF va visits_trans[OF vb vc]] by blast
qed



section \<open>A process that dies, and dies again while recovering\<close>

text \<open>The process dies in \<open>op\<close>: the directory is one of those \<open>op\<close> went through, memory is gone, ids move on.\<close>

definition dies :: "'a fsop \<Rightarrow> World \<Rightarrow> World \<Rightarrow> bool" where
  "dies f w w' \<longleftrightarrow> (\<exists>g. passes w (snd (f w)) g \<and> w' = \<lparr>w_files = g, w_past = [], w_tick = w_tick (snd (f w))\<rparr>)"

lemma dies_visits: "dies f w w' \<Longrightarrow> visits P w (snd (f w)) \<Longrightarrow> P (w_files w') \<and> w_tick w' = w_tick (snd (f w))"
  using passes_visits by (auto simp: dies_def)

text \<open>\<open>n\<close> opens in a row, each dying in one of its states.\<close>

inductive crashes :: "host \<Rightarrow> 'v codec \<Rightarrow> nat \<Rightarrow> World \<Rightarrow> World \<Rightarrow> bool" for h c where
  crashes_none: "crashes h c 0 w w"
| crashes_open: "crashes h c n w w1 \<Longrightarrow> dies (open_existing h c) w1 w2 \<Longrightarrow> crashes h c (Suc n) w w2"

lemma crashes_recoverable:
  assumes "crashes h c n w w'" and "recoverable h c N (w_tick w) ts (w_files w)" and "w_tick w + n < N" and "inj_on (uuid_at h) {..<N}"
  shows "recoverable h c N (w_tick w') ts (w_files w') \<and> w_tick w' \<le> w_tick w + n"
  using assms
proof (induction rule: crashes.induct)
  case (crashes_open n w w1 w2)
  then have w1: "recoverable h c N (w_tick w1) ts (w_files w1)" "w_tick w1 \<le> w_tick w + n" by auto
  then obtain j w3 where o: "opens h c N ts w1 j w3" using open_recoverable crashes_open.prems(2,3) by fastforce
  then have "snd (open_existing h c w1) = w3" "visits (recoverable h c N (w_tick w3) ts) w1 w3" "w_tick w3 \<le> Suc (w_tick w1)"
    by (simp_all add: opens_def)
  then show ?case using dies_visits[OF crashes_open.hyps(2), of "recoverable h c N (w_tick w3) ts"] w1(2) by simp
qed simp

text \<open>However often recovery dies, the open that finishes gives \<open>ts\<close> and leaves a directory that holds it.\<close>

definition recovers_to :: "host \<Rightarrow> 'v codec \<Rightarrow> nat \<Rightarrow> 'v list \<Rightarrow> World \<Rightarrow> bool" where
  "recovers_to h c n ts w \<longleftrightarrow> (\<forall>k \<le> n. \<forall>w1. crashes h c k w w1 \<longrightarrow>
     (\<exists>j w2. open_existing h c w1 = (Inr j, w2) \<and> j_transactions j = ts \<and> holds_journal h c j (w_files w2)))"

lemma recoverable_recovers:
  assumes "recoverable h c N (w_tick w) ts (w_files w)" and "w_tick w + n < N" and "inj_on (uuid_at h) {..<N}"
  shows "recovers_to h c n ts w"
  unfolding recovers_to_def
proof (intro allI impI)
  fix k w1 assume k: "k \<le> n" "crashes h c k w w1"
  then have "recoverable h c N (w_tick w1) ts (w_files w1)" "w_tick w1 < N"
    using crashes_recoverable[OF k(2) assms(1)] assms(2,3) by auto
  then obtain j w2 where "opens h c N ts w1 j w2" using open_recoverable assms(3) by blast
  then show "\<exists>j w2. open_existing h c w1 = (Inr j, w2) \<and> j_transactions j = ts \<and> holds_journal h c j (w_files w2)"
    unfolding opens_def holds_journal_def by fastforce
qed

text \<open>
  The contract of an operation that changes the journal: with a journal in hand that the directory
  holds, it commits the result, and on the way every directory recovers to the old history or the new.
\<close>

locale journal_update =
  fixes h :: host and c :: "'v codec" and update :: "'v Journal \<Rightarrow> 'v Journal fsop"
    and admitted :: "'v Journal \<Rightarrow> bool" and result :: "'v list \<Rightarrow> 'v list"
  assumes update_run: "holds_journal h c j (w_files w) \<Longrightarrow> admitted j \<Longrightarrow> surrounds h N (w_tick w) (w_files w) \<Longrightarrow> w_tick w + 1 < N \<Longrightarrow>
    inj_on (uuid_at h) {..<N} \<Longrightarrow> \<exists>j' w'. update j w = (Inr j', w') \<and> w_tick w' = w_tick w + 2 \<and>
      committed h c N (result (j_transactions j)) j' w' \<and> visits (either_way h c N (w_tick w + 2) (j_transactions j) (result (j_transactions j))) w w'"
begin

lemma update_commits:
  assumes "holds_journal h c j (w_files w)" and "admitted j" and "surrounds h N (w_tick w) (w_files w)" and "w_tick w + 1 < N"
    and "inj_on (uuid_at h) {..<N}"
  shows "\<exists>j' w'. update j w = (Inr j', w') \<and> j_transactions j' = result (j_transactions j) \<and> holds_journal h c j' (w_files w')"
  using update_run[OF assms] by (auto simp: committed_def)

lemma update_crash_safe:
  assumes "holds_journal h c j (w_files w)" and "admitted j" and "surrounds h N (w_tick w) (w_files w)" and "w_tick w + n + 2 < N"
    and "inj_on (uuid_at h) {..<N}" and "dies (update j) w w1"
  shows "recovers_to h c n (j_transactions j) w1 \<or> recovers_to h c n (result (j_transactions j)) w1"
proof -
  from update_run[OF assms(1-3) _ assms(5)] assms(4) obtain j' w' where w': "snd (update j w) = w'" "w_tick w' = w_tick w + 2"
    "visits (either_way h c N (w_tick w + 2) (j_transactions j) (result (j_transactions j))) w w'" by fastforce
  have "either_way h c N (w_tick w1) (j_transactions j) (result (j_transactions j)) (w_files w1)" "w_tick w1 + n < N"
    using dies_visits[OF assms(6), of "either_way h c N (w_tick w + 2) (j_transactions j) (result (j_transactions j))"] w' assms(4) by simp_all
  then show ?thesis using recoverable_recovers[OF _ _ assms(5)] by blast
qed

end

interpretation appending: journal_update h c "Journal_append h c t" "\<lambda>j. admits h c j t" "\<lambda>ts. ts @ [t]" for h c t
  by unfold_locales (drule (4) journal_append_run, elim exE conjE, intro exI conjI, assumption+)

interpretation rewriting: journal_update h c "Journal_privacy h c us" "\<lambda>j. rewritable h c j us" "\<lambda>_. us" for h c us
  by unfold_locales (drule (4) journal_privacy_run, elim exE conjE, intro exI conjI, assumption+)

end
