(* ===== verification/JournalSafe.thy ===== *)
theory JournalSafe
  imports JournalCrash
begin

text \<open>
  The journal's two updates are atomic: an append and a privacy rewrite commit, and a process that
  dies in them leaves a directory that every later open takes to the old history or the new one.
\<close>

text \<open>
  C1. Appending a transaction commits it, and a process that dies anywhere in the append leaves a
  directory whose recovery, however often it dies itself, ends with the whole history before the
  append or the whole history with it, always the same of the two.
\<close>

theorem append_crash_safe:
  assumes "holds_journal h c j (w_files w)" and "admits h c j t" and "surrounds h N (w_tick w) (w_files w)"
    and "w_tick w + n + 2 < N" and "inj_on (uuid_at h) {..<N}"
  shows "(\<exists>j' w'. Journal_append h c t j w = (Inr j', w') \<and> j_transactions j' = j_transactions j @ [t] \<and> holds_journal h c j' (w_files w')) \<and>
    (\<forall>w1. dies (Journal_append h c t j) w w1 \<longrightarrow>
       recovers_to h c n (j_transactions j) w1 \<or> recovers_to h c n (j_transactions j @ [t]) w1)"
proof -
  have "w_tick w + 1 < N" using assms(4) by simp
  then show ?thesis using appending.update_commits[OF assms(1-3) _ assms(5)] appending.update_crash_safe[OF assms] by blast
qed

text \<open>
  C2. Rewriting the journal for privacy commits the replacement, and a process that dies anywhere in
  the rewrite leaves a directory whose recovery ends with the history before it or the replacement.
\<close>

theorem privacy_crash_safe:
  assumes "holds_journal h c j (w_files w)" and "rewritable h c j us" and "surrounds h N (w_tick w) (w_files w)"
    and "w_tick w + n + 2 < N" and "inj_on (uuid_at h) {..<N}"
  shows "(\<exists>j' w'. Journal_privacy h c us j w = (Inr j', w') \<and> j_transactions j' = us \<and> holds_journal h c j' (w_files w')) \<and>
    (\<forall>w1. dies (Journal_privacy h c us j) w w1 \<longrightarrow> recovers_to h c n (j_transactions j) w1 \<or> recovers_to h c n us w1)"
proof -
  have "w_tick w + 1 < N" using assms(4) by simp
  then show ?thesis using rewriting.update_commits[OF assms(1-3) _ assms(5)] rewriting.update_crash_safe[OF assms] by blast
qed


section \<open>A directory with one transaction\<close>

definition sample_journal :: "transaction Journal" where
  "sample_journal = \<lparr>j_manifest = fst (sample_head [TxOther ''a'']), j_transactions = [TxOther ''a''], j_content = snd (sample_head [TxOther ''a''])\<rparr>"

definition sample_world :: World where
  "sample_world = \<lparr>w_files = \<lparr>d_root = RootDir, d_tree = False, d_lock = Regular (), d_manifest = Regular (Doc (j_manifest sample_journal)),
     d_events = Regular (j_content sample_journal), d_segments = NoSegments, d_append = Missing, d_privacy = Missing, d_next = Missing,
     d_staging = []\<rparr>, w_past = [], w_tick = 0\<rparr>"

lemma sample_fields:
  "j_transactions sample_journal = [TxOther ''a'']" "mf_sequence (j_manifest sample_journal) = 1" "mf_epoch (j_manifest sample_journal) = 0"
  "mf_digest (j_manifest sample_journal) = journal_hash sample_host [32]" "sealed (j_manifest sample_journal) = []"
  "j_content sample_journal = 32 # as_bytes (journal_hash sample_host [32]) @ [newline]"
  "identity (j_manifest sample_journal) = identity sample_manifest" "known (j_manifest sample_journal)"
  by (simp_all add: sample_journal_def sample_head_def sample_encode sealed_def identity_def)
    (simp_all add: sample_manifest_def first_manifest_def known_def)

lemma sample_hash_length: "length (journal_hash sample_host b) = 64"
  by (auto simp: journal_hash_def sample_host_def sample_sha_def min_def)

lemma sample_length: "mf_length (j_manifest sample_journal) = 66" "length (j_content sample_journal) = 66"
  by (simp_all add: sample_journal_def sample_head_def sample_encode sample_hash_length)

lemma sample_held: "holds_journal sample_host (sample_codec sample_frames) sample_journal (w_files sample_world)"
proof -
  have "history sample_host (sample_codec sample_frames) (j_manifest sample_journal) [] (j_content sample_journal) [TxOther ''a'']"
    using sample_decodes[OF sample_reads(2)] sample_fields(5,8) sample_length by (simp add: history_def sample_journal_def)
  then have "settled sample_host (sample_codec sample_frames) (j_manifest sample_journal) [] (j_content sample_journal) [TxOther ''a''] (w_files sample_world)"
    using sample_fields(5) by (simp add: settled_def sample_world_def holds_segments_def named_below_def segment_entries_def)
  then show ?thesis unfolding holds_journal_def sample_fields(1) by (intro exI[of _ "[]"] exI[of _ "j_content sample_journal"]) simp
qed

lemma sample_surrounds: "surrounds sample_host N (w_tick sample_world) (w_files sample_world)"
  by (simp add: surrounds_def sample_world_def unused_def bt_simps)

lemma sample_admits: "admits sample_host (sample_codec sample_frames) sample_journal (TxOther ''b'')"
proof -
  let ?m = "j_manifest sample_journal" and ?c = "sample_codec sample_frames"
  have id: "identity ?m = identity sample_manifest" by (rule sample_fields)
  have "reads_back ?c (full_frame sample_host ?c sample_manifest 2 (journal_hash sample_host [32]) (TxOther ''b''))"
    using sample_reads(1) by (simp add: sample_encode)
  then have "reads_back ?c (full_frame sample_host ?c ?m 2 (journal_hash sample_host [32]) (TxOther ''b''))"
    unfolding full_frame_def plain_frame_cong[OF id] .
  moreover have "encode sample_host ?c ?m 2 (journal_hash sample_host [32]) (TxOther ''b'') =
      encode sample_host ?c sample_manifest 2 (journal_hash sample_host [32]) (TxOther ''b'')"
    by (simp add: encode_def plain_frame_cong[OF id])
  ultimately show ?thesis
    by (simp add: admits_def Let_def sample_fields(2,4,5) sample_length sample_encode sample_hash_length)
qed

text \<open>Both updates go through a directory with a durable intent: the process can die there.\<close>

lemma sample_append_dies:
  "\<exists>w1. dies (Journal_append sample_host (sample_codec sample_frames) (TxOther ''b'') sample_journal) sample_world w1 \<and> d_append (w_files w1) \<noteq> Missing"
proof -
  have "w_tick sample_world + 1 < 10" by (simp add: sample_world_def)
  from journal_append_run[OF sample_held sample_admits sample_surrounds this sample_ids]
  obtain w' g where "snd (Journal_append sample_host (sample_codec sample_frames) (TxOther ''b'') sample_journal sample_world) = w'"
    "passes sample_world w' g" "d_append g \<noteq> Missing" by fastforce
  then show ?thesis unfolding dies_def by (intro exI[of _ "\<lparr>w_files = g, w_past = [], w_tick = w_tick w'\<rparr>"]) auto
qed

theorem append_crash_safe_witness:
  "\<exists>w1. dies (Journal_append sample_host (sample_codec sample_frames) (TxOther ''b'') sample_journal) sample_world w1 \<and>
      d_append (w_files w1) \<noteq> Missing \<and>
      (recovers_to sample_host (sample_codec sample_frames) 5 [TxOther ''a''] w1 \<or>
       recovers_to sample_host (sample_codec sample_frames) 5 [TxOther ''a'', TxOther ''b''] w1)"
proof -
  have "w_tick sample_world + 5 + 2 < 10" by (simp add: sample_world_def)
  from append_crash_safe[OF sample_held sample_admits sample_surrounds this sample_ids] sample_append_dies
  show ?thesis by (auto simp: sample_fields(1))
qed

lemma sample_rewritable: "rewritable sample_host (sample_codec sample_frames) sample_journal [TxOther ''c'']"
proof -
  let ?c = "sample_codec sample_frames" and ?m = "retired (j_manifest sample_journal) 1"
  have id: "identity ?m = identity (retired sample_manifest 1)"
    using sample_fields(7) by (simp add: identity_def retired_def)
  have "plain_frame (retired sample_manifest 1) 1 ZERO (TxOther ''c'') \<in> set sample_frames" by (simp add: sample_frames_def)
  then have "chain_reads sample_host ?c ?m 0 ZERO [TxOther ''c'']"
    by (intro sample_chain_reads) (simp_all add: plain_frame_cong[OF id] sample_plain(4))
  moreover have "encode sample_host ?c ?m 1 ZERO (TxOther ''c'') = encode sample_host ?c (retired sample_manifest 1) 1 ZERO (TxOther ''c'')"
    by (simp add: encode_def plain_frame_cong[OF id])
  moreover have "encode sample_host ?c (retired sample_manifest 1) 1 ZERO (TxOther ''c'') =
      (35 # as_bytes (journal_hash sample_host [35]) @ [newline], journal_hash sample_host [35])"
    by (simp add: encode_def sample_codec_def sample_frames_def plain_frame_def retired_def sample_manifest_def first_manifest_def Let_def)
  moreover have "journal_hash sample_host (32 # as_bytes (journal_hash sample_host [32]) @ [newline]) \<noteq>
      journal_hash sample_host (35 # as_bytes (journal_hash sample_host [35]) @ [newline])" by code_simp
  ultimately show ?thesis
    by (simp add: rewritable_def Let_def sample_fields(3,5,6) sample_hash_length del: chain_reads.simps)
qed

lemma sample_rewrite_dies:
  "\<exists>w1. dies (Journal_privacy sample_host (sample_codec sample_frames) [TxOther ''c''] sample_journal) sample_world w1 \<and> d_privacy (w_files w1) \<noteq> Missing"
proof -
  have "w_tick sample_world + 1 < 10" by (simp add: sample_world_def)
  from journal_privacy_run[OF sample_held sample_rewritable sample_surrounds this sample_ids]
  obtain w' g where "snd (Journal_privacy sample_host (sample_codec sample_frames) [TxOther ''c''] sample_journal sample_world) = w'"
    "passes sample_world w' g" "d_privacy g \<noteq> Missing" by fastforce
  then show ?thesis unfolding dies_def by (intro exI[of _ "\<lparr>w_files = g, w_past = [], w_tick = w_tick w'\<rparr>"]) auto
qed

theorem privacy_crash_safe_witness:
  "\<exists>w1. dies (Journal_privacy sample_host (sample_codec sample_frames) [TxOther ''c''] sample_journal) sample_world w1 \<and>
      d_privacy (w_files w1) \<noteq> Missing \<and>
      (recovers_to sample_host (sample_codec sample_frames) 5 [TxOther ''a''] w1 \<or>
       recovers_to sample_host (sample_codec sample_frames) 5 [TxOther ''c''] w1)"
proof -
  have "w_tick sample_world + 5 + 2 < 10" by (simp add: sample_world_def)
  from privacy_crash_safe[OF sample_held sample_rewritable sample_surrounds this sample_ids] sample_rewrite_dies
  show ?thesis by (auto simp: sample_fields(1))
qed

end
