(* ===== verification/Spec2Isabelle.thy ===== *)
theory Spec2Isabelle
  imports Envelope Admission AppendGroups Blobs FileState Privacy Projection StoreReads StoreGroup StoreContent StoreProject JournalSafe
begin

text \<open>
  \<^bold>\<open>A verification of the event log and its file store\<close>

  The workspace is an append-only event log. \<open>crates/eventlog-core\<close> holds the envelope every provider
  shares (identities, events, metadata, validation, admission, append groups, blobs, projections) and the
  trait \<open>EventStore\<close>; \<open>crates/eventlog-file\<close> is the provider that keeps one tenant-partitioned history
  in a directory. A call of the file store takes the journal (\<open>journal.rs\<close>), folds the committed
  transactions into a state (\<open>state.rs\<close>) or resumes a view it kept, runs the call's work on that state
  as one transaction (\<open>lib.rs\<close>, callbacks through \<open>projection.rs\<close>) and commits the recorded operations
  as one journal frame, or one rewritten history where the call erases.

  \<^bold>\<open>Theories and sources\<close>

  \<^item> \<open>Prelude\<close>: checked and saturating machine integers, results with \<open>?\<close>, commands that mutate a state
    and may fail, the frame rules \<open>steps\<close>, \<open>ok_steps\<close> and \<open>returns\<close>, strings and digits, \<open>BTreeMap\<close> as an
    ascending association list, and the locale \<open>checked_fold\<close> of a fold that keeps an invariant.
  \<^item> \<open>Envelope\<close> (\<open>eventlog-core/src/lib.rs\<close>), \<open>Admission\<close> (\<open>admission.rs\<close>), \<open>AppendGroups\<close>
    (\<open>atomic_group.rs\<close>, \<open>atomic_blob.rs\<close>), \<open>Blobs\<close> (\<open>blob_integrity.rs\<close>, \<open>verified_content.rs\<close>),
    \<open>Projection\<close> (\<open>projection.rs\<close> and the default paging of \<open>lib.rs\<close>): the core.
  \<^item> \<open>FileState\<close> (\<open>eventlog-file/src/state.rs\<close>): operations, the event map with its stream index, the fold.
  \<^item> \<open>Privacy\<close>, \<open>FileTxn\<close>, \<open>FileStore\<close> (\<open>eventlog-file/src/lib.rs\<close>, \<open>projection.rs\<close>): the history rewrites,
    one transaction and its operations, the handle with its cached view, objects and verified content, and
    every call of the store.
  \<^item> \<open>StoreLaws\<close>, \<open>StoreInv\<close>, \<open>StorePrivacy\<close>, \<open>StoreSystem\<close>: what transactions may change, the store
    invariant, erasing calls, and several handles on one history as the step relation \<open>system\<close>.
  \<^item> \<open>StoreReads\<close>, \<open>StoreAppend\<close>, \<open>StoreGroup\<close>, \<open>StoreContent\<close>, \<open>StoreProject\<close>: the calls, one group each;
    the last also models \<open>CatchUpRunner\<close>.
  \<^item> \<open>Journal\<close> (\<open>eventlog-file/src/journal.rs\<close>): manifest, frames, digest chain, segments, recovery intents,
    \<open>open\<close>, \<open>append\<close>, \<open>privacy\<close>, \<open>resume\<close>. \<open>JournalChain\<close>, \<open>JournalDisk\<close>, \<open>JournalAppend\<close>,
    \<open>JournalRewrite\<close>, \<open>JournalCrash\<close> and \<open>JournalSafe\<close> prove it.

  Structs are records, enums are datatypes, \<open>u64\<close> and \<open>u32\<close> are words with the code's checked or
  saturating operations, strings are byte lists, errors are values of \<open>EventLogError\<close>, and every \<open>?\<close>,
  guard and early return is a branch. A call of the store is a function from the handle's state to a
  result and the state after it. Guards and projectors are arbitrary programs over the calls of
  \<open>ProjectionStore\<close> (datatype \<open>prog\<close>), so the theorems hold for every callback. SHA-256, JSON text, UUIDs
  and the clock are fields of the record \<open>host\<close>, the text of a frame is a \<open>codec\<close>; where a theorem relies
  on them it says so (no two of the inputs in play collide, ids are distinct, a frame's text reads back).

  \<^bold>\<open>What is shown\<close>

  \<^item> Journal: an append and a privacy rewrite commit, and a process that dies at any change of the
    directory, or any number of times while recovering, leaves one whole history, the one before or the
    one after. What is encoded decodes; comparing digests decides whether a history continues an
    observed one.
  \<^item> Store: an append stores exactly the caller's events at the end of the log with gapless versions, a
    retry answers the same, a refusal changes nothing, and an append that may succeed does. A group is all
    or nothing. Whatever handles do in whatever order, the committed history replays and the store
    reopens; a cached view is the replay; a handle whose history was rewritten refuses. Erasing calls
    remove every trace the history, the objects and the caches had.
  \<^item> Reads: feed, stream windows and projection pages lose nothing and repeat nothing; the one exception,
    a projection page of the largest size, is stated as it is. Blobs and snapshots round-trip.
  \<^item> Projections: callbacks reach only their tenant, catch-up is exactly once, draining ends, a rebuild
    equals the replay. Reservations are exact.
  \<^item> Core: validation accepts exactly what it documents, coordinates and fingerprints are injective, a
    verified-content memory stays bounded and never changes an answer.

  \<^bold>\<open>Bounds\<close>

  No definition has fuel. \<open>split_lines\<close> is by decreasing length; the loop of \<open>drain\<close> is a
  \<open>partial_function\<close> and shown to return. The crash theorems take a bound \<open>N\<close> on the ids drawn, which
  the host gives distinctly below it, and a number of crashes below it; histories are shorter than
  \<open>2 ^ 63\<close> bytes and \<open>10 ^ 10\<close> segments, the limits of file offsets and of segment names.

  \<^bold>\<open>Not modelled\<close>

  \<^item> \<open>fsync\<close> and what a device loses at a power failure: a crash is a process that dies between two
    changes of the directory, so synchronization has no effect. The lock file is held by the one running
    operation; \<open>Retained\<close> buffers, their sharing between handles and the timing of inode stamps are
    performance machinery whose answer is the parameter \<open>vouched\<close>.
  \<^item> Crash states of object and cache files of the store: the handle model keeps them as maps and
    commits them with the history.
  \<^item> Consistent capture (\<open>capture.rs\<close> of core and providers) and inspection: they read a store or its
    files under limits and budgets and change no history. Inline administration attaches and rebuilds
    projectors behind the strict opener of captures; the store's own registration and rebuild are modelled.
  \<^item> The aggregate \<open>Repository\<close> (\<open>eventlog-core/src/aggregate.rs\<close>): generic over the user's aggregate type.
  \<^item> \<open>eventlog-sqlite\<close> and \<open>eventlog-postgres\<close>: their behaviour is that of SQL engines, drivers and a
    connection pool that are not in the workspace. \<open>eventlog-tree\<close>: a history of
    files under version control whose reads an SQLite store in memory serves. \<open>eventlog-conformance\<close>, scripts, schemas and the website: tests and text.
\<close>

end
